(* ===== verification/Prelude.thy ===== *)
theory Prelude
  imports Main "HOL-Library.Word"
begin

text \<open>
  What every component of the agent shares: the errors the C++ code can end in, as values of a
  sum type; the lemmas that chain fallible steps; strings cut at a divider and put together again
  (the reference the parameters for the string library are compared with); the bytes of a string;
  and the first and last element of a list as an optional value, which is how a null-terminated
  pointer chain shows its ends.
\<close>

section \<open>Errors as values\<close>

text \<open>
  An exception the source throws keeps its class and its message. What C++ leaves undefined
  (a null or dangling pointer dereferenced, a vector read past its end, an unterminated buffer read
  as a C string) is an error of its own, so that a theorem that an operation returns \<open>Inr\<close> says that
  the operation neither throws nor runs into undefined behaviour.
\<close>

datatype ub = Null_Dereference | Dangling_Pointer | Out_Of_Range | Unterminated_Buffer

datatype error =
    Invalid_Argument string
  | Runtime_Error string
  | Logic_Error string
  | Length_Error string
  | Undefined ub

type_synonym 'a result = "error + 'a"

definition bind_result :: "'a result \<Rightarrow> ('a \<Rightarrow> 'b result) \<Rightarrow> 'b result" where
  "bind_result m f = (case m of Inl e \<Rightarrow> Inl e | Inr x \<Rightarrow> f x)"

named_theorems result_iff \<open>when a chain of fallible steps returns a value, or an error\<close>

lemma bind_result_Inl [simp]: "bind_result (Inl e) f = Inl e"
  by (simp add: bind_result_def)

lemma bind_result_Inr [simp]: "bind_result (Inr x) f = f x"
  by (simp add: bind_result_def)

lemma bind_result_eq_Inr [result_iff]:
  "bind_result m f = Inr y \<longleftrightarrow> (\<exists>x. m = Inr x \<and> f x = Inr y)"
  by (cases m) simp_all

lemma bind_result_eq_Inl [result_iff]:
  "bind_result m f = Inl e \<longleftrightarrow> m = Inl e \<or> (\<exists>x. m = Inr x \<and> f x = Inl e)"
  by (cases m) auto

lemma bind_result_assoc:
  "bind_result (bind_result m f) g = bind_result m (\<lambda>x. bind_result (f x) g)"
  by (cases m) simp_all

text \<open>A fallible step whose value is optional ends in one of three ways.\<close>

lemma optional_result_cases:
  obtains (some) a where "r = Inr (Some a)" | (none) "r = Inr None" | (exn) e where "r = Inl e"
  by (metis not_None_eq old.sum.exhaust)

section \<open>The ends of a list\<close>

fun first_or :: "'a option \<Rightarrow> 'a list \<Rightarrow> 'a option" where
  "first_or d [] = d"
| "first_or d (x # xs) = Some x"

fun last_or :: "'a option \<Rightarrow> 'a list \<Rightarrow> 'a option" where
  "last_or d [] = d"
| "last_or d (x # xs) = last_or (Some x) xs"

lemma first_or_append [simp]: "first_or d (xs @ ys) = first_or (first_or d ys) xs"
  by (cases xs) simp_all

lemma last_or_append [simp]: "last_or d (xs @ ys) = last_or (last_or d xs) ys"
  by (induction xs arbitrary: d) simp_all

lemma first_or_None_iff [simp]: "first_or None xs = None \<longleftrightarrow> xs = []"
  by (cases xs) simp_all

lemma last_or_Some: "\<exists>y. last_or (Some x) xs = Some y"
  by (induction xs arbitrary: x) simp_all

lemma last_or_None_iff [simp]: "last_or None xs = None \<longleftrightarrow> xs = []"
  using last_or_Some by (cases xs) (auto, fastforce)

lemma ends_defined [simp]: "first_or (Some x) xs \<noteq> None" "last_or (Some x) xs \<noteq> None"
  using last_or_Some [of x xs] by (cases xs; simp)+

lemma first_or_in_set: "first_or None xs = Some x \<Longrightarrow> x \<in> set xs"
  by (cases xs) simp_all

lemma last_or_in_set: "last_or d xs = Some x \<Longrightarrow> xs \<noteq> [] \<Longrightarrow> x \<in> set xs"
  by (induction xs arbitrary: d) (auto, metis last_or.simps(1) option.inject)

lemma last_or_None_in_set: "last_or None xs = Some x \<Longrightarrow> x \<in> set xs"
  by (cases "xs = []") (auto dest: last_or_in_set)

section \<open>Cutting a string at a divider\<close>

fun split_on :: "'a \<Rightarrow> 'a list \<Rightarrow> 'a list list" where
  "split_on c [] = [[]]"
| "split_on c (x # xs) =
     (if x = c then [] # split_on c xs
      else (case split_on c xs of [] \<Rightarrow> [[x]] | p # ps \<Rightarrow> (x # p) # ps))"

fun intercalate :: "'a list \<Rightarrow> 'a list list \<Rightarrow> 'a list" where
  "intercalate d [] = []"
| "intercalate d [p] = p"
| "intercalate d (p # q # ps) = p @ d @ intercalate d (q # ps)"

lemma split_on_not_Nil [simp]: "split_on c xs \<noteq> []"
  by (induction xs) (auto split: list.splits)

lemma intercalate_Cons: "ps \<noteq> [] \<Longrightarrow> intercalate d (p # ps) = p @ d @ intercalate d ps"
  by (cases ps) simp_all

lemma intercalate_append:
  "ps \<noteq> [] \<Longrightarrow> qs \<noteq> [] \<Longrightarrow> intercalate d (ps @ qs) = intercalate d ps @ d @ intercalate d qs"
  by (induction d ps rule: intercalate.induct) (simp_all add: intercalate_Cons)

lemma intercalate_push:
  "intercalate d ((x # p) # ps) = x # intercalate d (p # ps)"
  by (cases ps) simp_all

lemma intercalate_eq_Nil: "[] \<notin> set ps \<Longrightarrow> intercalate d ps = [] \<longleftrightarrow> ps = []"
  by (induction d ps rule: intercalate.induct) auto

lemma set_intercalate: "set (intercalate d ps) \<subseteq> set d \<union> (\<Union>p \<in> set ps. set p)"
  by (induction d ps rule: intercalate.induct) auto

lemma length_intercalate: "[] \<notin> set ps \<Longrightarrow> length ps \<le> length (intercalate d ps)"
proof (induction d ps rule: intercalate.induct)
  case (3 d p q ps)
  then show ?case by (cases p) auto
qed (auto simp: Suc_le_eq)

lemma length_split_on: "length (split_on c xs) = Suc (count_list xs c)"
  by (induction xs) (auto split: list.splits)

lemma split_on_joins_back: "intercalate [c] (split_on c xs) = xs"
  by (induction xs) (auto simp: intercalate_Cons intercalate_push split: list.splits)

lemma split_on_pieces: "p \<in> set (split_on c xs) \<Longrightarrow> c \<notin> set p"
  by (induction xs arbitrary: p) (auto split: list.splits if_splits)

lemma split_on_no_divider: "c \<notin> set p \<Longrightarrow> split_on c p = [p]"
  by (induction p) auto

lemma split_on_append:
  "c \<notin> set p \<Longrightarrow> split_on c (p @ c # rest) = p # split_on c rest"
  by (induction p) auto

lemma split_on_intercalate:
  "ps \<noteq> [] \<Longrightarrow> (\<And>p. p \<in> set ps \<Longrightarrow> c \<notin> set p) \<Longrightarrow> split_on c (intercalate [c] ps) = ps"
  by (induction "[c]" ps rule: intercalate.induct)
     (auto simp: split_on_no_divider split_on_append)

text \<open>
  The three laws that pin a splitting function down: it returns at least one piece, no piece holds
  the divider, and the pieces joined give the text back.
\<close>

lemma split_unique:
  assumes "ps \<noteq> []" and "\<And>p. p \<in> set ps \<Longrightarrow> c \<notin> set p" and "intercalate [c] ps = xs"
  shows "ps = split_on c xs"
  using split_on_intercalate [OF assms(1,2)] assms(3) by simp

section \<open>Bytes\<close>

type_synonym byte = "8 word"

definition bytes_of :: "string \<Rightarrow> byte list" where
  "bytes_of s = map of_char s"

definition string_of :: "byte list \<Rightarrow> string" where
  "string_of bs = map (\<lambda>b. char_of (unat b)) bs"

lemma unat_of_char: "unat (of_char c :: byte) = of_char c"
proof -
  have "(of_char c :: byte) = of_nat (of_char c)" by (simp only: of_nat_of_char)
  moreover have "of_char c < (256::nat)" by simp
  ultimately show ?thesis by (simp only: unat_of_nat) simp
qed

lemma string_of_bytes_of [simp]: "string_of (bytes_of s) = s"
  by (induction s) (simp_all add: bytes_of_def string_of_def unat_of_char)

lemma length_bytes_of [simp]: "length (bytes_of s) = length s"
  by (simp add: bytes_of_def)

lemma length_string_of [simp]: "length (string_of bs) = length bs"
  by (simp add: string_of_def)

lemma bytes_of_append [simp]: "bytes_of (s @ t) = bytes_of s @ bytes_of t"
  by (simp add: bytes_of_def)

lemma unat_64: "unat (m :: 64 word) < 2 ^ 64"
  by (rule order_less_le_trans [OF unsigned_less]) simp

end
