(* ===== verification/Traceable_List.thy ===== *)
theory Traceable_List
  imports Prelude
begin

text \<open>
  The doubly linked list of lib/traceable_list.hpp, the store both object pools keep their objects
  in. A node is a cell of an explicit heap, an address is a natural number, a pointer is an
  optional address, and every write of a link is a write to the heap. The data of a node is its
  first member, so a pointer to the data and the pointer to the node are the same address: this is
  what the iterator built from a data pointer relies on.

  A null pointer dereferenced is \<open>Undefined Null_Dereference\<close>, a cell that was deleted, or was
  never allocated, is \<open>Undefined Dangling_Pointer\<close>. The address \<open>new\<close> returns is an argument
  of the operation that allocates, so the theorems hold for every allocator that returns a free
  address.
\<close>

section \<open>State\<close>

type_synonym addr = nat

record ('t, 'e) node =
  data :: 't
  prev :: "addr option"
  nxt :: "addr option"
  extra_info :: 'e
  magic :: "32 word"

type_synonym ('t, 'e) heap = "addr \<Rightarrow> ('t, 'e) node option"

record ('t, 'e) tlist =
  cells :: "('t, 'e) heap"
  head :: "addr option"
  tail :: "addr option"
  m_size :: "64 word"

record iterator =
  ptr :: "addr option"
  impl_tail :: "addr option"

definition node_magic :: "32 word" where
  "node_magic = 0x19980427"

definition empty_list :: "('t, 'e) tlist" where
  "empty_list = \<lparr>cells = (\<lambda>_. None), head = None, tail = None, m_size = 0\<rparr>"

section \<open>Reading and writing through a pointer\<close>

definition read_node :: "('t, 'e) tlist \<Rightarrow> addr option \<Rightarrow> ('t, 'e) node result" where
  "read_node s p =
     (case p of
        None \<Rightarrow> Inl (Undefined Null_Dereference)
      | Some a \<Rightarrow>
          (case cells s a of
             None \<Rightarrow> Inl (Undefined Dangling_Pointer)
           | Some nd \<Rightarrow> Inr nd))"

definition write_node ::
  "('t, 'e) tlist \<Rightarrow> addr option \<Rightarrow> (('t, 'e) node \<Rightarrow> ('t, 'e) node) \<Rightarrow> ('t, 'e) tlist result" where
  "write_node s p f =
     bind_result (read_node s p) (\<lambda>nd. Inr (s\<lparr>cells := (cells s)(the p \<mapsto> f nd)\<rparr>))"

definition write_if ::
  "('t, 'e) tlist \<Rightarrow> addr option \<Rightarrow> (('t, 'e) node \<Rightarrow> ('t, 'e) node) \<Rightarrow> ('t, 'e) tlist result" where
  "write_if s p f = (if p = None then Inr s else write_node s p f)"

definition delete_node :: "('t, 'e) tlist \<Rightarrow> addr option \<Rightarrow> ('t, 'e) tlist result" where
  "delete_node s p = bind_result (read_node s p) (\<lambda>_. Inr (s\<lparr>cells := (cells s)(the p := None)\<rparr>))"

section \<open>Iterators\<close>

definition iter_begin :: "('t, 'e) tlist \<Rightarrow> iterator" where
  "iter_begin s = \<lparr>ptr = head s, impl_tail = tail s\<rparr>"

definition iter_end :: "('t, 'e) tlist \<Rightarrow> iterator" where
  "iter_end s = \<lparr>ptr = None, impl_tail = tail s\<rparr>"

text \<open>The iterator from a \<open>T*\<close>: the cell there must carry the magic number.\<close>

definition iter_of_data :: "('t, 'e) tlist \<Rightarrow> addr option \<Rightarrow> iterator result" where
  "iter_of_data s p =
     bind_result (read_node s p) (\<lambda>nd.
       if magic nd \<noteq> node_magic
       then Inl (Invalid_Argument
         ''magic_num verification failed. invalid data_pointer passed or ruined memory?'')
       else Inr \<lparr>ptr = p, impl_tail = None\<rparr>)"

definition iter_deref :: "('t, 'e) tlist \<Rightarrow> iterator \<Rightarrow> 't result" where
  "iter_deref s it = bind_result (read_node s (ptr it)) (\<lambda>nd. Inr (data nd))"

text \<open>\<open>&*it\<close>: the address of the data of the node.\<close>

definition iter_data_ptr :: "('t, 'e) tlist \<Rightarrow> iterator \<Rightarrow> addr result" where
  "iter_data_ptr s it = bind_result (read_node s (ptr it)) (\<lambda>_. Inr (the (ptr it)))"

definition get_extra_info :: "('t, 'e) tlist \<Rightarrow> iterator \<Rightarrow> 'e result" where
  "get_extra_info s it = bind_result (read_node s (ptr it)) (\<lambda>nd. Inr (extra_info nd))"

text \<open>An assignment through the reference \<open>get_extra_info\<close> returns.\<close>

definition set_extra_info :: "('t, 'e) tlist \<Rightarrow> iterator \<Rightarrow> 'e \<Rightarrow> ('t, 'e) tlist result" where
  "set_extra_info s it e = write_node s (ptr it) (extra_info_update (\<lambda>_. e))"

definition iter_inc :: "('t, 'e) tlist \<Rightarrow> iterator \<Rightarrow> iterator result" where
  "iter_inc s it = bind_result (read_node s (ptr it)) (\<lambda>nd. Inr (it\<lparr>ptr := nxt nd\<rparr>))"

text \<open>The postfix forms return a backup made from the node pointer alone, and the moved iterator.\<close>

definition iter_post_inc :: "('t, 'e) tlist \<Rightarrow> iterator \<Rightarrow> (iterator \<times> iterator) result" where
  "iter_post_inc s it =
     (let backup = \<lparr>ptr = ptr it, impl_tail = None\<rparr>
      in bind_result (iter_inc s it) (\<lambda>it'. Inr (backup, it')))"

definition iter_dec :: "('t, 'e) tlist \<Rightarrow> iterator \<Rightarrow> iterator result" where
  "iter_dec s it =
     (if ptr it = None \<and> impl_tail it \<noteq> None then Inr (it\<lparr>ptr := impl_tail it\<rparr>)
      else bind_result (read_node s (ptr it)) (\<lambda>nd. Inr (it\<lparr>ptr := prev nd\<rparr>)))"

definition iter_post_dec :: "('t, 'e) tlist \<Rightarrow> iterator \<Rightarrow> (iterator \<times> iterator) result" where
  "iter_post_dec s it =
     (let backup = \<lparr>ptr = ptr it, impl_tail = None\<rparr>
      in bind_result (iter_dec s it) (\<lambda>it'. Inr (backup, it')))"

definition iter_eq :: "iterator \<Rightarrow> iterator \<Rightarrow> bool" where
  "iter_eq it another = (ptr it = ptr another)"

definition iter_neq :: "iterator \<Rightarrow> iterator \<Rightarrow> bool" where
  "iter_neq it another = (\<not> iter_eq it another)"

lemmas iter_compare = iter_eq_def iter_neq_def

section \<open>Insertion\<close>

definition push_one ::
  "addr \<Rightarrow> iterator \<Rightarrow> 't \<Rightarrow> 'e \<Rightarrow> ('t, 'e) tlist \<Rightarrow> ('t, 'e) tlist result" where
  "push_one a position d e s =
     (let new_node = \<lparr>data = d, prev = None, nxt = ptr position, extra_info = e, magic = node_magic\<rparr>;
          s1 = s\<lparr>cells := (cells s)(a \<mapsto> new_node), m_size := m_size s + 1\<rparr>
      in if head s1 = None then Inr (s1\<lparr>tail := Some a, head := Some a\<rparr>)
         else (case ptr position of
             None \<Rightarrow>
               bind_result (write_node s1 (tail s1) (nxt_update (\<lambda>_. Some a))) (\<lambda>s2.
               bind_result (write_node s2 (Some a) (prev_update (\<lambda>_. tail s2))) (\<lambda>s3.
               Inr (s3\<lparr>tail := Some a\<rparr>)))
           | Some b \<Rightarrow>
               bind_result (read_node s1 (Some b)) (\<lambda>right.
               bind_result (write_node s1 (Some a) (prev_update (\<lambda>_. prev right))) (\<lambda>s2.
               bind_result (write_if s2 (prev right) (nxt_update (\<lambda>_. Some a))) (\<lambda>s3.
               bind_result (write_node s3 (Some b) (prev_update (\<lambda>_. Some a))) (\<lambda>s4.
               Inr (if head s4 = Some b then s4\<lparr>head := Some a\<rparr> else s4)))))))"

definition push_back :: "addr \<Rightarrow> 't \<Rightarrow> 'e \<Rightarrow> ('t, 'e) tlist \<Rightarrow> ('t, 'e) tlist result" where
  "push_back a d e s = push_one a (iter_end s) d e s"

definition push_front :: "addr \<Rightarrow> 't \<Rightarrow> 'e \<Rightarrow> ('t, 'e) tlist \<Rightarrow> ('t, 'e) tlist result" where
  "push_front a d e s = push_one a (iter_begin s) d e s"

section \<open>Removal\<close>

definition pop_one :: "iterator \<Rightarrow> ('t, 'e) tlist \<Rightarrow> ('t, 'e) tlist result" where
  "pop_one which s =
     (if head s = None then Inl (Invalid_Argument ''nothing to pop.'')
      else if ptr which = None then Inl (Invalid_Argument ''you may not pop end().'')
      else
        bind_result (read_node s (ptr which)) (\<lambda>nd.
        let left = prev nd; right = nxt nd in
        bind_result (write_if s left (nxt_update (\<lambda>_. right))) (\<lambda>s1.
        bind_result (write_if s1 right (prev_update (\<lambda>_. left))) (\<lambda>s2.
        let s3 = (if head s2 = ptr which then s2\<lparr>head := right\<rparr> else s2);
            s4 = (if tail s3 = ptr which then s3\<lparr>tail := left\<rparr> else s3)
        in delete_node (s4\<lparr>m_size := m_size s4 - 1\<rparr>) (ptr which)))))"

definition pop_front :: "('t, 'e) tlist \<Rightarrow> ('t, 'e) tlist result" where
  "pop_front s = pop_one (iter_begin s) s"

definition pop_back :: "('t, 'e) tlist \<Rightarrow> ('t, 'e) tlist result" where
  "pop_back s = bind_result (iter_dec s (iter_end s)) (\<lambda>it. pop_one it s)"

text \<open>
  The two loops of the class. Nothing in them bounds the number of turns (a \<open>to\<close> the walk never
  meets is only stopped by the dereference it ends in), so not returning is \<open>None\<close>.
\<close>

partial_function (option) pop_some ::
  "iterator \<Rightarrow> iterator \<Rightarrow> ('t, 'e) tlist \<Rightarrow> ('t, 'e) tlist result option" where
  "pop_some iter to s =
     (if iter_neq iter to then
        (case iter_post_inc s iter of
           Inl e \<Rightarrow> Some (Inl e)
         | Inr (to_pop, iter') \<Rightarrow>
             (case pop_one to_pop s of
                Inl e \<Rightarrow> Some (Inl e)
              | Inr s' \<Rightarrow> pop_some iter' to s'))
      else Some (Inr s))"

partial_function (option) destroy_from ::
  "iterator \<Rightarrow> ('t, 'e) tlist \<Rightarrow> ('t, 'e) tlist result option" where
  "destroy_from iter s =
     (if iter_neq iter (iter_end s) then
        (case iter_post_inc s iter of
           Inl e \<Rightarrow> Some (Inl e)
         | Inr (to_release, iter') \<Rightarrow>
             (case delete_node s (ptr to_release) of
                Inl e \<Rightarrow> Some (Inl e)
              | Inr s' \<Rightarrow> destroy_from iter' s'))
      else Some (Inr s))"

definition destroy :: "('t, 'e) tlist \<Rightarrow> ('t, 'e) tlist result option" where
  "destroy s = destroy_from (iter_begin s) s"

definition tlist_size :: "('t, 'e) tlist \<Rightarrow> 64 word" where
  "tlist_size s = m_size s"

section \<open>The list a heap holds\<close>

text \<open>
  \<open>chain c p l n\<close>: the cells of \<open>l\<close>, given as (address, data, extra information), are linked in
  this order in both directions, between the neighbours \<open>p\<close> and \<open>n\<close>. \<open>rep s l\<close> adds the ends, the
  size, and that no cell is live outside the list: nothing leaks.
\<close>

type_synonym ('t, 'e) entry = "addr \<times> 't \<times> 'e"

abbreviation addrs :: "('t, 'e) entry list \<Rightarrow> addr list" where
  "addrs l \<equiv> map fst l"

fun chain :: "('t, 'e) heap \<Rightarrow> addr option \<Rightarrow> ('t, 'e) entry list \<Rightarrow> addr option \<Rightarrow> bool" where
  "chain c p [] n = True"
| "chain c p ((a, d, e) # l) n =
     (c a = Some \<lparr>data = d, prev = p, nxt = first_or n (addrs l), extra_info = e, magic = node_magic\<rparr>
      \<and> chain c (Some a) l n)"

definition rep :: "('t, 'e) tlist \<Rightarrow> ('t, 'e) entry list \<Rightarrow> bool" where
  "rep s l \<longleftrightarrow>
     chain (cells s) None l None \<and> distinct (addrs l) \<and>
     head s = first_or None (addrs l) \<and> tail s = last_or None (addrs l) \<and>
     m_size s = of_nat (length l) \<and> dom (cells s) = set (addrs l)"

named_theorems links \<open>how the writes of a link act on a chain\<close>

definition set_nxt :: "('t, 'e) heap \<Rightarrow> addr option \<Rightarrow> addr option \<Rightarrow> ('t, 'e) heap" where
  "set_nxt c p v =
     (case p of None \<Rightarrow> c | Some a \<Rightarrow> c(a := map_option (nxt_update (\<lambda>_. v)) (c a)))"

definition set_prev :: "('t, 'e) heap \<Rightarrow> addr option \<Rightarrow> addr option \<Rightarrow> ('t, 'e) heap" where
  "set_prev c p v =
     (case p of None \<Rightarrow> c | Some a \<Rightarrow> c(a := map_option (prev_update (\<lambda>_. v)) (c a)))"

lemma set_link_simps [simp]:
  "set_nxt c None v = c"
  "set_nxt c (Some a) v = c(a := map_option (nxt_update (\<lambda>_. v)) (c a))"
  "set_prev c None v = c"
  "set_prev c (Some a) v = c(a := map_option (prev_update (\<lambda>_. v)) (c a))"
  by (simp_all add: set_nxt_def set_prev_def)

lemma dom_upd_map: "dom (c(a := map_option f (c a))) = dom c"
proof (cases "c a")
  case None
  then show ?thesis by (simp add: fun_upd_idem)
next
  case (Some x)
  then show ?thesis by (simp add: insert_absorb domI)
qed

lemma dom_set_link [simp]:
  "dom (set_nxt c p v) = dom c" "dom (set_prev c p v) = dom c"
  by (simp_all only: set_nxt_def set_prev_def dom_upd_map split: option.splits) simp_all

lemma set_link_other:
  "p \<noteq> Some a \<Longrightarrow> set_nxt c p v a = c a"
  "p \<noteq> Some a \<Longrightarrow> set_prev c p v a = c a"
  by (cases p; simp)+

lemma chain_append [simp]:
  "chain c p (l @ k) n \<longleftrightarrow>
     chain c p l (first_or n (addrs k)) \<and> chain c (last_or p (addrs l)) k n"
proof (induction l arbitrary: p)
  case (Cons x l)
  obtain a d e where "x = (a, d, e)" by (cases x)
  with Cons.IH show ?case by simp
qed simp

lemma chain_cong:
  "(\<And>a. a \<in> set (addrs l) \<Longrightarrow> c' a = c a) \<Longrightarrow> chain c' p l n = chain c p l n"
proof (induction l arbitrary: p)
  case (Cons x l)
  obtain a d e where "x = (a, d, e)" by (cases x)
  with Cons show ?case by simp
qed simp

lemma chain_upd [links]:
  "a \<notin> set (addrs l) \<Longrightarrow> chain (c(a := v)) p l n = chain c p l n"
  by (rule chain_cong) auto

lemma chain_set_nxt_other [links]:
  "(\<And>a. q = Some a \<Longrightarrow> a \<notin> set (addrs l)) \<Longrightarrow> chain (set_nxt c q v) p l n = chain c p l n"
  by (rule chain_cong) (metis set_link_other(1))

lemma chain_set_prev_other [links]:
  "(\<And>a. q = Some a \<Longrightarrow> a \<notin> set (addrs l)) \<Longrightarrow> chain (set_prev c q v) p l n = chain c p l n"
  by (rule chain_cong) (metis set_link_other(2))

lemma chain_set_nxt_last [links]:
  "chain c p l n \<Longrightarrow> distinct (addrs l) \<Longrightarrow> chain (set_nxt c (last_or None (addrs l)) v) p l v"
proof (induction l arbitrary: p rule: rev_induct)
  case Nil
  then show ?case by simp
next
  case (snoc x l)
  obtain a d e where x: "x = (a, d, e)" by (cases x)
  from snoc.prems x have "a \<notin> set (addrs l)" by simp
  with snoc.prems x show ?case by (simp add: chain_upd del: fun_upd_apply) simp
qed

lemma chain_set_prev_first [links]:
  "chain c p l n \<Longrightarrow> distinct (addrs l) \<Longrightarrow> chain (set_prev c (first_or None (addrs l)) v) v l n"
proof (cases l)
  case (Cons x k)
  moreover obtain a d e where "x = (a, d, e)" by (cases x)
  moreover assume "chain c p l n" "distinct (addrs l)"
  ultimately show ?thesis by (simp add: chain_upd del: fun_upd_apply) simp
qed simp

lemma chain_cell:
  "chain c p (l @ (a, d, e) # k) n \<Longrightarrow>
   c a = Some \<lparr>data = d, prev = last_or p (addrs l), nxt = first_or n (addrs k),
              extra_info = e, magic = node_magic\<rparr>"
  by simp

lemma chain_cell_of:
  "chain c p l n \<Longrightarrow> (a, d, e) \<in> set l \<Longrightarrow>
   \<exists>q m. c a = Some \<lparr>data = d, prev = q, nxt = m, extra_info = e, magic = node_magic\<rparr>"
proof (induction l arbitrary: p)
  case (Cons x l)
  obtain b f g where "x = (b, f, g)" by (cases x)
  with Cons show ?case by fastforce
qed simp

section \<open>Operations on a represented list\<close>

lemma read_node_simps [simp]:
  "read_node s None = Inl (Undefined Null_Dereference)"
  "cells s a = Some nd \<Longrightarrow> read_node s (Some a) = Inr nd"
  "cells s a = None \<Longrightarrow> read_node s (Some a) = Inl (Undefined Dangling_Pointer)"
  by (simp_all add: read_node_def)

lemma write_node_live [simp]:
  "cells s a = Some nd \<Longrightarrow> write_node s (Some a) f = Inr (s\<lparr>cells := (cells s)(a \<mapsto> f nd)\<rparr>)"
  by (simp add: write_node_def)

lemma delete_node_live [simp]:
  "cells s a = Some nd \<Longrightarrow> delete_node s (Some a) = Inr (s\<lparr>cells := (cells s)(a := None)\<rparr>)"
  by (simp add: delete_node_def)

lemma write_if_link:
  assumes "\<And>a. p = Some a \<Longrightarrow> a \<in> dom (cells s)"
  shows "write_if s p (nxt_update (\<lambda>_. v)) = Inr (s\<lparr>cells := set_nxt (cells s) p v\<rparr>)"
    and "write_if s p (prev_update (\<lambda>_. v)) = Inr (s\<lparr>cells := set_prev (cells s) p v\<rparr>)"
proof -
  consider "p = None" | a nd where "p = Some a" "cells s a = Some nd"
    using assms by (cases p) auto
  then show "write_if s p (nxt_update (\<lambda>_. v)) = Inr (s\<lparr>cells := set_nxt (cells s) p v\<rparr>)"
    and "write_if s p (prev_update (\<lambda>_. v)) = Inr (s\<lparr>cells := set_prev (cells s) p v\<rparr>)"
    by (cases; simp add: write_if_def)+
qed

lemma rep_head: "rep s l \<Longrightarrow> head s = first_or None (addrs l)"
  and rep_tail: "rep s l \<Longrightarrow> tail s = last_or None (addrs l)"
  and rep_distinct: "rep s l \<Longrightarrow> distinct (addrs l)"
  and rep_dom: "rep s l \<Longrightarrow> dom (cells s) = set (addrs l)"
  and rep_size: "rep s l \<Longrightarrow> m_size s = of_nat (length l)"
  and rep_chain: "rep s l \<Longrightarrow> chain (cells s) None l None"
  by (simp_all add: rep_def)

lemma rep_cell:
  assumes "rep s (l @ (a, d, e) # k)"
  shows "cells s a = Some \<lparr>data = d, prev = last_or None (addrs l), nxt = first_or None (addrs k),
                           extra_info = e, magic = node_magic\<rparr>"
  using rep_chain [OF assms] by (rule chain_cell)

lemma rep_entry:
  assumes "rep s l" "(a, d, e) \<in> set l"
  shows "\<exists>q m. cells s a = Some \<lparr>data = d, prev = q, nxt = m, extra_info = e, magic = node_magic\<rparr>"
  using chain_cell_of [OF rep_chain [OF assms(1)] assms(2)] .

lemma rep_free: "rep s l \<Longrightarrow> a \<notin> set (addrs l) \<Longrightarrow> cells s a = None"
  using rep_dom by (metis domI not_None_eq)

lemma rep_empty_list: "rep empty_list []"
  by (simp add: rep_def empty_list_def)

lemma rep_unique_entry:
  "rep s l \<Longrightarrow> (a, d, e) \<in> set l \<Longrightarrow> (a, d', e') \<in> set l \<Longrightarrow> d' = d \<and> e' = e"
  by (metis Pair_inject eq_key_imp_eq_value rep_distinct)

lemma pop_one_rep:
  assumes r: "rep s (l @ (a, d, e) # k)" and w: "ptr w = Some a"
  shows "\<exists>s'. pop_one w s = Inr s' \<and> rep s' (l @ k)"
proof -
  let ?L = "last_or None (addrs l)" and ?R = "first_or None (addrs k)"
  define c1 where "c1 = set_nxt (cells s) ?L ?R"
  define c2 where "c2 = set_prev c1 ?R ?L"
  note cs = c1_def c2_def
  have d: "a \<notin> set (addrs l)" "a \<notin> set (addrs k)" "distinct (addrs l)" "distinct (addrs k)"
    "set (addrs l) \<inter> set (addrs k) = {}"
    using rep_distinct [OF r] by auto
  have L: "x \<in> set (addrs l)" if "?L = Some x" for x
    using that by (rule last_or_None_in_set)
  have R: "x \<in> set (addrs k)" if "?R = Some x" for x
    using that by (rule first_or_in_set)
  have ch: "chain (cells s) None l (Some a)" "chain (cells s) (Some a) k None"
    using rep_chain [OF r] by simp_all
  have c2_chain: "chain (c2(a := None)) None (l @ k) None"
  proof -
    have "chain c1 None l ?R"
      unfolding cs by (rule chain_set_nxt_last [OF ch(1) d(3)])
    then have "chain c2 None l ?R"
      unfolding c2_def using R d(5) by (subst chain_set_prev_other) auto
    moreover have "chain c1 (Some a) k None"
      unfolding cs using ch(2) L d(5) by (subst chain_set_nxt_other) auto
    then have "chain c2 ?L k None"
      unfolding c2_def by (rule chain_set_prev_first [OF _ d(4)])
    ultimately show ?thesis using d(1,2) by (simp add: chain_upd)
  qed
  let ?nd = "\<lparr>data = d, prev = ?L, nxt = ?R, extra_info = e, magic = node_magic\<rparr>"
  have cell: "cells s a = Some ?nd" by (rule rep_cell [OF r])
  have live: "x \<in> dom (cells s)" if "?L = Some x \<or> ?R = Some x" for x
    using that L R rep_dom [OF r] by auto
  have cell2: "\<exists>nd. c2 a = Some nd"
  proof -
    have "a \<in> dom c2" using cell by (auto simp: cs)
    then show ?thesis by blast
  qed
  have head_a: "head s = Some a \<longleftrightarrow> l = []"
    using d(1) rep_head [OF r] by (cases l) auto
  have tail_a: "tail s = Some a \<longleftrightarrow> k = []"
    using d(2) rep_tail [OF r] by (cases "k = []") (auto dest: last_or_in_set)
  have nonempty: "head s \<noteq> None"
    using rep_head [OF r] by (simp del: not_None_eq)
  have new_head: "first_or None (addrs (l @ k)) = (if l = [] then ?R else head s)"
    using rep_head [OF r] by (cases l) simp_all
  have new_tail: "last_or None (addrs (l @ k)) = (if k = [] then ?L else tail s)"
    using rep_tail [OF r] by (cases k) simp_all
  define s' where "s' = s\<lparr>cells := c2(a := None), head := first_or None (addrs (l @ k)),
    tail := last_or None (addrs (l @ k)), m_size := m_size s - 1\<rparr>"
  have "pop_one w s = Inr s'"
  proof -
    obtain nd where nd: "c2 a = Some nd" using cell2 by blast
    have "write_if s ?L (nxt_update (\<lambda>_. ?R)) = Inr (s\<lparr>cells := c1\<rparr>)"
      unfolding c1_def using live by (intro write_if_link) auto
    moreover have "write_if (s\<lparr>cells := c1\<rparr>) ?R (prev_update (\<lambda>_. ?L)) = Inr (s\<lparr>cells := c2\<rparr>)"
      unfolding c2_def using live by (subst write_if_link) (auto simp: c1_def)
    ultimately show ?thesis
      using head_a tail_a nonempty nd
      by (simp add: pop_one_def w cell s'_def new_head new_tail Let_def
          del: fun_upd_apply not_None_eq map_append)
  qed
  moreover have "rep s' (l @ k)"
    unfolding rep_def
  proof (intro conjI)
    show "dom (cells s') = set (addrs (l @ k))"
      using rep_dom [OF r] d(1,2) by (auto simp: s'_def cs)
    show "m_size s' = of_nat (length (l @ k))"
      using rep_size [OF r] by (simp add: s'_def)
  qed (use c2_chain d in \<open>simp_all add: s'_def\<close>)
  ultimately show ?thesis by blast
qed

lemma push_one_end_rep:
  assumes r: "rep s l" and w: "ptr w = None" and fresh: "a \<notin> set (addrs l)"
  shows "\<exists>s'. push_one a w d e s = Inr s' \<and> rep s' (l @ [(a, d, e)])"
proof (cases "l = []")
  case True
  with r have s: "head s = None" "m_size s = 0" "cells s = (\<lambda>_. None)"
    by (simp_all add: rep_def dom_eq_empty_conv)
  show ?thesis
    by (simp add: True push_one_def rep_def s w)
next
  case False
  let ?nd = "\<lparr>data = d, prev = None, nxt = None, extra_info = e, magic = node_magic\<rparr>"
  obtain t where t: "last_or None (addrs l) = Some t" "t \<in> set (addrs l)"
    using False by (cases "last_or None (addrs l)") (auto dest: last_or_None_in_set)
  have live: "\<exists>nd. cells s t = Some nd"
    using t(2) rep_dom [OF r] by blast
  have at: "a \<noteq> t" using t(2) fresh by blast
  define c1 where "c1 = set_nxt (cells s) (Some t) (Some a)"
  define c2 where "c2 = c1(a \<mapsto> ?nd\<lparr>prev := Some t\<rparr>)"
  define s' where "s' = s\<lparr>cells := c2, tail := Some a, m_size := m_size s + 1\<rparr>"
  have nonempty: "head s \<noteq> None"
    using False rep_head [OF r] by simp
  have "push_one a w d e s = Inr s'"
  proof -
    obtain nd where "cells s t = Some nd" using live by blast
    with at nonempty show ?thesis
      by (simp add: push_one_def s'_def c2_def c1_def Let_def w t(1) rep_tail [OF r]
          fun_upd_twist [OF at] del: not_None_eq)
  qed
  moreover have "rep s' (l @ [(a, d, e)])"
  proof -
    have "chain c1 None l (Some a)"
      unfolding c1_def t(1) [symmetric]
      by (rule chain_set_nxt_last [OF rep_chain [OF r] rep_distinct [OF r]])
    then have "chain c2 None (l @ [(a, d, e)]) None"
      using fresh t(1) by (simp add: chain_upd c2_def del: fun_upd_apply) simp
    moreover have "dom c2 = set (addrs (l @ [(a, d, e)]))"
      using rep_dom [OF r] t(2) live by (auto simp: c2_def c1_def)
    moreover have "head s = first_or None (addrs (l @ [(a, d, e)]))"
      using rep_head [OF r] False by (cases l) simp_all
    ultimately show ?thesis
      using rep_distinct [OF r] rep_size [OF r] fresh by (simp add: rep_def s'_def)
  qed
  ultimately show ?thesis by blast
qed

lemma push_one_before_rep:
  assumes r: "rep s (l @ (b, x, y) # k)" and w: "ptr w = Some b"
    and fresh: "a \<notin> set (addrs (l @ (b, x, y) # k))"
  shows "\<exists>s'. push_one a w d e s = Inr s' \<and> rep s' (l @ (a, d, e) # (b, x, y) # k)"
proof -
  define L where "L = last_or None (addrs l)"
  let ?nd = "\<lparr>data = d, prev = L, nxt = Some b, extra_info = e, magic = node_magic\<rparr>"
  define c1 where "c1 = set_nxt ((cells s)(a \<mapsto> ?nd)) L (Some a)"
  define c2 where "c2 = set_prev c1 (Some b) (Some a)"
  define s' where "s' = s\<lparr>cells := c2, m_size := m_size s + 1,
     head := first_or None (addrs (l @ (a, d, e) # (b, x, y) # k))\<rparr>"
  note dist = rep_distinct [OF r]
  have L: "z \<in> set (addrs l) \<and> z \<noteq> a \<and> z \<noteq> b \<and> z \<in> dom (cells s)" if "L = Some z" for z
    using last_or_None_in_set [OF that [unfolded L_def]] fresh dist rep_dom [OF r] by auto
  have ab: "a \<noteq> b" "a \<notin> set (addrs l)" "a \<notin> set (addrs k)" using fresh by auto
  have Lne: "L \<noteq> Some a" "L \<noteq> Some b" using L by blast+
  note cb = rep_cell [OF r, folded L_def]
  have head_b: "head s = Some b \<longleftrightarrow> l = []"
    using dist rep_head [OF r] by (cases l) auto
  have new_head: "first_or None (addrs (l @ (a, d, e) # (b, x, y) # k)) = (if l = [] then Some a else head s)"
    using rep_head [OF r] by (cases l) simp_all
  have nonempty: "head s \<noteq> None" using rep_head [OF r] by (simp del: not_None_eq)
  have cb1: "\<exists>nd. c1 b = Some nd"
    using cb ab Lne by (simp add: c1_def set_link_other)
  have "push_one a w d e s = Inr s'"
  proof -
    have "write_if (s\<lparr>m_size := m_size s + 1, cells := (cells s)(a \<mapsto> ?nd)\<rparr>) L (nxt_update (\<lambda>_. Some a))
        = Inr (s\<lparr>m_size := m_size s + 1, cells := c1\<rparr>)"
      unfolding c1_def using L by (subst write_if_link) auto
    moreover obtain nd where "c1 b = Some nd" using cb1 by blast
    ultimately show ?thesis
      using ab nonempty head_b
      by (simp add: push_one_def Let_def s'_def c2_def w cb new_head del: not_None_eq map_append)
  qed
  moreover have "rep s' (l @ (a, d, e) # (b, x, y) # k)"
  proof -
    have ch: "chain (cells s) None l (Some b)" "chain (cells s) (Some b) k None"
      using rep_chain [OF r] by simp_all
    have 1: "chain c2 None l (Some a)"
    proof -
      have "chain ((cells s)(a \<mapsto> ?nd)) None l (Some b)"
        using ch(1) ab by (simp add: chain_upd del: fun_upd_apply)
      then have "chain c1 None l (Some a)"
        unfolding c1_def L_def using dist by (intro chain_set_nxt_last) auto
      then show ?thesis
        unfolding c2_def using dist by (subst chain_set_prev_other) auto
    qed
    have 2: "chain c2 (Some b) k None"
    proof -
      have "chain ((cells s)(a \<mapsto> ?nd)) (Some b) k None"
        using ch(2) ab by (simp add: chain_upd del: fun_upd_apply)
      then have "chain c1 (Some b) k None"
        unfolding c1_def using dist L by (subst chain_set_nxt_other) auto
      then show ?thesis
        unfolding c2_def using dist by (subst chain_set_prev_other) auto
    qed
    have 3: "c2 a = Some ?nd"
      using ab Lne by (simp add: c2_def c1_def set_link_other)
    have 4: "c2 b = Some \<lparr>data = x, prev = Some a, nxt = first_or None (addrs k),
        extra_info = y, magic = node_magic\<rparr>"
      using ab Lne cb by (simp add: c2_def c1_def set_link_other)
    have "chain c2 None (l @ (a, d, e) # (b, x, y) # k) None"
      using 1 2 3 4 by (simp add: L_def)
    moreover have "dom c2 = set (addrs (l @ (a, d, e) # (b, x, y) # k))"
      using rep_dom [OF r] by (simp add: c2_def c1_def dom_upd_map del: set_link_simps(4))
    moreover have "tail s = last_or None (addrs (l @ (a, d, e) # (b, x, y) # k))"
      using rep_tail [OF r] by simp
    ultimately show ?thesis
      using dist rep_size [OF r] fresh by (simp add: rep_def s'_def)
  qed
  ultimately show ?thesis by blast
qed

lemma push_one_rep:
  assumes "rep s (l @ k)" and "ptr w = first_or None (addrs k)" and "a \<notin> set (addrs (l @ k))"
  shows "\<exists>s'. push_one a w d e s = Inr s' \<and> rep s' (l @ (a, d, e) # k)"
proof (cases k)
  case Nil
  with assms show ?thesis using push_one_end_rep [of s l w a d e] by simp
next
  case (Cons x m)
  obtain b y z where "x = (b, y, z)" by (cases x)
  with Cons assms show ?thesis using push_one_before_rep [of s l b y z m w a d e] by simp
qed

lemma push_back_rep:
  "rep s l \<Longrightarrow> a \<notin> set (addrs l) \<Longrightarrow> \<exists>s'. push_back a d e s = Inr s' \<and> rep s' (l @ [(a, d, e)])"
  unfolding push_back_def by (rule push_one_end_rep) (simp_all add: iter_end_def)

lemma push_front_rep:
  "rep s l \<Longrightarrow> a \<notin> set (addrs l) \<Longrightarrow> \<exists>s'. push_front a d e s = Inr s' \<and> rep s' ((a, d, e) # l)"
  unfolding push_front_def using push_one_rep [of s "[]" l "iter_begin s" a d e]
  by (simp add: iter_begin_def rep_head)

lemma iter_inc_rep:
  assumes "rep s (l @ (a, d, e) # k)" and "ptr it = Some a"
  shows "iter_inc s it = Inr (it\<lparr>ptr := first_or None (addrs k)\<rparr>)"
  using assms(2) by (simp add: iter_inc_def rep_cell [OF assms(1)])

lemma iter_dec_rep:
  assumes "rep s (l @ (a, d, e) # k)" and "ptr it = Some a"
  shows "iter_dec s it = Inr (it\<lparr>ptr := last_or None (addrs l)\<rparr>)"
  using assms(2) by (simp add: iter_dec_def rep_cell [OF assms(1)])

lemma iter_dec_end_rep:
  assumes "rep s (l @ [(a, d, e)])"
  shows "iter_dec s (iter_end s) = Inr \<lparr>ptr = Some a, impl_tail = Some a\<rparr>"
  by (simp add: iter_dec_def iter_end_def rep_tail [OF assms])

lemma iter_dec_end_empty:
  assumes "rep s []"
  shows "iter_dec s (iter_end s) = Inl (Undefined Null_Dereference)"
  by (simp add: iter_dec_def iter_end_def rep_tail [OF assms])

lemma iter_of_data_live:
  "rep s l \<Longrightarrow> a \<in> set (addrs l) \<Longrightarrow> iter_of_data s (Some a) = Inr \<lparr>ptr = Some a, impl_tail = None\<rparr>"
  by (auto simp: iter_of_data_def dest: rep_entry)

lemma iter_of_data_dead:
  "rep s l \<Longrightarrow> a \<notin> set (addrs l) \<Longrightarrow> iter_of_data s (Some a) = Inl (Undefined Dangling_Pointer)"
  by (simp add: iter_of_data_def rep_free)

lemma iter_data_ptr_live:
  "rep s l \<Longrightarrow> ptr it = Some a \<Longrightarrow> a \<in> set (addrs l) \<Longrightarrow> iter_data_ptr s it = Inr a"
  by (auto simp: iter_data_ptr_def dest: rep_entry)

lemma chain_set_info:
  "chain c p (l @ (a, d, e) # k) n \<Longrightarrow> distinct (addrs (l @ (a, d, e) # k)) \<Longrightarrow>
   chain (c(a := map_option (extra_info_update (\<lambda>_. e')) (c a))) p (l @ (a, d, e') # k) n"
  by (simp add: chain_upd del: fun_upd_apply) simp

lemma set_extra_info_rep:
  assumes r: "rep s (l @ (a, d, e) # k)" and w: "ptr it = Some a"
  shows "\<exists>s'. set_extra_info s it e' = Inr s' \<and> rep s' (l @ (a, d, e') # k)"
proof -
  define s' where
    "s' = s\<lparr>cells := (cells s)(a := map_option (extra_info_update (\<lambda>_. e')) (cells s a))\<rparr>"
  have "set_extra_info s it e' = Inr s'"
    by (simp add: set_extra_info_def w rep_cell [OF r] s'_def)
  moreover have "rep s' (l @ (a, d, e') # k)"
    unfolding rep_def
  proof (intro conjI)
    show "chain (cells s') None (l @ (a, d, e') # k) None"
      unfolding s'_def using chain_set_info [OF rep_chain [OF r] rep_distinct [OF r]]
      by (simp del: chain_append)
    show "dom (cells s') = set (addrs (l @ (a, d, e') # k))"
      using rep_dom [OF r] by (simp add: s'_def dom_upd_map del: dom_fun_upd)
  qed (use r in \<open>simp_all add: s'_def rep_def\<close>)
  ultimately show ?thesis by blast
qed

lemma pop_front_rep:
  assumes "rep s ((a, d, e) # k)"
  shows "\<exists>s'. pop_front s = Inr s' \<and> rep s' k"
  using pop_one_rep [of s "[]" a d e k "iter_begin s"] assms
  by (simp add: pop_front_def iter_begin_def rep_head)

lemma pop_back_rep:
  assumes "rep s (l @ [(a, d, e)])"
  shows "\<exists>s'. pop_back s = Inr s' \<and> rep s' l"
  using pop_one_rep [of s l a d e "[]" "\<lparr>ptr = Some a, impl_tail = Some a\<rparr>"] assms
  by (simp add: pop_back_def iter_dec_end_rep)

lemma pop_some_rep:
  assumes "rep s (l @ m @ k)" and "ptr it = first_or None (addrs (m @ k))"
    and "ptr to = first_or None (addrs k)"
  shows "\<exists>s'. pop_some it to s = Some (Inr s') \<and> rep s' (l @ k)"
  using assms
proof (induction m arbitrary: s it)
  case Nil
  then show ?case by (simp add: pop_some.simps iter_compare)
next
  case (Cons x m)
  obtain a d e where x: "x = (a, d, e)" by (cases x)
  have r: "rep s (l @ (a, d, e) # m @ k)" using Cons.prems(1) x by simp
  have p: "ptr it = Some a" using Cons.prems(2) x by simp
  have "a \<notin> set (addrs k)" using rep_distinct [OF r] by simp
  then have ne: "iter_neq it to"
    using p Cons.prems(3) by (cases k) (auto simp: iter_compare)
  obtain s1 where s1: "pop_one \<lparr>ptr = Some a, impl_tail = None\<rparr> s = Inr s1" "rep s1 (l @ m @ k)"
    using pop_one_rep [OF r, of "\<lparr>ptr = Some a, impl_tail = None\<rparr>"] by auto
  have "pop_some it to s = pop_some (it\<lparr>ptr := first_or None (addrs (m @ k))\<rparr>) to s1"
    using ne by (subst pop_some.simps) (simp add: iter_post_inc_def iter_inc_rep [OF r p] p s1(1))
  then show ?case using Cons.IH [OF s1(2)] Cons.prems(3) by simp
qed

lemma destroy_from_chain:
  assumes "chain (cells s) p k None" and "distinct (addrs k)" and "dom (cells s) = set (addrs k)"
    and "ptr it = first_or None (addrs k)"
  shows "destroy_from it s = Some (Inr (s\<lparr>cells := (\<lambda>_. None)\<rparr>))"
  using assms
proof (induction k arbitrary: s it p)
  case Nil
  then show ?case by (simp add: destroy_from.simps iter_compare iter_end_def)
next
  case (Cons x k)
  obtain a d e where x: "x = (a, d, e)" by (cases x)
  let ?s1 = "s\<lparr>cells := (cells s)(a := None)\<rparr>"
  have cell: "cells s a = Some \<lparr>data = d, prev = p, nxt = first_or None (addrs k),
      extra_info = e, magic = node_magic\<rparr>" and p: "ptr it = Some a" and a: "a \<notin> set (addrs k)"
    using Cons.prems x by simp_all
  have "destroy_from it s = destroy_from (it\<lparr>ptr := first_or None (addrs k)\<rparr>) ?s1"
    by (subst destroy_from.simps)
       (simp add: iter_compare iter_end_def p iter_post_inc_def iter_inc_def cell)
  also have "\<dots> = Some (Inr (?s1\<lparr>cells := (\<lambda>_. None)\<rparr>))"
  proof (rule Cons.IH)
    show "chain (cells ?s1) (Some a) k None"
      using Cons.prems(1) x a by (simp add: chain_upd del: fun_upd_apply)
    show "dom (cells ?s1) = set (addrs k)"
      using Cons.prems(3) x a by auto
  qed (use Cons.prems in simp_all)
  finally show ?case by simp
qed

lemma destroy_rep:
  assumes "rep s l"
  shows "destroy s = Some (Inr (s\<lparr>cells := (\<lambda>_. None)\<rparr>))"
  unfolding destroy_def using assms
  by (intro destroy_from_chain [of _ None l]) (simp_all add: rep_def iter_begin_def)

section \<open>The contract the object pools rely on\<close>

text \<open>
  The pools use the list through four expressions: \<open>push_back\<close>, \<open>&*--buffer.end()\<close> for the object
  just pushed, \<open>iterator(which).get_extra_info() = flag\<close> for an object given by its pointer, and
  \<open>size()\<close>. The locale states what the pools rely on; its lemmas are what the pools use.
\<close>

definition newest_object :: "('t, 'e) tlist \<Rightarrow> addr result" where
  "newest_object b = bind_result (iter_dec b (iter_end b)) (iter_data_ptr b)"

definition mark_object :: "('t, 'e) tlist \<Rightarrow> addr \<Rightarrow> 'e \<Rightarrow> ('t, 'e) tlist result" where
  "mark_object b which e =
     bind_result (iter_of_data b (Some which)) (\<lambda>elem_iter. set_extra_info b elem_iter e)"

definition remark :: "addr \<Rightarrow> 'e \<Rightarrow> ('t, 'e) entry list \<Rightarrow> ('t, 'e) entry list" where
  "remark a e l = map (\<lambda>(b, d, f). (b, d, if b = a then e else f)) l"

lemma addrs_remark [simp]: "addrs (remark a e l) = addrs l"
  by (induction l) (auto simp: remark_def)

lemma length_remark [simp]: "length (remark a e l) = length l"
  by (simp add: remark_def)

lemma remark_absent: "a \<notin> set (addrs l) \<Longrightarrow> remark a e l = l"
  by (induction l) (auto simp: remark_def)

lemma remark_middle:
  "distinct (addrs (l @ (a, d, f) # k)) \<Longrightarrow> remark a e (l @ (a, d, f) # k) = l @ (a, d, e) # k"
  using remark_absent [of a l e] remark_absent [of a k e] by (simp add: remark_def)

lemma entry_split: "a \<in> set (addrs l) \<Longrightarrow> \<exists>m d e k. l = m @ (a, d, e) # k"
  by (auto dest!: split_list) blast

locale object_buffer =
  fixes holds :: "'b \<Rightarrow> ('t, 'e) entry list \<Rightarrow> bool"
    and add :: "addr \<Rightarrow> 't \<Rightarrow> 'e \<Rightarrow> 'b \<Rightarrow> 'b result"
    and newest :: "'b \<Rightarrow> addr result"
    and mark :: "'b \<Rightarrow> addr \<Rightarrow> 'e \<Rightarrow> 'b result"
    and count :: "'b \<Rightarrow> nat"
  assumes holds_distinct: "holds b l \<Longrightarrow> distinct (addrs l)"
    and add_last: "holds b l \<Longrightarrow> a \<notin> set (addrs l) \<Longrightarrow>
      \<exists>b'. add a d e b = Inr b' \<and> holds b' (l @ [(a, d, e)])"
    and newest_last: "holds b (l @ [(a, d, e)]) \<Longrightarrow> newest b = Inr a"
    and mark_entry: "holds b (l @ (a, d, f) # k) \<Longrightarrow>
      \<exists>b'. mark b a e = Inr b' \<and> holds b' (l @ (a, d, e) # k)"
    and count_entries: "holds b l \<Longrightarrow> length l < 2 ^ 64 \<Longrightarrow> count b = length l"
begin

lemma add_newest:
  assumes "holds b l" and "a \<notin> set (addrs l)"
  shows "\<exists>b'. add a d e b = Inr b' \<and> newest b' = Inr a \<and> holds b' (l @ [(a, d, e)])"
  using add_last [OF assms] newest_last by blast

lemma mark_present:
  assumes "holds b l" and "a \<in> set (addrs l)"
  shows "\<exists>b'. mark b a e = Inr b' \<and> holds b' (remark a e l)"
proof -
  obtain m d f k where l: "l = m @ (a, d, f) # k" using entry_split [OF assms(2)] by blast
  have "remark a e l = m @ (a, d, e) # k"
    unfolding l by (rule remark_middle) (use holds_distinct [OF assms(1)] l in simp)
  then show ?thesis using mark_entry assms(1) l by metis
qed

end

lemma newest_object_rep: "rep b (l @ [(a, d, e)]) \<Longrightarrow> newest_object b = Inr a"
  by (simp add: newest_object_def iter_dec_end_rep iter_data_ptr_live)

lemma mark_object_rep:
  assumes "rep b (l @ (a, d, f) # k)"
  shows "\<exists>b'. mark_object b a e = Inr b' \<and> rep b' (l @ (a, d, e) # k)"
  using set_extra_info_rep [OF assms, of "\<lparr>ptr = Some a, impl_tail = None\<rparr>" e]
    iter_of_data_live [OF assms, of a]
  by (simp add: mark_object_def)

lemma tlist_size_rep: "rep b l \<Longrightarrow> length l < 2 ^ 64 \<Longrightarrow> unat (tlist_size b) = length l"
  by (simp add: tlist_size_def rep_size unat_of_nat)

interpretation tl: object_buffer rep push_back newest_object mark_object "\<lambda>b. unat (tlist_size b)"
  by unfold_locales
    (simp_all add: rep_distinct push_back_rep newest_object_rep mark_object_rep tlist_size_rep)

section \<open>Properties\<close>

text \<open>A list of three nodes, for the witnesses.\<close>

definition sample_list :: "(nat, bool) tlist" where
  "sample_list =
     \<lparr>cells = [1 \<mapsto> \<lparr>data = 10, prev = None, nxt = Some 2, extra_info = True, magic = node_magic\<rparr>,
              2 \<mapsto> \<lparr>data = 20, prev = Some 1, nxt = Some 3, extra_info = False, magic = node_magic\<rparr>,
              3 \<mapsto> \<lparr>data = 30, prev = Some 2, nxt = None, extra_info = True, magic = node_magic\<rparr>],
      head = Some 1, tail = Some 3, m_size = 3\<rparr>"

lemma sample_list_rep: "rep sample_list [(1, 10, True), (2, 20, False), (3, 30, True)]"
  by (auto simp: rep_def sample_list_def)

text \<open>
  \<open>push_one\<close> at an iterator to the first element of the suffix \<open>k\<close> (or at \<open>end()\<close>, when \<open>k\<close> is
  empty) links the new node between \<open>l\<close> and \<open>k\<close>, in both directions, updates \<open>head\<close>, \<open>tail\<close> and the
  size, and touches no other entry. It never fails, whatever free address \<open>new\<close> returns.
\<close>

theorem push_one_inserts_at_position:
  assumes "rep s (l @ k)" and "ptr position = first_or None (addrs k)" and "a \<notin> set (addrs (l @ k))"
  shows "\<exists>s'. push_one a position d e s = Inr s' \<and> rep s' (l @ (a, d, e) # k)"
  using assms by (rule push_one_rep)

theorem push_one_inserts_at_position_witness:
  "\<exists>s'. push_one 7 \<lparr>ptr = Some 2, impl_tail = None\<rparr> 15 False sample_list = Inr s' \<and>
     rep s' [(1, 10, True), (7, 15, False), (2, 20, False), (3, 30, True)]"
  using push_one_inserts_at_position [of sample_list "[(1, 10, True)]" "[(2, 20, False), (3, 30, True)]"
      "\<lparr>ptr = Some 2, impl_tail = None\<rparr>" 7 15 False] sample_list_rep by simp

text \<open>
  C17: \<open>pop_one\<close> at an iterator to an element unlinks and deletes exactly that element: its neighbours
  are linked to each other, \<open>head\<close> and \<open>tail\<close> move when it was at an end, and its cell is freed.
\<close>

theorem pop_one_removes_element:
  assumes "rep s (l @ (a, d, e) # k)" and "ptr which = Some a"
  shows "\<exists>s'. pop_one which s = Inr s' \<and> rep s' (l @ k) \<and> cells s' a = None"
proof -
  obtain s' where s': "pop_one which s = Inr s'" "rep s' (l @ k)"
    using pop_one_rep [OF assms] by blast
  moreover have "a \<notin> set (addrs (l @ k))" using rep_distinct [OF assms(1)] by simp
  ultimately show ?thesis using rep_free by blast
qed

theorem pop_one_removes_element_witness:
  "\<exists>s'. pop_one \<lparr>ptr = Some 2, impl_tail = None\<rparr> sample_list = Inr s' \<and>
     rep s' [(1, 10, True), (3, 30, True)] \<and> cells s' 2 = None"
  using pop_one_removes_element [of sample_list "[(1, 10, True)]" 2 20 False "[(3, 30, True)]"
      "\<lparr>ptr = Some 2, impl_tail = None\<rparr>"] sample_list_rep by simp

text \<open>
  The range \<open>pop_some(from, to)\<close> removes every element of the range and nothing else, and the
  loop ends.
\<close>

theorem pop_some_removes_range:
  assumes "rep s (l @ m @ k)" and "ptr from_it = first_or None (addrs (m @ k))"
    and "ptr to_it = first_or None (addrs k)"
  shows "\<exists>s'. pop_some from_it to_it s = Some (Inr s') \<and> rep s' (l @ k)"
  using assms by (rule pop_some_rep)

theorem pop_some_removes_range_witness:
  "\<exists>s'. pop_some \<lparr>ptr = Some 1, impl_tail = None\<rparr> \<lparr>ptr = Some 3, impl_tail = None\<rparr> sample_list
       = Some (Inr s') \<and> rep s' [(3, 30, True)]"
  using pop_some_removes_range [of sample_list "[]" "[(1, 10, True), (2, 20, False)]" "[(3, 30, True)]"
      "\<lparr>ptr = Some 1, impl_tail = None\<rparr>" "\<lparr>ptr = Some 3, impl_tail = None\<rparr>"] sample_list_rep
  by simp

text \<open>
  C30: the destructor ends and deletes every node once: no cell is left, and no link of a deleted node
  is read.
\<close>

theorem destroy_frees_every_node:
  assumes "rep s l"
  shows "\<exists>s'. destroy s = Some (Inr s') \<and> (\<forall>a. cells s' a = None)"
  using destroy_rep [OF assms] by simp

theorem destroy_frees_every_node_witness:
  "\<exists>s'. destroy sample_list = Some (Inr s') \<and> (\<forall>a. cells s' a = None)"
  using destroy_frees_every_node [OF sample_list_rep] .

text \<open>
  On an empty list \<open>pop_front\<close> reports the empty list, but \<open>pop_back\<close> never reaches that check:
  \<open>--end()\<close> of an empty list dereferences a null pointer first.
\<close>

theorem pop_ends_of_empty_list:
  assumes "rep s []"
  shows "pop_front s = Inl (Invalid_Argument ''nothing to pop.'') \<and>
    pop_back s = Inl (Undefined Null_Dereference)"
  using assms by (simp add: pop_front_def pop_one_def pop_back_def iter_dec_end_empty rep_head)

theorem pop_ends_of_empty_list_witness:
  "pop_front (empty_list :: (nat, bool) tlist) = Inl (Invalid_Argument ''nothing to pop.'') \<and>
   pop_back (empty_list :: (nat, bool) tlist) = Inl (Undefined Null_Dereference)"
  using pop_ends_of_empty_list [OF rep_empty_list] .

text \<open>
  An iterator that came from \<open>begin()\<close> or \<open>end()\<close> (it carries the tail) returns to its element
  after \<open>++\<close> and \<open>--\<close>, also across \<open>end()\<close>; one built from a data pointer carries no tail, and
  from the last element the same two steps end in a null dereference.
\<close>

theorem iterator_increment_then_decrement:
  assumes "rep s (l @ (a, d, e) # k)" and "ptr it = Some a"
  shows "bind_result (iter_inc s it) (iter_dec s) =
    (if k = [] \<and> impl_tail it = None then Inl (Undefined Null_Dereference)
     else if k = [] then Inr (it\<lparr>ptr := impl_tail it\<rparr>) else Inr it)"
proof (cases k)
  case Nil
  with assms show ?thesis by (simp add: iter_inc_rep iter_dec_def)
next
  case (Cons x m)
  obtain b y z where x: "x = (b, y, z)" by (cases x)
  have "rep s ((l @ [(a, d, e)]) @ (b, y, z) # m)" using assms(1) Cons x by simp
  from iter_dec_rep [OF this] show ?thesis
    using assms by (simp add: iter_inc_rep Cons x)
qed

theorem iterator_increment_then_decrement_witness:
  "bind_result (iter_inc sample_list \<lparr>ptr = Some 3, impl_tail = Some 3\<rparr>) (iter_dec sample_list)
     = Inr \<lparr>ptr = Some 3, impl_tail = Some 3\<rparr>"
  using iterator_increment_then_decrement [of sample_list "[(1, 10, True), (2, 20, False)]" 3 30 True "[]"
      "\<lparr>ptr = Some 3, impl_tail = Some 3\<rparr>"] sample_list_rep by simp

end
