(* ===== verification/Object_Pool.thy ===== *)
theory Object_Pool
  imports Traceable_List
begin

text \<open>
  The two object pools of lib/pool.hpp, one operation at a time: \<open>fixed_object_pool\<close> for threads and
  \<open>fixed_object_pool_coro\<close> for coroutines. What waiting for a released object does is in the theories
  of the two schedulers, which build on the operations here.

  An object of the pool is made by its constructor and put into a new list node. Both come from
  outside (a connection attempt, the allocator), so an operation that may make an object takes their
  outcome \<open>mk\<close> as an argument: \<open>Inl e\<close> when the constructor throws, \<open>Inr (a, x)\<close> when it makes
  \<open>x\<close> and \<open>new\<close> returns the address \<open>a\<close>. An operation returns its result, or its exception, and the
  pool as it is then.
\<close>

section \<open>State and operations\<close>

record 'o pool =
  buffer :: "('o, bool) tlist"
  free_list :: "addr list"

record 'o thread_pool = "'o pool" +
  new_obj_ready :: bool

type_synonym 'o construction = "(addr \<times> 'o) result"

definition empty_pool :: "'o pool" where
  "empty_pool = \<lparr>buffer = empty_list, free_list = []\<rparr>"

definition empty_thread_pool :: "'o thread_pool" where
  "empty_thread_pool = \<lparr>buffer = empty_list, free_list = [], new_obj_ready = False\<rparr>"

definition new_obj_to_buffer :: "'o construction \<Rightarrow> ('o, bool) tlist \<Rightarrow> ('o, bool) tlist result" where
  "new_obj_to_buffer mk b = bind_result mk (\<lambda>(a, x). push_back a x True b)"

text \<open>
  \<open>do_try_borrow_one\<close> of the coroutine pool. The \<open>goto\<close> after a new object was made is the recursive
  call; it finds the free list nonempty.
\<close>

function coro_do_try_borrow_one ::
  "nat \<Rightarrow> 'o construction \<Rightarrow> ('o, 'z) pool_scheme \<Rightarrow> addr option result \<times> ('o, 'z) pool_scheme" where
  "coro_do_try_borrow_one max_size mk p =
     (case free_list p of
        which # rest \<Rightarrow>
          (let p1 = p\<lparr>free_list := rest\<rparr>
           in case mark_object (buffer p1) which False of
               Inl e \<Rightarrow> (Inl e, p1)
             | Inr b \<Rightarrow> (Inr (Some which), p1\<lparr>buffer := b\<rparr>))
      | [] \<Rightarrow>
          (if unat (tlist_size (buffer p)) < max_size then
             (case new_obj_to_buffer mk (buffer p) of
                Inl e \<Rightarrow> (Inl e, p)
              | Inr b \<Rightarrow>
                  (case newest_object b of
                     Inl e \<Rightarrow> (Inl e, p\<lparr>buffer := b\<rparr>)
                   | Inr a \<Rightarrow>
                       coro_do_try_borrow_one max_size mk
                         (p\<lparr>buffer := b, free_list := free_list p @ [a]\<rparr>)))
           else (Inr None, p)))"
  by pat_completeness auto
termination
  by (relation "measure (\<lambda>(_, _, p). if free_list p = [] then 1 else 0)") auto

text \<open>The same function of the thread pool, which also resets \<open>new_obj_ready\<close> when it lends.\<close>

function do_try_borrow_one ::
  "nat \<Rightarrow> 'o construction \<Rightarrow> 'o thread_pool \<Rightarrow> addr option result \<times> 'o thread_pool" where
  "do_try_borrow_one max_size mk p =
     (case free_list p of
        which # rest \<Rightarrow>
          (let p1 = p\<lparr>free_list := rest\<rparr>
           in case mark_object (buffer p1) which False of
               Inl e \<Rightarrow> (Inl e, p1)
             | Inr b \<Rightarrow> (Inr (Some which), p1\<lparr>buffer := b, new_obj_ready := False\<rparr>))
      | [] \<Rightarrow>
          (if unat (tlist_size (buffer p)) < max_size then
             (case new_obj_to_buffer mk (buffer p) of
                Inl e \<Rightarrow> (Inl e, p)
              | Inr b \<Rightarrow>
                  (case newest_object b of
                     Inl e \<Rightarrow> (Inl e, p\<lparr>buffer := b\<rparr>)
                   | Inr a \<Rightarrow>
                       do_try_borrow_one max_size mk
                         (p\<lparr>buffer := b, free_list := free_list p @ [a]\<rparr>)))
           else (Inr None, p)))"
  by pat_completeness auto
termination
  by (relation "measure (\<lambda>(_, _, p). if free_list p = [] then 1 else 0)") auto

declare coro_do_try_borrow_one.simps [simp del] do_try_borrow_one.simps [simp del]

text \<open>
  \<open>release_one\<close>: the pointer goes to the front of the free list before the iterator checks the magic
  number of its node.
\<close>

definition coro_release_one ::
  "addr \<Rightarrow> ('o, 'z) pool_scheme \<Rightarrow> unit result \<times> ('o, 'z) pool_scheme" where
  "coro_release_one which p =
     (let p1 = p\<lparr>free_list := which # free_list p\<rparr>
      in case mark_object (buffer p1) which True of
          Inl e \<Rightarrow> (Inl e, p1)
        | Inr b \<Rightarrow> (Inr (), p1\<lparr>buffer := b\<rparr>))"

definition release_one :: "addr \<Rightarrow> 'o thread_pool \<Rightarrow> unit result \<times> 'o thread_pool" where
  "release_one which p =
     (let p1 = p\<lparr>free_list := which # free_list p\<rparr>
      in case mark_object (buffer p1) which True of
          Inl e \<Rightarrow> (Inl e, p1)
        | Inr b \<Rightarrow> (Inr (), p1\<lparr>buffer := b, new_obj_ready := True\<rparr>))"

text \<open>
  \<open>fill_full\<close> makes \<open>max_size\<close> objects; \<open>mks i\<close> is the outcome of turn \<open>i\<close> of its loop.
\<close>

function fill_from ::
  "nat \<Rightarrow> (nat \<Rightarrow> 'o construction) \<Rightarrow> nat \<Rightarrow> ('o, 'z) pool_scheme \<Rightarrow>
   unit result \<times> ('o, 'z) pool_scheme" where
  "fill_from max_size mks cter p =
     (if cter < max_size then
        (case new_obj_to_buffer (mks cter) (buffer p) of
           Inl e \<Rightarrow> (Inl e, p)
         | Inr b \<Rightarrow>
             (case newest_object b of
                Inl e \<Rightarrow> (Inl e, p\<lparr>buffer := b\<rparr>)
              | Inr a \<Rightarrow>
                  fill_from max_size mks (Suc cter) (p\<lparr>buffer := b, free_list := free_list p @ [a]\<rparr>)))
      else (Inr (), p))"
  by pat_completeness auto
termination
  by (relation "measure (\<lambda>(n, _, i, _). n - i)") auto

declare fill_from.simps [simp del]

definition fill_full ::
  "nat \<Rightarrow> (nat \<Rightarrow> 'o construction) \<Rightarrow> ('o, 'z) pool_scheme \<Rightarrow> unit result \<times> ('o, 'z) pool_scheme" where
  "fill_full max_size mks p = fill_from max_size mks 0 p"

section \<open>What a pool holds\<close>

text \<open>
  \<open>pool_rep m p l\<close>: the buffer holds the objects \<open>l\<close>, at most \<open>m\<close>, and the free list names, each once,
  exactly those whose flag says free. An object is lent when its node is live and its flag says busy.
\<close>

definition pool_rep :: "nat \<Rightarrow> ('o, 'z) pool_scheme \<Rightarrow> ('o, bool) entry list \<Rightarrow> bool" where
  "pool_rep m p l \<longleftrightarrow>
     rep (buffer p) l \<and> length l \<le> m \<and> distinct (free_list p) \<and>
     set (free_list p) = {a. \<exists>x. (a, x, True) \<in> set l}"

definition pool_ok :: "nat \<Rightarrow> ('o, 'z) pool_scheme \<Rightarrow> bool" where
  "pool_ok m p \<longleftrightarrow> (\<exists>l. pool_rep m p l)"

definition lent :: "('o, 'z) pool_scheme \<Rightarrow> addr set" where
  "lent p = {a. \<exists>nd. cells (buffer p) a = Some nd \<and> \<not> extra_info nd}"

definition objects :: "('o, 'z) pool_scheme \<Rightarrow> addr \<Rightarrow> 'o option" where
  "objects p a = map_option data (cells (buffer p) a)"

definition fresh_for :: "'o construction \<Rightarrow> ('o, 'z) pool_scheme \<Rightarrow> bool" where
  "fresh_for mk p \<longleftrightarrow> (case mk of Inl e \<Rightarrow> True | Inr (a, x) \<Rightarrow> cells (buffer p) a = None)"

lemma rep_cells: "rep s l \<Longrightarrow> cells s a = Some nd \<Longrightarrow> (a, data nd, extra_info nd) \<in> set l"
proof -
  assume r: "rep s l" and c: "cells s a = Some nd"
  then have "a \<in> set (addrs l)" using rep_dom by blast
  then obtain d e where m: "(a, d, e) \<in> set l" by auto
  from rep_entry [OF r m] c m show ?thesis by auto
qed

lemma set_remark:
  "(b, x, f) \<in> set (remark a e l) \<longleftrightarrow> (\<exists>g. (b, x, g) \<in> set l \<and> f = (if b = a then e else g))"
  by (induction l) (auto simp: remark_def split: if_splits)

lemma pool_repI:
  "rep (buffer p) l \<Longrightarrow> length l \<le> m \<Longrightarrow> distinct (free_list p) \<Longrightarrow>
   set (free_list p) = {a. \<exists>x. (a, x, True) \<in> set l} \<Longrightarrow> pool_rep m p l"
  by (simp add: pool_rep_def)

lemma pool_rep_buffer: "pool_rep m p l \<Longrightarrow> rep (buffer p) l"
  and pool_rep_length: "pool_rep m p l \<Longrightarrow> length l \<le> m"
  and pool_rep_distinct: "pool_rep m p l \<Longrightarrow> distinct (free_list p)"
  and pool_rep_free: "pool_rep m p l \<Longrightarrow> set (free_list p) = {a. \<exists>x. (a, x, True) \<in> set l}"
  by (simp_all add: pool_rep_def)

lemma lent_rep: "rep (buffer p) l \<Longrightarrow> lent p = {a. \<exists>x. (a, x, False) \<in> set l}"
  unfolding lent_def by (fastforce dest: rep_cells rep_entry)

lemma objects_rep: "rep (buffer p) l \<Longrightarrow> objects p a = Some x \<longleftrightarrow> (\<exists>e. (a, x, e) \<in> set l)"
  unfolding objects_def by (fastforce dest: rep_cells rep_entry)

lemma fresh_rep: "rep (buffer p) l \<Longrightarrow> fresh_for (Inr (a, x)) p \<longleftrightarrow> a \<notin> set (addrs l)"
  unfolding fresh_for_def using rep_dom [of "buffer p" l] by auto

lemma entry_key: "distinct (addrs l) \<Longrightarrow> (a, x, e) \<in> set l \<Longrightarrow> (a, y, f) \<in> set l \<Longrightarrow> y = x \<and> f = e"
  by (metis Pair_inject eq_key_imp_eq_value)

lemma remark_free:
  assumes "distinct (addrs l)" and "a \<in> set (addrs l)"
  shows "{b. \<exists>x. (b, x, True) \<in> set (remark a False l)} = {b. \<exists>x. (b, x, True) \<in> set l} - {a}"
    and "{b. \<exists>x. (b, x, False) \<in> set (remark a False l)} = insert a {b. \<exists>x. (b, x, False) \<in> set l}"
    and "{b. \<exists>x. (b, x, True) \<in> set (remark a True l)} = insert a {b. \<exists>x. (b, x, True) \<in> set l}"
    and "{b. \<exists>x. (b, x, False) \<in> set (remark a True l)} = {b. \<exists>x. (b, x, False) \<in> set l} - {a}"
  using assms by (auto simp: set_remark) blast+

lemma take_free:
  assumes r: "pool_rep m p l" and free: "free_list p = a # rest"
  shows "\<exists>b. coro_do_try_borrow_one m mk p = (Inr (Some a), p\<lparr>free_list := rest, buffer := b\<rparr>) \<and>
    rep b (remark a False l) \<and> a \<in> set (addrs l)"
proof -
  have "a \<in> set (free_list p)" by (simp add: free)
  then obtain x where "(a, x, True) \<in> set l" unfolding pool_rep_free [OF r] by blast
  then have a: "a \<in> set (addrs l)" by force
  obtain b where "mark_object (buffer p) a False = Inr b" "rep b (remark a False l)"
    using tl.mark_present [OF pool_rep_buffer [OF r] a] by blast
  then show ?thesis
    using a by (intro exI [of _ b], subst coro_do_try_borrow_one.simps) (simp add: free)
qed

lemma take_free_rep:
  assumes r: "pool_rep m p l" and free: "free_list p = a # rest"
  obtains p' where "coro_do_try_borrow_one m mk p = (Inr (Some a), p')"
    "pool_rep m p' (remark a False l)" "free_list p' = rest" "a \<in> set (addrs l)"
proof -
  obtain b where b: "coro_do_try_borrow_one m mk p = (Inr (Some a), p\<lparr>free_list := rest, buffer := b\<rparr>)"
    "rep b (remark a False l)" "a \<in> set (addrs l)"
    using take_free [OF assms] by blast
  have "set rest = {c. \<exists>x. (c, x, True) \<in> set l} - {a}"
    using pool_rep_free [OF r] pool_rep_distinct [OF r] free by auto
  then have "pool_rep m (p\<lparr>free_list := rest, buffer := b\<rparr>) (remark a False l)"
    using b r free remark_free(1) [OF rep_distinct [OF pool_rep_buffer [OF r]] b(3)]
    by (intro pool_repI) (simp_all add: pool_rep_def)
  then show ?thesis using that [OF b(1)] b(3) by simp
qed

lemma grow_pool:
  assumes r: "pool_rep m p l" and free: "free_list p = []" and room: "length l < m" "m < 2 ^ 64"
    and mk: "mk = Inr (a, x)" and fresh: "a \<notin> set (addrs l)"
  obtains p1 where "coro_do_try_borrow_one m mk p = coro_do_try_borrow_one m mk p1"
    "pool_rep m p1 (l @ [(a, x, True)])" "free_list p1 = [a]"
proof -
  obtain b where b: "push_back a x True (buffer p) = Inr b" "newest_object b = Inr a"
    "rep b (l @ [(a, x, True)])"
    using tl.add_newest [OF pool_rep_buffer [OF r] fresh] by blast
  have room': "unat (tlist_size (buffer p)) < m"
    using room tlist_size_rep [OF pool_rep_buffer [OF r]] by simp
  let ?p1 = "p\<lparr>buffer := b, free_list := [a]\<rparr>"
  have "coro_do_try_borrow_one m mk p = coro_do_try_borrow_one m mk ?p1"
    by (subst coro_do_try_borrow_one.simps)
       (simp add: free room' new_obj_to_buffer_def mk b(1,2))
  moreover have "pool_rep m ?p1 (l @ [(a, x, True)])"
    using r free room b(3) by (intro pool_repI) (auto simp: pool_rep_def)
  moreover have "free_list ?p1 = [a]" by simp
  ultimately show ?thesis by (rule that)
qed


lemma grow_fails:
  assumes "pool_rep m p l" and "free_list p = []" and "length l < m" "m < 2 ^ 64"
  shows "coro_do_try_borrow_one m (Inl e) p = (Inl e, p)"
  using assms tlist_size_rep [OF pool_rep_buffer [OF assms(1)]]
  by (subst coro_do_try_borrow_one.simps) (simp add: new_obj_to_buffer_def)

lemma pool_full:
  assumes "pool_rep m p l" and "free_list p = []" and "\<not> length l < m" "m < 2 ^ 64"
  shows "coro_do_try_borrow_one m mk p = (Inr None, p)"
  using assms tlist_size_rep [OF pool_rep_buffer [OF assms(1)]] pool_rep_length [OF assms(1)]
  by (subst coro_do_try_borrow_one.simps) simp

text \<open>Every outcome of a borrow, in one rule.\<close>

lemma borrow_cases:
  assumes r: "pool_rep m p l" and m: "m < 2 ^ 64" and fresh: "fresh_for mk p"
    and eq: "coro_do_try_borrow_one m mk p = (res, p')"
  obtains (reused) a rest where "free_list p = a # rest" "res = Inr (Some a)" "free_list p' = rest"
      "a \<in> set (addrs l)" "pool_rep m p' (remark a False l)"
  | (made) a x where "free_list p = []" "length l < m" "mk = Inr (a, x)" "a \<notin> set (addrs l)"
      "res = Inr (Some a)" "free_list p' = []" "pool_rep m p' (l @ [(a, x, False)])"
  | (threw) e where "free_list p = []" "length l < m" "mk = Inl e" "res = Inl e" "p' = p"
  | (full) "free_list p = []" "length l = m" "res = Inr None" "p' = p"
proof (cases "free_list p")
  case (Cons a rest)
  from take_free_rep [OF r Cons, of mk] eq show ?thesis
    by (metis Cons Pair_inject reused)
next
  case Nil
  show ?thesis
  proof (cases "length l < m")
    case False
    show ?thesis
    proof (rule full [OF Nil])
      show "length l = m" using False pool_rep_length [OF r] by simp
      show "res = Inr None" "p' = p" using pool_full [OF r Nil False m, of mk] eq by simp_all
    qed
  next
    case room: True
    show ?thesis
    proof (cases mk)
      case (Inl e)
      then show ?thesis
        using grow_fails [OF r Nil room m, of e] eq by (intro threw [OF Nil room Inl]) simp_all
    next
      case (Inr ax)
      obtain a x where mk: "mk = Inr (a, x)" using Inr by (cases ax) simp
      have a: "a \<notin> set (addrs l)" using fresh fresh_rep [OF pool_rep_buffer [OF r]] mk by simp
      obtain p1 where p1: "coro_do_try_borrow_one m mk p = coro_do_try_borrow_one m mk p1"
        "pool_rep m p1 (l @ [(a, x, True)])" "free_list p1 = [a]"
        using grow_pool [OF r Nil room m mk a] .
      have "remark a False (l @ [(a, x, True)]) = l @ [(a, x, False)]"
        using remark_middle [of l a x True "[]"] rep_distinct [OF pool_rep_buffer [OF p1(2)]] by simp
      then show ?thesis
        using take_free_rep [OF p1(2,3), of mk] p1(1) eq made [OF Nil room mk a]
        by (metis Pair_inject)
    qed
  qed
qed

lemma lent_cases:
  assumes "pool_rep m p l"
  shows "lent p = {a. \<exists>x. (a, x, False) \<in> set l}" "lent p \<subseteq> set (addrs l)"
    "lent p \<inter> set (free_list p) = {}" "set (addrs l) = lent p \<union> set (free_list p)"
proof -
  show L: "lent p = {a. \<exists>x. (a, x, False) \<in> set l}"
    by (rule lent_rep [OF pool_rep_buffer [OF assms]])
  then show "lent p \<subseteq> set (addrs l)" by force
  show "lent p \<inter> set (free_list p) = {}"
  proof -
    have "\<not> ((a, x, False) \<in> set l \<and> (a, y, True) \<in> set l)" for a x y
      using entry_key [OF rep_distinct [OF pool_rep_buffer [OF assms]]] by metis
    then show ?thesis unfolding L pool_rep_free [OF assms] by blast
  qed
  show "set (addrs l) = lent p \<union> set (free_list p)"
  proof -
    have "a \<in> set (addrs l) \<longleftrightarrow> (\<exists>x e. (a, x, e) \<in> set l)" for a by force
    then show ?thesis unfolding L pool_rep_free [OF assms] by (auto simp: ex_bool_eq)
  qed
qed

lemma release_rep:
  assumes r: "pool_rep m p l" and a: "a \<in> lent p"
  shows "\<exists>p'. coro_release_one a p = (Inr (), p') \<and> pool_rep m p' (remark a True l) \<and>
    free_list p' = a # free_list p"
proof -
  have al: "a \<in> set (addrs l)" "a \<notin> set (free_list p)"
    using lent_cases(2,3) [OF r] a by blast+
  obtain b where b: "mark_object (buffer p) a True = Inr b" "rep b (remark a True l)"
    using tl.mark_present [OF pool_rep_buffer [OF r] al(1)] by blast
  let ?p = "p\<lparr>free_list := a # free_list p, buffer := b\<rparr>"
  have "pool_rep m ?p (remark a True l)"
    using r al b(2) remark_free(3) [OF rep_distinct [OF pool_rep_buffer [OF r]] al(1)]
    by (intro pool_repI) (simp_all add: pool_rep_def)
  moreover have "coro_release_one a p = (Inr (), ?p)"
    using b(1) by (simp add: coro_release_one_def)
  moreover have "free_list ?p = a # free_list p" by simp
  ultimately show ?thesis by blast
qed

section \<open>The thread pool runs the same operations and keeps a flag\<close>

text \<open>
  The thread pool's borrow is the coroutine pool's borrow followed by \<open>new_obj_ready := False\<close> when an
  object is lent; its release is the coroutine pool's release followed by \<open>new_obj_ready := True\<close>.
\<close>

definition after_lending :: "addr option result \<Rightarrow> 'o thread_pool \<Rightarrow> 'o thread_pool" where
  "after_lending r p = (case r of Inr (Some a) \<Rightarrow> p\<lparr>new_obj_ready := False\<rparr> | _ \<Rightarrow> p)"

lemma after_lending_simps [simp]:
  "buffer (after_lending r p) = buffer p" "free_list (after_lending r p) = free_list p"
  "new_obj_ready (after_lending r p) \<longleftrightarrow> new_obj_ready p \<and> \<not> (\<exists>a. r = Inr (Some a))"
  by (auto simp: after_lending_def split: sum.splits option.splits)

lemma thread_borrow_eq:
  "do_try_borrow_one m mk p =
     (let (r, q) = coro_do_try_borrow_one m mk p in (r, after_lending r q))"
proof (induction m mk p rule: do_try_borrow_one.induct)
  case (1 m mk p)
  show ?case
    using "1.IH"
    by (subst do_try_borrow_one.simps [of m mk p], subst coro_do_try_borrow_one.simps [of m mk p])
       (auto simp: after_lending_def Let_def split: list.splits sum.splits)
qed

lemma thread_release_eq:
  "release_one a p =
     (let (r, q) = coro_release_one a p in (r, if r = Inr () then q\<lparr>new_obj_ready := True\<rparr> else q))"
  by (auto simp: release_one_def coro_release_one_def Let_def split: sum.splits)

lemma pool_rep_flag [simp]:
  "pool_rep m (p\<lparr>new_obj_ready := f\<rparr>) l = pool_rep m p l" "lent (p\<lparr>new_obj_ready := f\<rparr>) = lent p"
  "pool_rep m (after_lending r p) l = pool_rep m p l" "lent (after_lending r p) = lent p"
  by (simp_all add: pool_rep_def lent_def)

section \<open>The contract of a pool\<close>

text \<open>
  What a user of a pool relies on, whichever pool it is: a borrow lends an object nobody holds, or
  lends nothing and changes nothing, or passes on the constructor's exception and changes nothing; a
  release of a lent object gives it back. \<open>with_lent\<close> is how the clients use a pool: they borrow, and
  a scope guard releases on every way out of the body, the exceptions included. The body sees the pool
  after the borrow (it reads the object there) and leaves it alone.
\<close>

definition with_lent ::
  "('env \<Rightarrow> 'p \<Rightarrow> addr option result \<times> 'p) \<Rightarrow> (addr \<Rightarrow> 'p \<Rightarrow> unit result \<times> 'p) \<Rightarrow>
   (addr \<Rightarrow> 'p \<Rightarrow> 'w \<Rightarrow> 'a result \<times> 'w) \<Rightarrow> 'env \<Rightarrow> 'p \<Rightarrow> 'w \<Rightarrow> ('a result \<times> 'p \<times> 'w) option" where
  "with_lent borrow release body env p w =
     (case borrow env p of
        (Inl e, p1) \<Rightarrow> Some (Inl e, p1, w)
      | (Inr None, p1) \<Rightarrow> None
      | (Inr (Some a), p1) \<Rightarrow>
          (let (r, w1) = body a p1 w; (_, p2) = release a p1 in Some (r, p2, w1)))"

locale lending_pool =
  fixes ok :: "'p \<Rightarrow> bool"
    and busy :: "'p \<Rightarrow> addr set"
    and allowed :: "'env \<Rightarrow> 'p \<Rightarrow> bool"
    and borrow :: "'env \<Rightarrow> 'p \<Rightarrow> addr option result \<times> 'p"
    and release :: "addr \<Rightarrow> 'p \<Rightarrow> unit result \<times> 'p"
  assumes borrow_lends: "ok p \<Longrightarrow> allowed env p \<Longrightarrow> borrow env p = (Inr (Some a), p') \<Longrightarrow>
      ok p' \<and> a \<notin> busy p \<and> busy p' = insert a (busy p)"
    and borrow_nothing: "ok p \<Longrightarrow> allowed env p \<Longrightarrow> borrow env p = (Inr None, p') \<Longrightarrow> p' = p"
    and borrow_throws: "ok p \<Longrightarrow> allowed env p \<Longrightarrow> borrow env p = (Inl e, p') \<Longrightarrow> p' = p"
    and release_returns: "ok p \<Longrightarrow> a \<in> busy p \<Longrightarrow>
      \<exists>p'. release a p = (Inr (), p') \<and> ok p' \<and> busy p' = busy p - {a}"
begin

lemma borrow_keeps_ok: "ok p \<Longrightarrow> allowed env p \<Longrightarrow> ok (snd (borrow env p))"
  using borrow_lends borrow_nothing borrow_throws
  by (cases "fst (borrow env p)" rule: optional_result_cases) (metis prod.collapse)+

lemma with_lent_balanced:
  assumes "ok p" and "allowed env p" and "with_lent borrow release body env p w = Some (r, p', w')"
  shows "ok p' \<and> busy p' = busy p"
proof -
  obtain x p1 where b: "borrow env p = (x, p1)" by (cases "borrow env p")
  show ?thesis
  proof (cases x rule: optional_result_cases)
    case (exn e)
    then show ?thesis using assms b borrow_throws by (auto simp: with_lent_def)
  next
    case none
    then show ?thesis using assms b by (simp add: with_lent_def)
  next
    case (some a)
    have l: "ok p1" "a \<notin> busy p" "busy p1 = insert a (busy p)"
      using borrow_lends [OF assms(1,2)] b some by auto
    obtain p2 where "release a p1 = (Inr (), p2)" "ok p2" "busy p2 = busy p1 - {a}"
      using release_returns [OF l(1)] l(3) by blast
    then show ?thesis using assms(3) b some l(2,3) by (auto simp: with_lent_def split: prod.splits)
  qed
qed

lemma with_lent_exclusive:
  assumes "ok p" and "allowed env p" and "borrow env p = (Inr (Some a), p1)"
    and "ok p1 \<Longrightarrow> allowed env' p1" and "borrow env' p1 = (Inr (Some b), p2)"
  shows "a \<noteq> b"
  using borrow_lends [OF assms(1,2,3)] borrow_lends [OF _ _ assms(5)] assms(4) by auto

end

lemma coro_contract:
  fixes p :: "('o, 'z) pool_scheme"
  assumes m: "m < 2 ^ 64" and ok: "pool_ok m p" and fresh: "fresh_for mk p"
    and eq: "coro_do_try_borrow_one m mk p = (res, p')"
  shows "res = Inr (Some a) \<Longrightarrow> pool_ok m p' \<and> a \<notin> lent p \<and> lent p' = insert a (lent p)"
    and "res = Inr None \<Longrightarrow> p' = p" and "res = Inl e \<Longrightarrow> p' = p"
proof -
  obtain l where r: "pool_rep m p l" using ok by (auto simp: pool_ok_def)
  have b: "rep (buffer p) l" using pool_rep_buffer [OF r] .
  show "res = Inr (Some a) \<Longrightarrow> pool_ok m p' \<and> a \<notin> lent p \<and> lent p' = insert a (lent p)"
  proof (rule borrow_cases [OF r m fresh eq])
    fix c rest
    assume res: "res = Inr (Some a)" and c: "free_list p = c # rest" "res = Inr (Some c)"
      "c \<in> set (addrs l)" and p': "pool_rep m p' (remark c False l)"
    have "lent p' = insert c (lent p)"
      using lent_cases(1) [OF p'] lent_cases(1) [OF r] remark_free(2) [OF rep_distinct [OF b] c(3)] by simp
    moreover have "c \<notin> lent p" using lent_cases(3) [OF r] c(1) by auto
    ultimately show ?thesis using p' res c(2) by (auto simp: pool_ok_def)
  next
    fix c x
    assume res: "res = Inr (Some a)" and c: "c \<notin> set (addrs l)" "res = Inr (Some c)"
      and p': "pool_rep m p' (l @ [(c, x, False)])"
    have "lent p' = insert c (lent p)"
      using lent_cases(1) [OF p'] lent_cases(1) [OF r] by auto
    moreover have "c \<notin> lent p" using lent_cases(2) [OF r] c(1) by auto
    ultimately show ?thesis using p' res c(2) by (auto simp: pool_ok_def)
  qed auto
  show "res = Inr None \<Longrightarrow> p' = p" and "res = Inl e \<Longrightarrow> p' = p"
    by (auto intro: borrow_cases [OF r m fresh eq])
qed

lemma coro_release_contract:
  fixes p :: "('o, 'z) pool_scheme"
  assumes ok: "pool_ok m p" and a: "a \<in> lent p"
  shows "\<exists>p'. coro_release_one a p = (Inr (), p') \<and> pool_ok m p' \<and> lent p' = lent p - {a}"
proof -
  obtain l where r: "pool_rep m p l" using ok by (auto simp: pool_ok_def)
  obtain p' where p': "coro_release_one a p = (Inr (), p')" "pool_rep m p' (remark a True l)"
    using release_rep [OF r a] by blast
  have "a \<in> set (addrs l)" using lent_cases(2) [OF r] a by blast
  then have "lent p' = lent p - {a}"
    using lent_cases(1) [OF p'(2)] lent_cases(1) [OF r]
      remark_free(4) [OF rep_distinct [OF pool_rep_buffer [OF r]]] by simp
  then show ?thesis using p' by (auto simp: pool_ok_def)
qed


lemma thread_borrow_split:
  assumes "do_try_borrow_one m mk p = (r, p')"
  obtains q where "coro_do_try_borrow_one m mk p = (r, q)" "p' = after_lending r q"
  using assms unfolding thread_borrow_eq Let_def by (auto split: prod.splits)

lemma after_lending_none: "(\<And>a. r \<noteq> Inr (Some a)) \<Longrightarrow> after_lending r q = q"
  by (auto simp: after_lending_def split: sum.splits option.splits)

lemma pool_ok_flag [simp]:
  "pool_ok m (p\<lparr>new_obj_ready := f\<rparr>) = pool_ok m p" "pool_ok m (after_lending r p) = pool_ok m p"
  by (simp_all add: pool_ok_def)

lemma thread_contract:
  assumes m: "m < 2 ^ 64" and ok: "pool_ok m p" and fresh: "fresh_for mk p"
    and eq: "do_try_borrow_one m mk p = (res, p')"
  shows "res = Inr (Some a) \<Longrightarrow> pool_ok m p' \<and> a \<notin> lent p \<and> lent p' = insert a (lent p)"
    and "res = Inr None \<Longrightarrow> p' = p" and "res = Inl e \<Longrightarrow> p' = p"
proof -
  obtain q where q: "coro_do_try_borrow_one m mk p = (res, q)" "p' = after_lending res q"
    using eq by (rule thread_borrow_split)
  note c = coro_contract [OF m ok fresh q(1)]
  show "res = Inr (Some a) \<Longrightarrow> pool_ok m p' \<and> a \<notin> lent p \<and> lent p' = insert a (lent p)"
    using c(1) q(2) by simp
  show "res = Inr None \<Longrightarrow> p' = p" and "res = Inl e \<Longrightarrow> p' = p"
    using c(2,3) q(2) by (simp_all add: after_lending_none)
qed

text \<open>An exception that leaves a borrow is the constructor's.\<close>

lemma coro_borrow_exception:
  assumes "m < 2 ^ 64" and ok: "pool_ok m p" and "fresh_for mk p"
    and "coro_do_try_borrow_one m mk p = (Inl e, p')"
  shows "mk = Inl e"
proof -
  obtain l where r: "pool_rep m p l" using ok by (auto simp: pool_ok_def)
  show ?thesis by (rule borrow_cases [OF r assms(1,3,4)]) auto
qed

lemma thread_borrow_exception:
  assumes "m < 2 ^ 64" and "pool_ok m p" and "fresh_for mk p"
    and "do_try_borrow_one m mk p = (Inl e, p')"
  shows "mk = Inl e"
  using assms(4) by (rule thread_borrow_split) (rule coro_borrow_exception [OF assms(1,2,3)])

lemma thread_release_contract:
  assumes "pool_ok m p" and "a \<in> lent p"
  shows "\<exists>p'. release_one a p = (Inr (), p') \<and> pool_ok m p' \<and> lent p' = lent p - {a}"
  using coro_release_contract [OF assms] by (auto simp: thread_release_eq)

text \<open>Both pools keep the contract, at any size a \<open>size_t\<close> can give.\<close>

interpretation coro_pool: lending_pool "pool_ok (unat (m :: 64 word)) :: 'o pool \<Rightarrow> bool" lent fresh_for
    "coro_do_try_borrow_one (unat m)" coro_release_one for m
proof unfold_locales
  note m = unat_64 [of m]
  fix p p' :: "'o pool" and env :: "'o construction" and a e
  assume ok: "pool_ok (unat m) p"
  show "a \<in> lent p \<Longrightarrow>
      \<exists>p'. coro_release_one a p = (Inr (), p') \<and> pool_ok (unat m) p' \<and> lent p' = lent p - {a}"
    by (rule coro_release_contract [OF ok])
  assume "fresh_for env p"
  note c = coro_contract [OF m ok this]
  show "coro_do_try_borrow_one (unat m) env p = (Inr (Some a), p') \<Longrightarrow>
      pool_ok (unat m) p' \<and> a \<notin> lent p \<and> lent p' = insert a (lent p)"
    "coro_do_try_borrow_one (unat m) env p = (Inr None, p') \<Longrightarrow> p' = p"
    "coro_do_try_borrow_one (unat m) env p = (Inl e, p') \<Longrightarrow> p' = p"
    using c by blast+
qed

interpretation threads_pool: lending_pool "pool_ok (unat (m :: 64 word)) :: 'o thread_pool \<Rightarrow> bool" lent
    fresh_for "do_try_borrow_one (unat m)" release_one for m
proof unfold_locales
  note m = unat_64 [of m]
  fix p p' :: "'o thread_pool" and env :: "'o construction" and a e
  assume ok: "pool_ok (unat m) p"
  show "a \<in> lent p \<Longrightarrow>
      \<exists>p'. release_one a p = (Inr (), p') \<and> pool_ok (unat m) p' \<and> lent p' = lent p - {a}"
    by (rule thread_release_contract [OF ok])
  assume "fresh_for env p"
  note c = thread_contract [OF m ok this]
  show "do_try_borrow_one (unat m) env p = (Inr (Some a), p') \<Longrightarrow>
      pool_ok (unat m) p' \<and> a \<notin> lent p \<and> lent p' = insert a (lent p)"
    "do_try_borrow_one (unat m) env p = (Inr None, p') \<Longrightarrow> p' = p"
    "do_try_borrow_one (unat m) env p = (Inl e, p') \<Longrightarrow> p' = p"
    using c by blast+
qed

section \<open>Who holds what\<close>

text \<open>
  The schedulers track which thread or coroutine holds which object, as a map from its number to the
  object. The holders are exact when they hold the lent objects, each by one of them.
\<close>

definition exact_holders :: "(nat \<rightharpoonup> addr) \<Rightarrow> addr set \<Rightarrow> bool" where
  "exact_holders h L \<longleftrightarrow> ran h = L \<and> inj_on h (dom h)"

named_theorems holders \<open>how a step changes who holds what\<close>

lemma exact_take [holders]:
  assumes "exact_holders h L" and "h i = None" and "a \<notin> L"
  shows "exact_holders (h(i \<mapsto> a)) (insert a L)"
proof -
  have inj: "j = k" if "h j = Some b" "h k = Some b" for j k b
    using assms(1) that by (auto simp: exact_holders_def inj_on_def dom_def)
  have notin: "h j \<noteq> Some a" for j using assms(1,3) by (auto simp: exact_holders_def ran_def)
  have "inj_on (h(i \<mapsto> a)) (dom (h(i \<mapsto> a)))"
  proof (rule inj_onI)
    fix j k
    assume "j \<in> dom (h(i \<mapsto> a))" and "k \<in> dom (h(i \<mapsto> a))" and eq: "(h(i \<mapsto> a)) j = (h(i \<mapsto> a)) k"
    then obtain b where "(h(i \<mapsto> a)) k = Some b" by blast
    with eq show "j = k" using notin [of j] notin [of k] inj by (auto split: if_splits)
  qed
  then show ?thesis using assms ran_map_upd [of h i a] by (simp add: exact_holders_def)
qed

lemma exact_give [holders]:
  assumes "exact_holders h L" and "h i = Some a"
  shows "exact_holders (h(i := None)) (L - {a})"
proof -
  have inj: "j = k" if "h j = Some b" "h k = Some b" for j k b
    using assms(1) that by (auto simp: exact_holders_def inj_on_def dom_def)
  have "ran (h(i := None)) = ran h - {a}"
    unfolding ran_def using assms(2) inj by auto (metis option.inject)
  moreover have "inj_on (h(i := None)) (dom (h(i := None)))"
  proof (rule inj_onI)
    fix j k
    assume "j \<in> dom (h(i := None))" and "k \<in> dom (h(i := None))" and eq: "(h(i := None)) j = (h(i := None)) k"
    then obtain b where "(h(i := None)) k = Some b" by blast
    with eq show "j = k" using inj by (auto split: if_splits)
  qed
  ultimately show ?thesis using assms(1) by (simp add: exact_holders_def)
qed

lemma exact_same [holders]: "exact_holders h L \<Longrightarrow> h i = None \<Longrightarrow> exact_holders (h(i := None)) L"
  by (simp add: fun_upd_idem)

lemma exact_in: "exact_holders h L \<Longrightarrow> h i = Some a \<Longrightarrow> a \<in> L"
  by (auto simp: exact_holders_def ran_def)

lemma exact_one: "exact_holders h L \<Longrightarrow> h i = Some a \<Longrightarrow> h j = Some a \<Longrightarrow> i = j"
  by (auto simp: exact_holders_def inj_on_def dom_def)

lemma exact_someone: "exact_holders h L \<Longrightarrow> a \<in> L \<Longrightarrow> \<exists>i. h i = Some a"
  by (auto simp: exact_holders_def ran_def)

section \<open>Filling a pool\<close>

lemma fill_from_rep:
  assumes mks: "\<And>i. i < m \<Longrightarrow> mks i = Inr (as i, xs i)" and inj: "inj_on as {..<m}"
  shows "pool_rep m p (map (\<lambda>i. (as i, xs i, True)) [0..<n]) \<Longrightarrow> free_list p = map as [0..<n] \<Longrightarrow>
    n \<le> m \<Longrightarrow> \<exists>p'. fill_from m mks n p = (Inr (), p') \<and>
      pool_rep m p' (map (\<lambda>i. (as i, xs i, True)) [0..<m]) \<and> free_list p' = map as [0..<m]"
proof (induction "m - n" arbitrary: n p)
  case 0
  then show ?case by (subst fill_from.simps) simp
next
  case (Suc k)
  let ?l = "map (\<lambda>i. (as i, xs i, True)) [0..<n]"
  have n: "n < m" using Suc by simp
  have fresh: "as n \<notin> set (addrs ?l)"
    using inj n by (force simp: inj_on_def)
  obtain b where b: "push_back (as n) (xs n) True (buffer p) = Inr b" "newest_object b = Inr (as n)"
    "rep b (?l @ [(as n, xs n, True)])"
    using tl.add_newest [OF pool_rep_buffer [OF Suc.prems(1)] fresh] by blast
  let ?p = "p\<lparr>buffer := b, free_list := map as [0..<Suc n]\<rparr>"
  have "pool_rep m ?p (map (\<lambda>i. (as i, xs i, True)) [0..<Suc n])"
  proof (rule pool_repI)
    show "distinct (free_list ?p)"
      using inj_on_subset [OF inj, of "{0..<Suc n}"] n by (simp add: distinct_map subset_eq del: upt_Suc)
    show "set (free_list ?p) = {a. \<exists>x. (a, x, True) \<in> set (map (\<lambda>i. (as i, xs i, True)) [0..<Suc n])}"
      by auto
  qed (use b n in simp_all)
  moreover have "fill_from m mks n p = fill_from m mks (Suc n) ?p"
    using n Suc.prems(2) mks b(1,2) by (subst fill_from.simps) (simp add: new_obj_to_buffer_def)
  ultimately show ?case
    using Suc.hyps(1) [of "Suc n" ?p] Suc.hyps(2) n by simp
qed

lemma fill_full_rep:
  assumes "\<And>i. i < m \<Longrightarrow> mks i = Inr (as i, xs i)" and "inj_on as {..<m}"
  shows "\<exists>p'. fill_full m mks (empty_pool :: 'o pool) = (Inr (), p') \<and>
    pool_rep m p' (map (\<lambda>i. (as i, xs i, True)) [0..<m]) \<and> free_list p' = map as [0..<m]"
proof -
  have "pool_rep m (empty_pool :: 'o pool) []"
    by (simp add: pool_rep_def empty_pool_def rep_empty_list)
  then show ?thesis
    using fill_from_rep [OF assms, of empty_pool 0] by (simp add: fill_full_def empty_pool_def)
qed

section \<open>Properties\<close>

text \<open>A pool of three objects, the second of them lent, for the witnesses.\<close>

definition sample_pool :: "nat pool" where
  "sample_pool = \<lparr>buffer = sample_list, free_list = [3, 1]\<rparr>"

lemma sample_pool_rep: "3 \<le> m \<Longrightarrow> pool_rep m sample_pool [(1, 10, True), (2, 20, False), (3, 30, True)]"
  using sample_list_rep by (auto simp: pool_rep_def sample_pool_def)

lemma sample_pool_ok: "3 \<le> m \<Longrightarrow> pool_ok m sample_pool"
  using sample_pool_rep by (auto simp: pool_ok_def)

lemma sample_pool_lent: "lent sample_pool = {2}"
  using lent_cases(1) [OF sample_pool_rep [of 3]] by auto

lemma empty_pool_rep: "pool_rep m empty_pool []"
  by (simp add: pool_rep_def empty_pool_def rep_empty_list)

lemma empty_pool_ok: "pool_ok m empty_pool"
  using empty_pool_rep by (auto simp: pool_ok_def)

lemma card_lent:
  assumes "pool_rep m p l"
  shows "card (lent p) + length (free_list p) = length l"
proof -
  have "length l = card (set (addrs l))"
    using distinct_card [OF rep_distinct [OF pool_rep_buffer [OF assms]]] by simp
  also have "\<dots> = card (lent p) + card (set (free_list p))"
    unfolding lent_cases(4) [OF assms]
    by (rule card_Un_disjoint) (use lent_cases(2,3) [OF assms] in \<open>auto intro: finite_subset\<close>)
  finally show ?thesis using distinct_card [OF pool_rep_distinct [OF assms]] by simp
qed

lemma objects_grow:
  fixes p :: "('o, 'z) pool_scheme"
  assumes ok: "pool_ok m p" and m: "m < 2 ^ 64" and fresh: "fresh_for mk p"
    and eq: "coro_do_try_borrow_one m mk p = (res, p')" and a: "objects p a = Some x"
  shows "objects p' a = Some x"
proof -
  obtain l where r: "pool_rep m p l" using ok by (auto simp: pool_ok_def)
  have al: "\<exists>e. (a, x, e) \<in> set l" using a objects_rep [OF pool_rep_buffer [OF r]] by simp
  show ?thesis
  proof (rule borrow_cases [OF r m fresh eq])
    fix c rest
    assume p': "pool_rep m p' (remark c False l)"
    show ?thesis
      using al unfolding objects_rep [OF pool_rep_buffer [OF p']] set_remark by blast
  next
    fix c z
    assume p': "pool_rep m p' (l @ [(c, z, False)])"
    show ?thesis
      using al unfolding objects_rep [OF pool_rep_buffer [OF p']] by auto
  qed (use a in auto)
qed

section \<open>The pool as a stack of free objects\<close>

text \<open>
  The abstract pool: the free objects as a stack and the set of those lent. A borrow takes the top, or has
  one more object made while there are fewer than \<open>m\<close>, or finds nothing; a release pushes.
\<close>

type_synonym stack_pool = "addr list \<times> addr set"

fun stack_borrow :: "nat \<Rightarrow> 'o construction \<Rightarrow> stack_pool \<Rightarrow> addr option result \<times> stack_pool" where
  "stack_borrow m mk (a # free, out) = (Inr (Some a), (free, insert a out))"
| "stack_borrow m mk ([], out) =
     (if card out < m then
        (case mk of Inl e \<Rightarrow> (Inl e, ([], out)) | Inr (a, x) \<Rightarrow> (Inr (Some a), ([], insert a out)))
      else (Inr None, ([], out)))"

fun stack_release :: "addr \<Rightarrow> stack_pool \<Rightarrow> unit result \<times> stack_pool" where
  "stack_release a (free, out) = (Inr (), (a # free, out - {a}))"

definition stack_of :: "('o, 'z) pool_scheme \<Rightarrow> stack_pool" where
  "stack_of p = (free_list p, lent p)"

lemma borrow_refines:
  assumes "pool_rep m p l" and "m < 2 ^ 64" and "fresh_for mk p"
  shows "map_prod id stack_of (coro_do_try_borrow_one m mk p) = stack_borrow m mk (stack_of p)"
proof -
  obtain res p' where eq: "coro_do_try_borrow_one m mk p = (res, p')" by force
  have n: "length l = card (lent p) + length (free_list p)" using card_lent [OF assms(1)] by simp
  have grows: "res = Inr (Some a) \<Longrightarrow> lent p' = insert a (lent p)" for a
    using coro_contract(1) [OF assms(2) _ assms(3) eq] assms(1) by (auto simp: pool_ok_def)
  show ?thesis
  proof (rule borrow_cases [OF assms(1-3) eq])
    fix a rest
    assume "free_list p = a # rest" and res: "res = Inr (Some a)" and "free_list p' = rest"
    then show ?thesis using grows [OF res] unfolding eq by (simp add: stack_of_def)
  next
    fix a x
    assume "free_list p = []" and "length l < m" and "mk = Inr (a, x)" and res: "res = Inr (Some a)"
      and "free_list p' = []"
    then show ?thesis using n grows [OF res] unfolding eq by (simp add: stack_of_def)
  next
    fix e
    assume "free_list p = []" and "length l < m" and "mk = Inl e" and "res = Inl e" and "p' = p"
    then show ?thesis using n unfolding eq by (simp add: stack_of_def)
  next
    assume "free_list p = []" and "length l = m" and "res = Inr None" and "p' = p"
    then show ?thesis using n unfolding eq by (simp add: stack_of_def)
  qed
qed

lemma release_refines:
  assumes "pool_rep m p l" and "a \<in> lent p"
  shows "map_prod id stack_of (coro_release_one a p) = stack_release a (stack_of p)"
proof -
  obtain p' where p': "coro_release_one a p = (Inr (), p')" "pool_rep m p' (remark a True l)"
    "free_list p' = a # free_list p"
    using release_rep [OF assms] by blast
  have "lent p' = lent p - {a}"
    using coro_release_contract [of m p a] assms p'(1) by (auto simp: pool_ok_def)
  with p' show ?thesis by (simp add: stack_of_def)
qed

text \<open>
  A borrow of the coroutine pool lends an object nobody holds, and from then on it is held; the
  objects already there keep their place and their value. When it lends nothing (the pool is full) or
  the constructor throws, the pool is unchanged.
\<close>

theorem coro_borrow_is_exclusive:
  assumes "pool_ok (unat (m :: 64 word)) p" and "fresh_for mk p"
    and "coro_do_try_borrow_one (unat m) mk p = (res, p')"
  shows "pool_ok (unat m) p' \<and> (\<forall>a x. objects p a = Some x \<longrightarrow> objects p' a = Some x) \<and>
    (case res of
       Inr (Some a) \<Rightarrow> a \<notin> lent p \<and> lent p' = insert a (lent p) \<and> objects p' a \<noteq> None
     | _ \<Rightarrow> p' = p)"
proof -
  note c = coro_contract [OF unat_64 assms]
  have "objects p' a \<noteq> None" if "res = Inr (Some a)" for a
    using c(1) [OF that] by (auto simp: lent_def objects_def)
  then show ?thesis
    using c assms(1) objects_grow [OF assms(1) unat_64 assms(2,3)]
    by (auto split: sum.splits option.splits)
qed

theorem coro_borrow_is_exclusive_witness:
  "\<exists>p'. coro_do_try_borrow_one 3 (Inl (Runtime_Error ''refused'')) sample_pool = (Inr (Some 3), p') \<and>
     pool_ok 3 p' \<and> lent p' = {2, 3}"
proof -
  obtain p' where p': "coro_do_try_borrow_one 3 (Inl (Runtime_Error ''refused'')) sample_pool
      = (Inr (Some 3), p')"
    using take_free_rep [OF sample_pool_rep [of 3], of 3 "[1]"] by (auto simp: sample_pool_def)
  have "pool_ok 3 p' \<and> lent p' = insert 3 {2}"
    using coro_borrow_is_exclusive [of 3 sample_pool "Inl (Runtime_Error ''refused'')" "Inr (Some 3)" p']
      p' sample_pool_ok [of 3] sample_pool_lent by (simp add: fresh_for_def)
  with p' show ?thesis by auto
qed

text \<open>
  The three outcomes of a borrow, decided by the pool: a free object is lent first (the one at the
  front of the free list), without the constructor being run; with none free and room left the
  constructor decides; only a pool with all its \<open>max_size\<close> objects lent returns a null pointer.
\<close>

theorem coro_borrow_outcome:
  assumes "pool_ok (unat (m :: 64 word)) p" and "fresh_for mk p"
  shows "fst (coro_do_try_borrow_one (unat m) mk p) =
    (if free_list p \<noteq> [] then Inr (Some (hd (free_list p)))
     else if card (lent p) = unat m then Inr None
     else map_sum id (\<lambda>(a, x). Some a) mk)"
proof -
  obtain l where r: "pool_rep (unat m) p l" using assms(1) by (auto simp: pool_ok_def)
  obtain res p' where eq: "coro_do_try_borrow_one (unat m) mk p = (res, p')" by force
  have n: "length l = card (lent p) + length (free_list p)" using card_lent [OF r] by simp
  show ?thesis
    by (rule borrow_cases [OF r unat_64 assms(2) eq]) (use n eq in auto)
qed

theorem coro_borrow_outcome_witness:
  "fst (coro_do_try_borrow_one 3 (Inr (8, 80)) sample_pool) = Inr (Some 3)"
  using coro_borrow_outcome [of 3 sample_pool "Inr (8, 80)"] sample_pool_ok [of 3]
  by (simp add: sample_pool_def fresh_for_def sample_list_def)

text \<open>
  A lent object given back is the next one to be lent: releasing and borrowing again returns the
  same object, leaves the rest of the free list as it was, and the same objects lent. The constructor
  is not run again.
\<close>

theorem coro_release_then_borrow:
  assumes "pool_ok (unat (m :: 64 word)) p" and "a \<in> lent p"
  shows "\<exists>p1 p2. coro_release_one a p = (Inr (), p1) \<and> lent p1 = lent p - {a} \<and>
    coro_do_try_borrow_one (unat m) mk p1 = (Inr (Some a), p2) \<and>
    pool_ok (unat m) p2 \<and> lent p2 = lent p \<and> free_list p2 = free_list p"
proof -
  obtain l where r: "pool_rep (unat m) p l" using assms(1) by (auto simp: pool_ok_def)
  obtain p1 where p1: "coro_release_one a p = (Inr (), p1)" "pool_rep (unat m) p1 (remark a True l)"
    "free_list p1 = a # free_list p"
    using release_rep [OF r assms(2)] by blast
  have l1: "lent p1 = lent p - {a}"
    using coro_release_contract [OF assms] p1(1) by simp
  obtain p2 where p2: "coro_do_try_borrow_one (unat m) mk p1 = (Inr (Some a), p2)"
    "pool_rep (unat m) p2 (remark a False (remark a True l))" "free_list p2 = free_list p"
    "a \<in> set (addrs (remark a True l))"
    using take_free_rep [OF p1(2,3)] .
  have "lent p2 = insert a (lent p1)"
    using lent_cases(1) [OF p2(2)] lent_cases(1) [OF p1(2)] p2(4)
      remark_free(2) [OF rep_distinct [OF pool_rep_buffer [OF p1(2)]]] by simp
  then show ?thesis using p1(1) l1 p2 assms(2) by (auto simp: insert_absorb pool_ok_def)
qed

theorem coro_release_then_borrow_witness:
  "\<exists>p1 p2. coro_release_one 2 sample_pool = (Inr (), p1) \<and> lent p1 = {} \<and>
     coro_do_try_borrow_one 3 (Inr (8, 80)) p1 = (Inr (Some 2), p2) \<and> lent p2 = {2} \<and>
     free_list p2 = [3, 1]"
  using coro_release_then_borrow [of 3 sample_pool 2 "Inr (8, 80)"] sample_pool_ok [of 3]
    sample_pool_lent by (auto simp: sample_pool_def)

text \<open>
  Whoever borrows through a scope guard gives the object back on every way out, whatever the body
  does: the same objects are lent after as before, and the pool is well formed.
\<close>

theorem coro_guarded_use_balanced:
  assumes "pool_ok (unat (m :: 64 word)) (p :: 'o pool)" and "fresh_for mk p"
    and "with_lent (coro_do_try_borrow_one (unat m)) coro_release_one body mk p w = Some (r, p', w')"
  shows "pool_ok (unat m) p' \<and> lent p' = lent p"
  using assms by (rule coro_pool.with_lent_balanced)

theorem coro_guarded_use_balanced_witness:
  "\<exists>p'. with_lent (coro_do_try_borrow_one 3) coro_release_one
       (\<lambda>a _ w. (Inl (Runtime_Error ''body throws'') :: nat result, w + a)) (Inr (8, 80)) sample_pool 0
     = Some (Inl (Runtime_Error ''body throws''), p', 3) \<and> pool_ok 3 p' \<and> lent p' = {2}"
proof -
  let ?body = "\<lambda>a _ w. (Inl (Runtime_Error ''body throws'') :: nat result, w + a)"
  obtain p1 where "coro_do_try_borrow_one 3 (Inr (8, 80)) sample_pool = (Inr (Some 3), p1)"
    using take_free_rep [OF sample_pool_rep [of 3], of 3 "[1]"] by (auto simp: sample_pool_def)
  then obtain p' where p': "with_lent (coro_do_try_borrow_one 3) coro_release_one ?body (Inr (8, 80))
      sample_pool 0 = Some (Inl (Runtime_Error ''body throws''), p', 3)"
    by (cases "coro_release_one 3 p1") (auto simp: with_lent_def)
  then have "pool_ok 3 p' \<and> lent p' = {2}"
    using coro_guarded_use_balanced [of 3 sample_pool "Inr (8, 80)" ?body 0 _ p' 3] sample_pool_ok [of 3]
      sample_pool_lent by (simp add: fresh_for_def sample_pool_def sample_list_def)
  with p' show ?thesis by blast
qed

text \<open>
  \<open>fill_full\<close> on a new pool makes exactly \<open>max_size\<close> objects, all of them free and none lent, in
  the order they were made, provided every construction succeeds.
\<close>

theorem fill_full_fills:
  assumes "\<And>i. i < m \<Longrightarrow> mks i = Inr (as i, xs i)" and "inj_on as {..<m}"
  shows "\<exists>p'. fill_full m mks (empty_pool :: 'o pool) = (Inr (), p') \<and> pool_ok m p' \<and> lent p' = {} \<and>
    free_list p' = map as [0..<m]"
proof -
  obtain p' where p': "fill_full m mks (empty_pool :: 'o pool) = (Inr (), p')"
    "pool_rep m p' (map (\<lambda>i. (as i, xs i, True)) [0..<m])" "free_list p' = map as [0..<m]"
    using fill_full_rep [OF assms] by blast
  have "lent p' = {}" using lent_cases(1) [OF p'(2)] by auto
  then show ?thesis using p' by (auto simp: pool_ok_def)
qed

theorem fill_full_fills_witness:
  "\<exists>p'. fill_full 2 (\<lambda>i. Inr (10 + i, i)) (empty_pool :: nat pool) = (Inr (), p') \<and> lent p' = {} \<and>
     free_list p' = [10, 11]"
  using fill_full_fills [of 2 "\<lambda>i. Inr (10 + i, i)" "\<lambda>i. 10 + i" "\<lambda>i. i"]
  by (auto simp: inj_on_def upt_rec)

text \<open>
  The thread pool's borrow is the coroutine pool's borrow, followed by \<open>new_obj_ready := False\<close>
  exactly when an object was lent: on the buffer, the free list and the result the two classes agree.
\<close>

theorem pools_borrow_alike:
  "do_try_borrow_one m mk p =
     (let (r, q) = coro_do_try_borrow_one m mk p
      in (r, case r of Inr (Some a) \<Rightarrow> q\<lparr>new_obj_ready := False\<rparr> | _ \<Rightarrow> q))"
  unfolding thread_borrow_eq after_lending_def by simp

text \<open>
  The pool implements the abstract one: through the abstraction \<open>stack_of\<close>, the borrow of the code,
  with its buffer, flags and retry, is the borrow of the stack, on every branch, and the release of a
  lent object is its push. So objects are reused last in, first out, and one is made only when none is free.
\<close>

theorem pool_refines_stack:
  assumes "pool_ok (unat (m :: 64 word)) p" and "fresh_for mk p" and "a \<in> lent p"
  shows "map_prod id stack_of (coro_do_try_borrow_one (unat m) mk p) = stack_borrow (unat m) mk (stack_of p) \<and>
    map_prod id stack_of (coro_release_one a p) = stack_release a (stack_of p)"
proof -
  obtain l where "pool_rep (unat m) p l" using assms(1) by (auto simp: pool_ok_def)
  then show ?thesis using borrow_refines [OF _ unat_64 assms(2)] release_refines [OF _ assms(3)] by blast
qed

theorem pool_refines_stack_witness:
  "map_prod id stack_of (coro_do_try_borrow_one 3 (Inr (8, 80)) sample_pool) =
     (Inr (Some 3), ([1], {2, 3})) \<and>
   map_prod id stack_of (coro_release_one 2 sample_pool) = (Inr (), ([2, 3, 1], {}))"
proof -
  have "stack_of sample_pool = ([3, 1], {2})"
    using sample_pool_lent by (simp add: stack_of_def sample_pool_def)
  then show ?thesis
    using pool_refines_stack [of 3 sample_pool "Inr (8, 80)" 2] sample_pool_ok [of 3] sample_pool_lent
    by (auto simp: fresh_for_def sample_pool_def sample_list_def)
qed

end
