(* ===== verification/Pool_Threads.thy ===== *)
theory Pool_Threads
  imports Object_Pool
begin

text \<open>
  \<open>fixed_object_pool\<close> of lib/pool.hpp under threads: \<open>borrow_one\<close> with its condition variable, and
  \<open>release_one\<close> with its notification, interleaved in any order. A step is one critical section of
  the pool's mutex, or one action on the condition variable. A woken thread checks \<open>new_obj_ready\<close>
  again, under the mutex, as \<open>wait\<close> with a predicate does; a thread may also wake with no notification.
\<close>

section \<open>The steps\<close>

text \<open>
  Where a thread is: outside the pool, past a failed attempt and on its way to the mutex, blocked on the
  condition variable, holding an object, past the critical section of \<open>release_one\<close> and about to
  notify, or left with an exception.
\<close>

datatype thread_pc = Idle | Locking | Sleeping | Holding addr | Notifying | Failed error

record 'o thread_sys =
  shared :: "'o thread_pool"
  pcs :: "nat \<Rightarrow> thread_pc"

definition init_threads :: "'o thread_sys" where
  "init_threads = \<lparr>shared = empty_thread_pool, pcs = (\<lambda>_. Idle)\<rparr>"

text \<open>\<open>borrow_one\<close> after its first attempt, and after the wait.\<close>

definition after_try :: "addr option result \<Rightarrow> thread_pc" where
  "after_try r = (case r of Inl e \<Rightarrow> Failed e | Inr None \<Rightarrow> Locking | Inr (Some a) \<Rightarrow> Holding a)"

definition after_wait :: "addr option result \<Rightarrow> thread_pc" where
  "after_wait r =
     (case r of
        Inl e \<Rightarrow> Failed e
      | Inr None \<Rightarrow> Failed (Logic_Error ''unknown par error.'')
      | Inr (Some a) \<Rightarrow> Holding a)"

definition after_release :: "unit result \<Rightarrow> thread_pc" where
  "after_release r = (case r of Inl e \<Rightarrow> Failed e | Inr _ \<Rightarrow> Notifying)"

text \<open>\<open>exns\<close> are the exceptions the constructor of the pooled class can throw.\<close>

definition possible :: "error set \<Rightarrow> 'o construction \<Rightarrow> ('o, 'z) pool_scheme \<Rightarrow> bool" where
  "possible exns mk p \<longleftrightarrow> fresh_for mk p \<and> (\<forall>e. mk = Inl e \<longrightarrow> e \<in> exns)"

inductive thread_step :: "nat \<Rightarrow> error set \<Rightarrow> 'o thread_sys \<Rightarrow> 'o thread_sys \<Rightarrow> bool"
  for m exns where
  attempt: "pcs s i = Idle \<Longrightarrow> possible exns mk (shared s) \<Longrightarrow>
     do_try_borrow_one m mk (shared s) = (r, p) \<Longrightarrow>
     thread_step m exns s (s\<lparr>shared := p, pcs := (pcs s)(i := after_try r)\<rparr>)"
| sleep: "pcs s i = Locking \<Longrightarrow> \<not> new_obj_ready (shared s) \<Longrightarrow>
     thread_step m exns s (s\<lparr>pcs := (pcs s)(i := Sleeping)\<rparr>)"
| take_ready: "pcs s i = Locking \<Longrightarrow> new_obj_ready (shared s) \<Longrightarrow> possible exns mk (shared s) \<Longrightarrow>
     do_try_borrow_one m mk (shared s) = (r, p) \<Longrightarrow>
     thread_step m exns s (s\<lparr>shared := p, pcs := (pcs s)(i := after_wait r)\<rparr>)"
| wake: "pcs s i = Sleeping \<Longrightarrow>
     thread_step m exns s (s\<lparr>pcs := (pcs s)(i := Locking)\<rparr>)"
| release: "pcs s i = Holding a \<Longrightarrow> release_one a (shared s) = (r, p) \<Longrightarrow>
     thread_step m exns s (s\<lparr>shared := p, pcs := (pcs s)(i := after_release r)\<rparr>)"
| notify: "pcs s i = Notifying \<Longrightarrow> pcs s j = Sleeping \<Longrightarrow>
     thread_step m exns s (s\<lparr>pcs := (pcs s)(i := Idle, j := Locking)\<rparr>)"
| notify_nobody: "pcs s i = Notifying \<Longrightarrow> (\<And>j. pcs s j \<noteq> Sleeping) \<Longrightarrow>
     thread_step m exns s (s\<lparr>pcs := (pcs s)(i := Idle)\<rparr>)"

inductive threads_reach :: "nat \<Rightarrow> error set \<Rightarrow> 'o thread_sys \<Rightarrow> bool" for m exns where
  start: "threads_reach m exns init_threads"
| step: "threads_reach m exns s \<Longrightarrow> thread_step m exns s t \<Longrightarrow> threads_reach m exns t"

inductive_cases thread_stepE: "thread_step m exns s t"

section \<open>The invariant\<close>

fun holding :: "thread_pc \<Rightarrow> addr option" where
  "holding (Holding a) = Some a"
| "holding _ = None"

text \<open>
  The pool is well formed; the flag says free only when something is free; the lent objects are those
  some thread holds, each held by one thread; and a thread only fails with an exception of the
  constructor.
\<close>

definition thread_inv :: "nat \<Rightarrow> error set \<Rightarrow> 'o thread_sys \<Rightarrow> bool" where
  "thread_inv m exns s \<longleftrightarrow>
     pool_ok m (shared s) \<and>
     (new_obj_ready (shared s) \<longrightarrow> free_list (shared s) \<noteq> []) \<and>
     exact_holders (holding \<circ> pcs s) (lent (shared s)) \<and>
     (\<forall>i e. pcs s i = Failed e \<longrightarrow> e \<in> exns)"

lemma thread_inv_init: "thread_inv m exns init_threads"
proof -
  have "lent (empty_thread_pool :: 'o thread_pool) = {}"
    by (simp add: lent_def empty_thread_pool_def empty_list_def)
  moreover have "pool_rep m (empty_thread_pool :: 'o thread_pool) []"
    by (simp add: pool_rep_def empty_thread_pool_def rep_empty_list)
  ultimately show ?thesis
    by (auto simp: thread_inv_def init_threads_def pool_ok_def empty_thread_pool_def
        exact_holders_def comp_def)
qed

lemma lending_keeps_flag:
  assumes "m < 2 ^ 64" and "pool_ok m p" and "fresh_for mk p" and "do_try_borrow_one m mk p = (r, p')"
    and "new_obj_ready p \<longrightarrow> free_list p \<noteq> []"
  shows "new_obj_ready p' \<longrightarrow> free_list p' \<noteq> []"
proof -
  obtain q where q: "coro_do_try_borrow_one m mk p = (r, q)" "p' = after_lending r q"
    using assms(4) by (rule thread_borrow_split)
  show ?thesis
    using thread_contract(2,3) [OF assms(1-4)] assms(5) q(2)
    by (cases r rule: optional_result_cases) auto
qed

lemma ready_pool_lends:
  assumes "pool_ok m p" and "free_list p \<noteq> []"
  shows "\<exists>a p'. do_try_borrow_one m mk p = (Inr (Some a), p')"
proof -
  obtain l where "pool_rep m p l" using assms(1) by (auto simp: pool_ok_def)
  moreover obtain a rest where "free_list p = a # rest" using assms(2) by (cases "free_list p") auto
  ultimately obtain q where "coro_do_try_borrow_one m mk p = (Inr (Some a), q)"
    using take_free_rep by metis
  then show ?thesis by (simp add: thread_borrow_eq)
qed

text \<open>What a step that borrows does to the invariant, for either of the two places that borrow.\<close>

lemma thread_inv_borrow:
  assumes inv: "thread_inv m exns s" and m: "m < 2 ^ 64" and i: "holding (pcs s i) = None"
    and mk: "possible exns mk (shared s)" and eq: "do_try_borrow_one m mk (shared s) = (r, p)"
    and pc: "holding pc = (case r of Inr x \<Rightarrow> x | _ \<Rightarrow> None)" "\<And>e. pc = Failed e \<Longrightarrow> e \<in> exns"
  shows "thread_inv m exns (s\<lparr>shared := p, pcs := (pcs s)(i := pc)\<rparr>)"
proof -
  have ok: "pool_ok m (shared s)" and flag: "new_obj_ready (shared s) \<longrightarrow> free_list (shared s) \<noteq> []"
    and h: "exact_holders (holding \<circ> pcs s) (lent (shared s))"
    and f: "\<forall>i e. pcs s i = Failed e \<longrightarrow> e \<in> exns"
    using inv by (auto simp: thread_inv_def)
  have fresh: "fresh_for mk (shared s)" using mk by (simp add: possible_def)
  note c = thread_contract [OF m ok fresh eq]
  have "pool_ok m p \<and> exact_holders ((holding \<circ> pcs s)(i := holding pc)) (lent p)"
  proof (cases r rule: optional_result_cases)
    case (some a)
    with c(1) h i pc(1) show ?thesis by (auto intro: exact_take)
  next
    case none
    with c(2) ok h i pc(1) show ?thesis by (auto intro: exact_same)
  next
    case (exn e)
    with c(3) ok h i pc(1) show ?thesis by (auto intro: exact_same)
  qed
  then show ?thesis
    using lending_keeps_flag [OF m ok fresh eq flag] f pc(2)
    by (auto simp: thread_inv_def fun_upd_comp split: if_splits)
qed

lemma thread_inv_move:
  assumes "thread_inv m exns s" and "holding (pcs s i) = None" and "holding pc = None"
    and "\<And>e. pc \<noteq> Failed e"
  shows "thread_inv m exns (s\<lparr>pcs := (pcs s)(i := pc)\<rparr>)"
  using assms by (auto simp: thread_inv_def fun_upd_comp intro: exact_same)

lemma thread_step_inv:
  assumes "thread_step m exns s t" and "m < 2 ^ 64" and "thread_inv m exns s"
  shows "thread_inv m exns t"
  using assms
proof (induction rule: thread_step.induct)
  case (attempt s i mk r p)
  have ok: "pool_ok m (shared s)" and mk: "possible exns mk (shared s)"
    using attempt by (auto simp: thread_inv_def)
  have "after_try r = Failed e \<Longrightarrow> e \<in> exns" for e
    using thread_borrow_exception [OF attempt.prems(1) ok, of mk e p] attempt.hyps(3) mk
    by (auto simp: after_try_def possible_def split: sum.splits option.splits)
  then show ?case
    using attempt by (intro thread_inv_borrow) (auto simp: after_try_def split: sum.splits option.splits)
next
  case (sleep s i)
  then show ?case by (intro thread_inv_move) auto
next
  case (take_ready s i mk r p)
  then obtain a where "r = Inr (Some a)"
    using ready_pool_lends [of m "shared s" mk] by (auto simp: thread_inv_def)
  then show ?case
    using take_ready by (intro thread_inv_borrow) (auto simp: after_wait_def)
next
  case (wake s i)
  then show ?case by (intro thread_inv_move) auto
next
  case (release s i a r p)
  have h: "exact_holders (holding \<circ> pcs s) (lent (shared s))" and ok: "pool_ok m (shared s)"
    using release.prems(2) by (auto simp: thread_inv_def)
  have a: "a \<in> lent (shared s)" using exact_in [OF h, of i a] release.hyps(1) by simp
  have c: "r = Inr ()" "pool_ok m p" "lent p = lent (shared s) - {a}"
    using thread_release_contract [OF ok a] release.hyps(2) by auto
  have "free_list p \<noteq> []"
    using release.hyps(2) by (auto simp: release_one_def Let_def split: sum.splits)
  moreover have "exact_holders ((holding \<circ> pcs s)(i := None)) (lent p)"
    unfolding c(3) using h release.hyps(1) by (intro exact_give) auto
  ultimately show ?case
    using release.prems(2) c by (auto simp: thread_inv_def fun_upd_comp after_release_def)
next
  case (notify s i j)
  then have "thread_inv m exns (s\<lparr>pcs := (pcs s)(i := Idle)\<rparr>)"
    by (intro thread_inv_move) auto
  then have "thread_inv m exns (s\<lparr>pcs := (pcs s)(i := Idle), pcs := ((pcs s)(i := Idle))(j := Locking)\<rparr>)"
    using notify.hyps thread_inv_move [of m exns "s\<lparr>pcs := (pcs s)(i := Idle)\<rparr>" j Locking] by auto
  then show ?case by simp
next
  case (notify_nobody s i)
  then show ?case by (intro thread_inv_move) auto
qed

lemma threads_reach_inv: "threads_reach m exns s \<Longrightarrow> m < 2 ^ 64 \<Longrightarrow> thread_inv m exns s"
proof (induction rule: threads_reach.induct)
  case start
  show ?case by (rule thread_inv_init)
next
  case (step s t)
  then show ?case by (blast intro: thread_step_inv)
qed

section \<open>Runs\<close>

text \<open>A schedule names the next step of a thread; running it gives a reachable state.\<close>

datatype 'o schedule = Try nat "'o construction" | Sleep nat | Wake nat | Take nat "'o construction" | Release nat | Notify nat nat

fun run_step :: "nat \<Rightarrow> 'o schedule \<Rightarrow> 'o thread_sys \<Rightarrow> 'o thread_sys option" where
  "run_step m (Try i mk) s =
     (if pcs s i = Idle \<and> fresh_for mk (shared s) \<and> \<not> isl mk then
        (let (r, p) = do_try_borrow_one m mk (shared s)
         in Some (s\<lparr>shared := p, pcs := (pcs s)(i := after_try r)\<rparr>))
      else None)"
| "run_step m (Sleep i) s =
     (if pcs s i = Locking \<and> \<not> new_obj_ready (shared s)
      then Some (s\<lparr>pcs := (pcs s)(i := Sleeping)\<rparr>) else None)"
| "run_step m (Wake i) s =
     (if pcs s i = Sleeping then Some (s\<lparr>pcs := (pcs s)(i := Locking)\<rparr>) else None)"
| "run_step m (Take i mk) s =
     (if pcs s i = Locking \<and> new_obj_ready (shared s) \<and> fresh_for mk (shared s) \<and> \<not> isl mk then
        (let (r, p) = do_try_borrow_one m mk (shared s)
         in Some (s\<lparr>shared := p, pcs := (pcs s)(i := after_wait r)\<rparr>))
      else None)"
| "run_step m (Release i) s =
     (case pcs s i of
        Holding a \<Rightarrow>
          (let (r, p) = release_one a (shared s)
           in Some (s\<lparr>shared := p, pcs := (pcs s)(i := after_release r)\<rparr>))
      | _ \<Rightarrow> None)"
| "run_step m (Notify i j) s =
     (if pcs s i = Notifying \<and> pcs s j = Sleeping
      then Some (s\<lparr>pcs := (pcs s)(i := Idle, j := Locking)\<rparr>) else None)"

fun run_schedule :: "nat \<Rightarrow> 'o schedule list \<Rightarrow> 'o thread_sys \<Rightarrow> 'o thread_sys option" where
  "run_schedule m [] s = Some s"
| "run_schedule m (x # xs) s = Option.bind (run_step m x s) (run_schedule m xs)"

lemma possible_success: "fresh_for mk p \<Longrightarrow> \<not> isl mk \<Longrightarrow> possible exns mk p"
  by (auto simp: possible_def)

lemma run_step_sound: "run_step m x s = Some t \<Longrightarrow> thread_step m exns s t"
proof (induction m x s rule: run_step.induct)
  case (1 m i mk s)
  then show ?case
    using thread_step.attempt [of s i exns mk m] possible_success [of mk "shared s" exns]
    by (auto simp: Let_def split: if_splits prod.splits)
next
  case (4 m i mk s)
  then show ?case
    using thread_step.take_ready [of s i exns mk m] possible_success [of mk "shared s" exns]
    by (auto simp: Let_def split: if_splits prod.splits)
qed (auto simp: Let_def split: if_splits prod.splits thread_pc.splits intro: thread_step.intros)

lemma run_schedule_reach:
  "threads_reach m exns s \<Longrightarrow> run_schedule m xs s = Some t \<Longrightarrow> threads_reach m exns t"
proof (induction xs arbitrary: s)
  case (Cons x xs)
  then obtain u where "run_step m x s = Some u" "run_schedule m xs u = Some t"
    by (auto simp: bind_eq_Some_conv)
  with Cons show ?case by (meson run_step_sound threads_reach.step)
qed simp

text \<open>
  Two objects, four threads: threads 0 and 1 hold the objects, 2 and 3 wait; 0 and 1 release and
  notify, which wakes 2 and 3; 2 borrows an object, and 3, checking again, goes back to sleep.
\<close>

definition lost_wakeup_schedule :: "nat schedule list" where
  "lost_wakeup_schedule =
     [Try 0 (Inr (1, 10)), Try 1 (Inr (2, 20)), Try 2 (Inr (3, 30)), Try 3 (Inr (3, 30)),
      Sleep 2, Sleep 3, Release 0, Release 1, Notify 0 2, Notify 1 3, Take 2 (Inr (3, 30)), Sleep 3]"

lemmas pool_eval = do_try_borrow_one.simps mark_object_def iter_of_data_def set_extra_info_def
  read_node_def write_node_def write_if_def new_obj_to_buffer_def push_back_def push_one_def iter_end_def
  newest_object_def iter_dec_def iter_data_ptr_def tlist_size_def release_one_def Let_def

lemma lost_wakeup_run:
  "\<exists>s. run_schedule 2 lost_wakeup_schedule init_threads = Some s \<and>
     pcs s = (\<lambda>_. Idle)(2 := Holding 2, 3 := Sleeping) \<and> free_list (shared s) = [1] \<and>
     \<not> new_obj_ready (shared s)"
  unfolding lost_wakeup_schedule_def
  by (simp add: init_threads_def empty_thread_pool_def empty_list_def fresh_for_def after_try_def
      after_wait_def after_release_def pool_eval) (simp add: fun_eq_iff)

section \<open>Properties\<close>

lemma exact_holders_card:
  assumes "exact_holders h L" and "finite L"
  shows "finite (dom h)" and "card (dom h) = card L"
proof -
  have inj: "inj_on (the \<circ> h) (dom h)"
    using assms(1) by (auto simp: exact_holders_def inj_on_def dom_def)
  have img: "(the \<circ> h) ` dom h = L"
    using assms(1) by (force simp: exact_holders_def ran_def dom_def image_iff)
  show "finite (dom h)" using inj img assms(2) finite_image_iff by metis
  show "card (dom h) = card L" using card_image [OF inj] img by simp
qed

lemma pool_ok_bound: "pool_ok m p \<Longrightarrow> finite (lent p) \<and> card (lent p) \<le> m"
proof -
  assume "pool_ok m p"
  then obtain l where r: "pool_rep m p l" by (auto simp: pool_ok_def)
  have "finite (lent p)" using lent_cases(2) [OF r] finite_subset by blast
  then show ?thesis using card_lent [OF r] pool_rep_length [OF r] by simp
qed

lemma holding_iff [simp]: "holding pc = Some a \<longleftrightarrow> pc = Holding a"
  by (cases pc) auto

lemma dom_holding: "dom (holding \<circ> pcs s) = {i. \<exists>a. pcs s i = Holding a}"
  by (auto simp: dom_def)

text \<open>One thread that borrowed, for the witnesses.\<close>

lemma one_borrower:
  "\<exists>s :: nat thread_sys. threads_reach 1 exns s \<and> pcs s = (\<lambda>_. Idle)(0 := Holding 5) \<and> lent (shared s) = {5}"
proof -
  have "\<exists>s. run_schedule 1 [Try 0 (Inr (5, 10 :: nat))] init_threads = Some s \<and>
      pcs s = (\<lambda>_. Idle)(0 := Holding 5) \<and>
      cells (buffer (shared s)) = [5 \<mapsto> \<lparr>data = 10, prev = None, nxt = None, extra_info = False,
        magic = node_magic\<rparr>]"
    by (simp add: init_threads_def empty_thread_pool_def empty_list_def fresh_for_def after_try_def
        pool_eval)
  then obtain s where s: "run_schedule 1 [Try 0 (Inr (5, 10 :: nat))] init_threads = Some s"
    "pcs s = (\<lambda>_. Idle)(0 := Holding 5)"
    "cells (buffer (shared s)) = [5 \<mapsto> \<lparr>data = 10, prev = None, nxt = None, extra_info = False,
        magic = node_magic\<rparr>]" by blast
  have "lent (shared s) = {5}" unfolding lent_def s(3) by (auto split: if_splits)
  then show ?thesis using run_schedule_reach [OF threads_reach.start s(1)] s(2) by blast
qed

text \<open>
  C8: in every interleaving, no two threads hold the same object, the held objects are exactly the lent
  ones, and at most \<open>max_size\<close> threads hold one.
\<close>

theorem thread_pool_mutual_exclusion:
  assumes "threads_reach (unat (m :: 64 word)) exns s"
  shows "(\<forall>i j a. pcs s i = Holding a \<and> pcs s j = Holding a \<longrightarrow> i = j) \<and>
    lent (shared s) = {a. \<exists>i. pcs s i = Holding a} \<and>
    finite {i. \<exists>a. pcs s i = Holding a} \<and> card {i. \<exists>a. pcs s i = Holding a} \<le> unat m"
proof -
  have inv: "thread_inv (unat m) exns s" by (rule threads_reach_inv [OF assms unat_64])
  then have h: "exact_holders (holding \<circ> pcs s) (lent (shared s))" and ok: "pool_ok (unat m) (shared s)"
    by (simp_all add: thread_inv_def)
  have "i = j" if "pcs s i = Holding a" "pcs s j = Holding a" for i j a
    using exact_one [OF h, of i a j] that by simp
  moreover have "lent (shared s) = {a. \<exists>i. pcs s i = Holding a}"
    using exact_in [OF h] exact_someone [OF h] by auto
  moreover note exact_holders_card [OF h] pool_ok_bound [OF ok]
  ultimately show ?thesis unfolding dom_holding by auto
qed

theorem thread_pool_mutual_exclusion_witness:
  "\<exists>s :: nat thread_sys. threads_reach 1 {} s \<and> pcs s 0 = Holding 5 \<and>
     lent (shared s) = {a. \<exists>i. pcs s i = Holding a} \<and> card {i. \<exists>a. pcs s i = Holding a} \<le> 1"
proof -
  obtain s :: "nat thread_sys" where s: "threads_reach 1 {} s" "pcs s = (\<lambda>_. Idle)(0 := Holding 5)"
    using one_borrower by blast
  have "threads_reach (unat (1 :: 64 word)) {} s" using s(1) by simp
  from thread_pool_mutual_exclusion [OF this] have p: "lent (shared s) = {a. \<exists>i. pcs s i = Holding a}"
    "card {i. \<exists>a. pcs s i = Holding a} \<le> unat (1 :: 64 word)" by blast+
  have "card {i. \<exists>a. pcs s i = Holding a} \<le> 1" using p(2) by (simp only: unsigned_1)
  moreover have "pcs s 0 = Holding 5" using s(2) by simp
  ultimately show ?thesis using s(1) p(1) by (intro exI [of _ s] conjI)
qed

text \<open>
  A thread in \<open>borrow_one\<close> or \<open>release_one\<close> only ever fails with an exception of the constructor:
  the \<open>logic_error\<close> after the wait (``unknown par error''), the magic number check and undefined
  behaviour are not reachable in any interleaving.
\<close>

theorem thread_pool_errors_are_constructor_errors:
  assumes "threads_reach (unat (m :: 64 word)) exns s" and "pcs s i = Failed e"
  shows "e \<in> exns"
  using threads_reach_inv [OF assms(1) unat_64] assms(2) by (auto simp: thread_inv_def)

theorem thread_pool_errors_are_constructor_errors_witness:
  "\<exists>s :: nat thread_sys. threads_reach 1 {Runtime_Error ''refused''} s \<and>
     pcs s 0 = Failed (Runtime_Error ''refused'') \<and>
     Runtime_Error ''refused'' \<in> {Runtime_Error ''refused''}"
proof -
  let ?e = "Runtime_Error ''refused''"
  have run: "do_try_borrow_one 1 (Inl ?e) (shared (init_threads :: nat thread_sys))
      = (Inl ?e, shared init_threads)"
    by (simp add: init_threads_def empty_thread_pool_def empty_list_def pool_eval)
  have "possible {?e} (Inl ?e) (shared (init_threads :: nat thread_sys))"
    by (simp add: possible_def fresh_for_def)
  moreover define t where "t = (init_threads :: nat thread_sys)\<lparr>shared := shared init_threads,
      pcs := (pcs (init_threads :: nat thread_sys))(0 := after_try (Inl ?e))\<rparr>"
  ultimately have "thread_step 1 {?e} init_threads t"
    unfolding t_def using run by (intro thread_step.attempt) (auto simp: init_threads_def)
  then have "threads_reach 1 {?e} t" by (rule threads_reach.step [OF threads_reach.start])
  moreover have "pcs t 0 = Failed ?e" by (simp add: t_def after_try_def)
  ultimately show ?thesis using thread_pool_errors_are_constructor_errors [of 1 "{?e}" t 0 ?e] by auto
qed

text \<open>
  C32: the thread pool can lose a wakeup. With two objects and four threads there is a reachable state
  in which an object is free, thread 3 sleeps on the condition variable, and no thread is about to
  notify it or to check the flag; \<open>new_obj_ready\<close> is down although the free list is not empty, so even
  if thread 3 wakes with no notification its only step is back to sleep.
\<close>

theorem thread_pool_lost_wakeup:
  "\<exists>s :: nat thread_sys. threads_reach 2 {} s \<and> free_list (shared s) \<noteq> [] \<and> pcs s 3 = Sleeping \<and>
     \<not> new_obj_ready (shared s) \<and> (\<forall>i. pcs s i \<noteq> Notifying \<and> pcs s i \<noteq> Locking) \<and>
     thread_step 2 {} (s\<lparr>pcs := (pcs s)(3 := Locking)\<rparr>) s"
proof -
  obtain s where s: "run_schedule 2 lost_wakeup_schedule init_threads = Some s"
    "pcs s = (\<lambda>_. Idle)(2 := Holding 2, 3 := Sleeping)" "free_list (shared s) = [1]"
    "\<not> new_obj_ready (shared s)"
    using lost_wakeup_run by blast
  let ?t = "s\<lparr>pcs := (pcs s)(3 := Locking)\<rparr>"
  have "thread_step 2 {} ?t (?t\<lparr>pcs := (pcs ?t)(3 := Sleeping)\<rparr>)"
    using s(4) by (intro thread_step.sleep) auto
  moreover have "?t\<lparr>pcs := (pcs ?t)(3 := Sleeping)\<rparr> = s"
    using s(2) by (simp add: fun_upd_idem)
  ultimately have "thread_step 2 {} ?t s" by simp
  moreover have "threads_reach 2 {} s" by (rule run_schedule_reach [OF threads_reach.start s(1)])
  ultimately show ?thesis using s by (intro exI [of _ s]) auto
qed

end
