(* ===== verification/Asio_Event.thy ===== *)
theory Asio_Event
  imports Prelude
begin

text \<open>
  \<open>boost::asio::event\<close> of lib/boost_asio_event.hpp: an event made of a timer that never expires. The
  timer itself is Boost's; it enters as a record of its operations, and what the event relies on is
  \<open>timer_laws\<close>, which states Boost's documentation: a wait adds a handler, \<open>cancel_one\<close> completes one
  pending wait, in first-in-first-out order, \<open>cancel\<close> completes them all, and a timer that expires at
  infinity completes none on its own.
\<close>

record ('t, 'h) timer_api =
  new_timer :: 't
  expires_at_infinity :: "'t \<Rightarrow> 't"
  timer_async_wait :: "'h \<Rightarrow> 't \<Rightarrow> 't"
  timer_cancel_one :: "'t \<Rightarrow> 'h list \<times> 't"
  timer_cancel :: "'t \<Rightarrow> 'h list \<times> 't"

definition event_new :: "('t, 'h) timer_api \<Rightarrow> 't" where
  "event_new api = expires_at_infinity api (new_timer api)"

definition event_async_wait :: "('t, 'h) timer_api \<Rightarrow> 'h \<Rightarrow> 't \<Rightarrow> 't" where
  "event_async_wait api handler t = timer_async_wait api handler t"

definition event_notify_one :: "('t, 'h) timer_api \<Rightarrow> 't \<Rightarrow> 'h list \<times> 't" where
  "event_notify_one api t = timer_cancel_one api t"

definition event_notify_all :: "('t, 'h) timer_api \<Rightarrow> 't \<Rightarrow> 'h list \<times> 't" where
  "event_notify_all api t = timer_cancel api t"

definition timer_laws :: "('t, 'h) timer_api \<Rightarrow> ('t \<Rightarrow> 'h list) \<Rightarrow> bool" where
  "timer_laws api pending \<longleftrightarrow>
     pending (expires_at_infinity api (new_timer api)) = [] \<and>
     (\<forall>h t. pending (timer_async_wait api h t) = pending t @ [h]) \<and>
     (\<forall>t. fst (timer_cancel_one api t) = take 1 (pending t) \<and>
          pending (snd (timer_cancel_one api t)) = drop 1 (pending t)) \<and>
     (\<forall>t. fst (timer_cancel api t) = pending t \<and> pending (snd (timer_cancel api t)) = [])"

lemma event_new_pending: "timer_laws api pending \<Longrightarrow> pending (event_new api) = []"
  by (simp add: timer_laws_def event_new_def)

lemma event_wait_pending:
  "timer_laws api pending \<Longrightarrow> pending (event_async_wait api h t) = pending t @ [h]"
  by (simp add: timer_laws_def event_async_wait_def)

lemma event_notify_one_pending:
  "timer_laws api pending \<Longrightarrow> event_notify_one api t = (hs, t') \<Longrightarrow>
   hs = take 1 (pending t) \<and> pending t' = drop 1 (pending t)"
  by (auto simp: timer_laws_def event_notify_one_def dest: spec [of _ t])

text \<open>A timer that meets the laws: the list of its pending handlers.\<close>

definition list_timer :: "('h list, 'h) timer_api" where
  "list_timer =
     \<lparr>new_timer = [], expires_at_infinity = (\<lambda>t. t), timer_async_wait = (\<lambda>h t. t @ [h]),
      timer_cancel_one = (\<lambda>t. (take 1 t, drop 1 t)), timer_cancel = (\<lambda>t. (t, []))\<rparr>"

lemma list_timer_laws: "timer_laws list_timer (\<lambda>t. t)"
  by (simp add: timer_laws_def list_timer_def)

text \<open>
  An event wakes its waiters one by one, in the order they came: after \<open>notify_one\<close> for each of
  them, each was woken once and none is left; a notification with no waiter is not remembered.
\<close>

fun notify_times :: "nat \<Rightarrow> ('t, 'h) timer_api \<Rightarrow> 't \<Rightarrow> 'h list \<times> 't" where
  "notify_times 0 api t = ([], t)"
| "notify_times (Suc n) api t =
     (let (hs, t1) = event_notify_one api t; (ks, t2) = notify_times n api t1 in (hs @ ks, t2))"

theorem event_wakes_in_order:
  assumes "timer_laws api pending"
  shows "fst (notify_times n api (foldl (\<lambda>t h. event_async_wait api h t) (event_new api) hs)) = take n hs \<and>
    pending (snd (notify_times n api (foldl (\<lambda>t h. event_async_wait api h t) (event_new api) hs))) = drop n hs"
proof -
  have waits: "pending (foldl (\<lambda>t h. event_async_wait api h t) t hs) = pending t @ hs" for t
    by (induction hs arbitrary: t) (simp_all add: event_wait_pending [OF assms])
  have "fst (notify_times n api t) = take n (pending t) \<and>
      pending (snd (notify_times n api t)) = drop n (pending t)" for t
  proof (induction n arbitrary: t)
    case (Suc n)
    obtain xs t1 where "event_notify_one api t = (xs, t1)" by force
    with event_notify_one_pending [OF assms this] Suc.IH [of t1] show ?case
      by (cases "pending t") (auto simp: split: prod.splits)
  qed simp
  then show ?thesis by (simp add: waits event_new_pending [OF assms])
qed

theorem event_wakes_in_order_witness:
  "fst (notify_times 2 list_timer
     (foldl (\<lambda>t h. event_async_wait list_timer h t) (event_new list_timer) [7, 8, 9 :: nat])) = [7, 8]"
  using event_wakes_in_order [OF list_timer_laws, of 2 "[7, 8, 9 :: nat]"] by simp

end
