(* ===== verification/Pool_Coro.thy ===== *)
theory Pool_Coro
  imports Object_Pool Asio_Event
begin

text \<open>
  \<open>fixed_object_pool_coro\<close> of lib/pool.hpp under coroutines: \<open>borrow_one\<close>, which waits on the event and
  tries again, and \<open>release_one\<close>, which notifies it. \<open>coro_step\<close> interleaves at every point where
  another thread of the io_context can run: between the failed attempt and the wait, and between the
  release and the notification. \<open>single_step\<close> is the io_context run by one thread (the default): a
  coroutine only gives way where it waits, so the attempt and the wait that follows it are one step,
  and so are the release and its notification.
\<close>

section \<open>The steps\<close>

datatype coro_pc =
  Resting | Entering | Waiting | Woken | Holding addr | Notifying | Failed error

record ('o, 't) coro_sys =
  cpool :: "'o pool"
  event :: 't
  coros :: "nat \<Rightarrow> coro_pc"

definition init_coros :: "('t, nat) timer_api \<Rightarrow> ('o, 't) coro_sys" where
  "init_coros api = \<lparr>cpool = empty_pool, event = event_new api, coros = (\<lambda>_. Resting)\<rparr>"

text \<open>After an attempt: the object, or on to the wait (again), or the constructor's exception.\<close>

definition after_attempt :: "addr option result \<Rightarrow> coro_pc" where
  "after_attempt r = (case r of Inl e \<Rightarrow> Failed e | Inr None \<Rightarrow> Entering | Inr (Some a) \<Rightarrow> Holding a)"

definition after_give_back :: "unit result \<Rightarrow> coro_pc" where
  "after_give_back r = (case r of Inl e \<Rightarrow> Failed e | Inr _ \<Rightarrow> Notifying)"

definition wake_all :: "nat list \<Rightarrow> (nat \<Rightarrow> coro_pc) \<Rightarrow> nat \<Rightarrow> coro_pc" where
  "wake_all hs f i = (if i \<in> set hs then Woken else f i)"

definition admits :: "error set \<Rightarrow> 'o construction \<Rightarrow> 'o pool \<Rightarrow> bool" where
  "admits exns mk p \<longleftrightarrow> fresh_for mk p \<and> (\<forall>e. mk = Inl e \<longrightarrow> e \<in> exns)"

text \<open>The first attempt of \<open>borrow_one\<close>, and the one after the event woke it.\<close>

inductive coro_step ::
  "('t, nat) timer_api \<Rightarrow> nat \<Rightarrow> error set \<Rightarrow> ('o, 't) coro_sys \<Rightarrow> ('o, 't) coro_sys \<Rightarrow> bool"
  for api m exns where
  attempt: "coros s i = Resting \<or> coros s i = Woken \<Longrightarrow> admits exns mk (cpool s) \<Longrightarrow>
     coro_do_try_borrow_one m mk (cpool s) = (r, p) \<Longrightarrow>
     coro_step api m exns s (s\<lparr>cpool := p, coros := (coros s)(i := after_attempt r)\<rparr>)"
| enter: "coros s i = Entering \<Longrightarrow>
     coro_step api m exns s
       (s\<lparr>event := event_async_wait api i (event s), coros := (coros s)(i := Waiting)\<rparr>)"
| give_back: "coros s i = Holding a \<Longrightarrow> coro_release_one a (cpool s) = (r, p) \<Longrightarrow>
     coro_step api m exns s (s\<lparr>cpool := p, coros := (coros s)(i := after_give_back r)\<rparr>)"
| signal: "coros s i = Notifying \<Longrightarrow> event_notify_one api (event s) = (hs, t) \<Longrightarrow>
     coro_step api m exns s
       (s\<lparr>event := t, coros := wake_all hs ((coros s)(i := Resting))\<rparr>)"

inductive coros_reach ::
  "('t, nat) timer_api \<Rightarrow> nat \<Rightarrow> error set \<Rightarrow> ('o, 't) coro_sys \<Rightarrow> bool" for api m exns where
  start: "coros_reach api m exns (init_coros api)"
| step: "coros_reach api m exns s \<Longrightarrow> coro_step api m exns s t \<Longrightarrow> coros_reach api m exns t"

text \<open>One thread: a step runs until the coroutine waits, is done, or was left by an exception.\<close>

inductive single_step ::
  "('t, nat) timer_api \<Rightarrow> nat \<Rightarrow> error set \<Rightarrow> ('o, 't) coro_sys \<Rightarrow> ('o, 't) coro_sys \<Rightarrow> bool"
  for api m exns where
  borrowed: "coros s i = Resting \<or> coros s i = Woken \<Longrightarrow> admits exns mk (cpool s) \<Longrightarrow>
     coro_do_try_borrow_one m mk (cpool s) = (r, p) \<Longrightarrow> r \<noteq> Inr None \<Longrightarrow>
     single_step api m exns s (s\<lparr>cpool := p, coros := (coros s)(i := after_attempt r)\<rparr>)"
| starved: "coros s i = Resting \<or> coros s i = Woken \<Longrightarrow> admits exns mk (cpool s) \<Longrightarrow>
     coro_do_try_borrow_one m mk (cpool s) = (Inr None, p) \<Longrightarrow>
     single_step api m exns s
       (s\<lparr>cpool := p, event := event_async_wait api i (event s), coros := (coros s)(i := Waiting)\<rparr>)"
| returned: "coros s i = Holding a \<Longrightarrow> coro_release_one a (cpool s) = (Inr (), p) \<Longrightarrow>
     event_notify_one api (event s) = (hs, t) \<Longrightarrow>
     single_step api m exns s
       (s\<lparr>cpool := p, event := t, coros := wake_all hs ((coros s)(i := Resting))\<rparr>)"
| refused: "coros s i = Holding a \<Longrightarrow> coro_release_one a (cpool s) = (Inl e, p) \<Longrightarrow>
     single_step api m exns s (s\<lparr>cpool := p, coros := (coros s)(i := Failed e)\<rparr>)"

inductive single_reach ::
  "('t, nat) timer_api \<Rightarrow> nat \<Rightarrow> error set \<Rightarrow> ('o, 't) coro_sys \<Rightarrow> bool" for api m exns where
  start: "single_reach api m exns (init_coros api)"
| step: "single_reach api m exns s \<Longrightarrow> single_step api m exns s t \<Longrightarrow> single_reach api m exns t"

section \<open>One thread is a special case\<close>

lemma single_step_is_coro_steps:
  assumes "single_step api m exns s t" and "coros_reach api m exns s"
  shows "coros_reach api m exns t"
  using assms
proof (induction rule: single_step.induct)
  case (borrowed s i mk r p)
  from coros_reach.step [OF borrowed.prems coro_step.attempt [OF borrowed.hyps(1,2,3)]] show ?case .
next
  case (starved s i mk p)
  let ?u = "s\<lparr>cpool := p, coros := (coros s)(i := Entering)\<rparr>"
  have "coros_reach api m exns ?u"
    using coros_reach.step [OF starved.prems coro_step.attempt [OF starved.hyps]]
    by (simp add: after_attempt_def)
  from coros_reach.step [OF this coro_step.enter [of ?u i]] show ?case by simp
next
  case (returned s i a p hs t)
  let ?u = "s\<lparr>cpool := p, coros := (coros s)(i := Notifying)\<rparr>"
  have "coros_reach api m exns ?u"
    using coros_reach.step [OF returned.prems coro_step.give_back [OF returned.hyps(1,2)]]
    by (simp add: after_give_back_def)
  from coros_reach.step [OF this coro_step.signal [of ?u i]] returned.hyps(3) show ?case by simp
next
  case (refused s i a e p)
  from coros_reach.step [OF refused.prems coro_step.give_back [OF refused.hyps]] show ?case
    by (simp add: after_give_back_def)
qed

lemma single_reach_coros: "single_reach api m exns s \<Longrightarrow> coros_reach api m exns s"
  by (induction rule: single_reach.induct)
    (auto intro: coros_reach.start single_step_is_coro_steps)

section \<open>The invariant of every interleaving\<close>

fun coro_holding :: "coro_pc \<Rightarrow> addr option" where
  "coro_holding (Holding a) = Some a"
| "coro_holding _ = None"

lemma coro_holding_iff [simp]: "coro_holding pc = Some a \<longleftrightarrow> pc = Holding a"
  by (cases pc) auto

text \<open>
  The pool is well formed, the lent objects are those held, each by one coroutine, the waiting
  coroutines are those whose handler is pending on the event, each once, and a coroutine only fails with
  an exception of the constructor.
\<close>

definition coro_inv ::
  "('t \<Rightarrow> nat list) \<Rightarrow> nat \<Rightarrow> error set \<Rightarrow> ('o, 't) coro_sys \<Rightarrow> bool" where
  "coro_inv pending m exns s \<longleftrightarrow>
     pool_ok m (cpool s) \<and>
     exact_holders (coro_holding \<circ> coros s) (lent (cpool s)) \<and>
     set (pending (event s)) = {i. coros s i = Waiting} \<and> distinct (pending (event s)) \<and>
     (\<forall>i e. coros s i = Failed e \<longrightarrow> e \<in> exns)"

lemma coro_inv_init: "timer_laws api pending \<Longrightarrow> coro_inv pending m exns (init_coros api)"
proof -
  assume "timer_laws api pending"
  moreover have "lent (empty_pool :: 'o pool) = {}"
    by (simp add: lent_def empty_pool_def empty_list_def)
  ultimately show ?thesis
    using empty_pool_ok [of m]
    by (auto simp: coro_inv_def init_coros_def exact_holders_def comp_def event_new_pending)
qed

lemma coro_inv_pool: "coro_inv pending m exns s \<Longrightarrow> pool_ok m (cpool s)"
  and coro_inv_holders: "coro_inv pending m exns s \<Longrightarrow> exact_holders (coro_holding \<circ> coros s) (lent (cpool s))"
  and coro_inv_waiting: "coro_inv pending m exns s \<Longrightarrow> set (pending (event s)) = {i. coros s i = Waiting}"
  and coro_inv_distinct: "coro_inv pending m exns s \<Longrightarrow> distinct (pending (event s))"
  and coro_inv_failed: "coro_inv pending m exns s \<Longrightarrow> coros s i = Failed e \<Longrightarrow> e \<in> exns"
  by (simp_all add: coro_inv_def)

lemma wake_all_holders:
  "(\<And>i. i \<in> set hs \<Longrightarrow> coro_holding (f i) = None) \<Longrightarrow>
   coro_holding \<circ> wake_all hs f = coro_holding \<circ> f"
  by (auto simp: wake_all_def fun_eq_iff)

lemma coro_step_inv:
  fixes s :: "('o, 't) coro_sys"
  assumes "coro_step api m exns s t" and "m < 2 ^ 64" and "timer_laws api pending"
    and "coro_inv pending m exns s"
  shows "coro_inv pending m exns t"
  using assms
proof (induction rule: coro_step.induct)
  case (attempt s i mk r p)
  note inv = attempt.prems(3)
  have fresh: "fresh_for mk (cpool s)" and mk: "\<And>e. mk = Inl e \<Longrightarrow> e \<in> exns"
    using attempt.hyps(2) by (auto simp: admits_def)
  note c = coro_contract [OF attempt.prems(1) coro_inv_pool [OF inv] fresh attempt.hyps(3)]
  note h = coro_inv_holders [OF inv]
  have i: "(coro_holding \<circ> coros s) i = None" "coros s i \<noteq> Waiting" using attempt.hyps(1) by auto
  have P: "pool_ok m p \<and> exact_holders ((coro_holding \<circ> coros s)(i := coro_holding (after_attempt r))) (lent p)"
  proof (cases r rule: optional_result_cases)
    case (some a)
    with c(1) show ?thesis by (auto simp: after_attempt_def intro: exact_take [OF h i(1)])
  next
    case none
    with c(2) coro_inv_pool [OF inv] show ?thesis
      by (auto simp: after_attempt_def intro: exact_same [OF h i(1)])
  next
    case (exn e)
    with c(3) coro_inv_pool [OF inv] show ?thesis
      by (auto simp: after_attempt_def intro: exact_same [OF h i(1)])
  qed
  have F: "e \<in> exns" if "after_attempt r = Failed e" for e
  proof -
    have "r = Inl e" using that by (auto simp: after_attempt_def split: sum.splits option.splits)
    then show ?thesis
      using coro_borrow_exception [OF attempt.prems(1) coro_inv_pool [OF inv] fresh] attempt.hyps(3) mk
      by auto
  qed
  have W: "after_attempt r \<noteq> Waiting" by (auto simp: after_attempt_def split: sum.splits option.splits)
  show ?case
    using P F W i(2) coro_inv_waiting [OF inv] coro_inv_distinct [OF inv] coro_inv_failed [OF inv]
    by (auto simp: coro_inv_def fun_upd_comp)
next
  case (enter s i)
  note inv = enter.prems(3)
  show ?case
    using enter.hyps exact_same [OF coro_inv_holders [OF inv], of i] coro_inv_pool [OF inv]
      coro_inv_waiting [OF inv] coro_inv_distinct [OF inv] coro_inv_failed [OF inv]
    by (auto simp: coro_inv_def fun_upd_comp event_wait_pending [OF enter.prems(2)])
next
  case (give_back s i a r p)
  note inv = give_back.prems(3)
  have a: "a \<in> lent (cpool s)" using exact_in [OF coro_inv_holders [OF inv], of i a] give_back.hyps(1) by simp
  have c: "r = Inr ()" "pool_ok m p" "lent p = lent (cpool s) - {a}"
    using coro_release_contract [OF coro_inv_pool [OF inv] a] give_back.hyps(2) by auto
  show ?case
    using c give_back.hyps(1) exact_give [OF coro_inv_holders [OF inv], of i a]
      coro_inv_waiting [OF inv] coro_inv_distinct [OF inv] coro_inv_failed [OF inv]
    by (auto simp: coro_inv_def fun_upd_comp after_give_back_def)
next
  case (signal s i hs t)
  note inv = signal.prems(3)
  have hs: "hs = take 1 (pending (event s))" "pending t = drop 1 (pending (event s))"
    using event_notify_one_pending [OF signal.prems(2) signal.hyps(2)] by auto
  have W: "set hs \<subseteq> {j. coros s j = Waiting}"
    using hs(1) coro_inv_waiting [OF inv] set_take_subset by fastforce
  have i: "i \<notin> set hs" using W signal.hyps(1) by auto
  have "coro_holding \<circ> wake_all hs ((coros s)(i := Resting)) = (coro_holding \<circ> coros s)(i := None)"
    using W by (subst wake_all_holders) (auto simp: fun_upd_comp)
  then have H: "exact_holders (coro_holding \<circ> wake_all hs ((coros s)(i := Resting))) (lent (cpool s))"
    using exact_same [OF coro_inv_holders [OF inv], of i] signal.hyps(1) by simp
  have "set (pending t) = {j. wake_all hs ((coros s)(i := Resting)) j = Waiting}"
  proof -
    have split: "pending (event s) = hs @ pending t" using hs by simp
    have "set (pending t) = {j. coros s j = Waiting} - set hs"
      using coro_inv_waiting [OF inv] coro_inv_distinct [OF inv] unfolding split by auto
    also have "\<dots> = {j. wake_all hs ((coros s)(i := Resting)) j = Waiting}"
      using signal.hyps(1) by (auto simp: wake_all_def)
    finally show ?thesis .
  qed
  then show ?case
    using H coro_inv_pool [OF inv] coro_inv_distinct [OF inv] coro_inv_failed [OF inv]
    by (auto simp: coro_inv_def hs(2) wake_all_def split: if_splits)
qed

lemma coros_reach_inv:
  "coros_reach api m exns s \<Longrightarrow> m < 2 ^ 64 \<Longrightarrow> timer_laws api pending \<Longrightarrow> coro_inv pending m exns s"
proof (induction rule: coros_reach.induct)
  case start
  then show ?case by (intro coro_inv_init)
next
  case (step s t)
  then show ?case by (blast intro: coro_step_inv)
qed

text \<open>An object is taken by a coroutine that asks for it, and only when nobody holds it.\<close>

lemma coro_step_takes:
  assumes "coro_step api m exns s t" and "m < 2 ^ 64" and "coro_inv pending m exns s"
    and "coros t i = Holding a" and "coros s i \<noteq> Holding a"
  shows "coros s j \<noteq> Holding a" and "coros s i = Resting \<or> coros s i = Woken"
proof -
  have "coros s j \<noteq> Holding a \<and> (coros s i = Resting \<or> coros s i = Woken)"
    using assms
  proof (induction rule: coro_step.induct)
    case (attempt s k mk r p)
    then have k: "k = i" "after_attempt r = Holding a" by (auto split: if_splits)
    then have r: "r = Inr (Some a)" by (auto simp: after_attempt_def split: sum.splits option.splits)
    have "fresh_for mk (cpool s)" using attempt.hyps(2) by (simp add: admits_def)
    from coro_contract(1) [OF attempt.prems(1) coro_inv_pool [OF attempt.prems(2)] this attempt.hyps(3) r]
    have "a \<notin> lent (cpool s)" by blast
    then show ?case
      using exact_in [OF coro_inv_holders [OF attempt.prems(2)], of j a] k attempt.hyps(1) by auto
  qed (auto simp: after_give_back_def wake_all_def split: if_splits sum.splits)
  then show "coros s j \<noteq> Holding a" and "coros s i = Resting \<or> coros s i = Woken" by blast+
qed

text \<open>A coroutine that is after an object got there from rest, or was already after one.\<close>

definition seeking :: "coro_pc \<Rightarrow> bool" where
  "seeking pc \<longleftrightarrow> pc = Entering \<or> pc = Waiting \<or> pc = Woken"

lemma coro_step_seeks:
  assumes "coro_step api m exns s t" and "timer_laws api pending" and "coro_inv pending m exns s"
    and "seeking (coros t i)"
  shows "coros s i = Resting \<or> seeking (coros s i)"
  using assms
proof (induction rule: coro_step.induct)
  case (signal s k hs u)
  have "hs = take 1 (pending (event s))"
    using event_notify_one_pending [OF signal.prems(1) signal.hyps(2)] by auto
  then have "set hs \<subseteq> {j. coros s j = Waiting}"
    using coro_inv_waiting [OF signal.prems(2)] set_take_subset by fastforce
  with signal.prems(3) show ?case by (auto simp: seeking_def wake_all_def split: if_splits)
qed (auto simp: seeking_def after_give_back_def split: if_splits sum.splits)

section \<open>One thread loses no wakeup\<close>

text \<open>
  As long as somebody waits there are at most as many free objects as coroutines already woken: every
  release with a waiter wakes one, and a coroutine starts to wait only when nothing is free.
\<close>

definition no_lost_wakeup :: "('t \<Rightarrow> nat list) \<Rightarrow> ('o, 't) coro_sys \<Rightarrow> bool" where
  "no_lost_wakeup pending s \<longleftrightarrow>
     finite {i. coros s i = Woken} \<and>
     (pending (event s) \<noteq> [] \<longrightarrow> length (free_list (cpool s)) \<le> card {i. coros s i = Woken})"

lemma coro_borrow_free_list:
  assumes "m < 2 ^ 64" and "pool_ok m p" and "fresh_for mk p"
    and "coro_do_try_borrow_one m mk p = (r, p')"
  shows "free_list p' = tl (free_list p)" and "r = Inr None \<Longrightarrow> free_list p = []"
proof -
  obtain l where r: "pool_rep m p l" using assms(2) by (auto simp: pool_ok_def)
  show "free_list p' = tl (free_list p)" and "r = Inr None \<Longrightarrow> free_list p = []"
    by (rule borrow_cases [OF r assms(1,3,4)]; simp)+
qed

lemma woken_leaves:
  assumes "finite {j. f j = Woken}" and "pc \<noteq> Woken"
  shows "finite {j. (f(i := pc)) j = Woken}"
    and "card {j. (f(i := pc)) j = Woken} = card {j. f j = Woken} - (if f i = Woken then 1 else 0)"
proof -
  have eq: "{j. (f(i := pc)) j = Woken} = {j. f j = Woken} - {i}" using assms(2) by auto
  show "finite {j. (f(i := pc)) j = Woken}" unfolding eq using assms(1) by simp
  show "card {j. (f(i := pc)) j = Woken} = card {j. f j = Woken} - (if f i = Woken then 1 else 0)"
    unfolding eq using assms(1) by (simp add: card_Diff_singleton_if)
qed

lemma single_step_no_lost_wakeup:
  fixes s :: "('o, 't) coro_sys"
  assumes "single_step api m exns s t" and "m < 2 ^ 64" and "timer_laws api pending"
    and "coro_inv pending m exns s" and "no_lost_wakeup pending s"
  shows "no_lost_wakeup pending t"
  using assms
proof (induction rule: single_step.induct)
  case (borrowed s i mk r p)
  have fresh: "fresh_for mk (cpool s)" using borrowed.hyps(2) by (simp add: admits_def)
  have free: "free_list p = tl (free_list (cpool s))"
    using coro_borrow_free_list(1) [OF borrowed.prems(1) coro_inv_pool [OF borrowed.prems(3)] fresh
      borrowed.hyps(3)] .
  have pc: "after_attempt r \<noteq> Woken" by (auto simp: after_attempt_def split: sum.splits option.splits)
  show ?case
    using borrowed.prems(4) woken_leaves [of "coros s" "after_attempt r" i] pc free
    by (auto simp: no_lost_wakeup_def simp del: fun_upd_apply)
next
  case (starved s i mk p)
  have fresh: "fresh_for mk (cpool s)" using starved.hyps(2) by (simp add: admits_def)
  note f = coro_borrow_free_list [OF starved.prems(1) coro_inv_pool [OF starved.prems(3)] fresh starved.hyps(3)]
  show ?case
    using starved.prems(4) woken_leaves(1) [of "coros s" Waiting i] f
    by (auto simp: no_lost_wakeup_def simp del: fun_upd_apply)
next
  case (returned s i a p hs t)
  note inv = returned.prems(3)
  have free: "free_list p = a # free_list (cpool s)"
    using returned.hyps(2) by (auto simp: coro_release_one_def Let_def split: sum.splits)
  have hs: "hs = take 1 (pending (event s))" "pending t = drop 1 (pending (event s))"
    using event_notify_one_pending [OF returned.prems(2) returned.hyps(3)] by auto
  have W: "set hs \<subseteq> {j. coros s j = Waiting}"
    using hs(1) coro_inv_waiting [OF inv] set_take_subset by fastforce
  let ?W = "{j. coros s j = Woken}"
  have eq: "{j. wake_all hs ((coros s)(i := Resting)) j = Woken} = set hs \<union> ?W"
    using returned.hyps(1) by (auto simp: wake_all_def)
  have disj: "set hs \<inter> ?W = {}" using W by auto
  have fin: "finite ?W" using returned.prems(4) by (simp add: no_lost_wakeup_def)
  have "card (set hs \<union> ?W) = length hs + card ?W"
    using card_Un_disjoint [OF _ fin disj] distinct_card [of hs] coro_inv_distinct [OF inv] hs(1)
    by simp
  moreover have "length hs = 1" if "pending t \<noteq> []"
    using that hs by (cases "pending (event s)") auto
  moreover have "pending (event s) \<noteq> []" if "pending t \<noteq> []" using that hs by auto
  ultimately show ?case
    using returned.prems(4) fin free by (auto simp: no_lost_wakeup_def eq)
next
  case (refused s i a e p)
  have "a \<in> lent (cpool s)"
    using exact_in [OF coro_inv_holders [OF refused.prems(3)], of i a] refused.hyps(1) by simp
  then show ?case
    using coro_release_contract [OF coro_inv_pool [OF refused.prems(3)]] refused.hyps(2) by fastforce
qed

lemma single_reach_no_lost_wakeup:
  "single_reach api m exns s \<Longrightarrow> m < 2 ^ 64 \<Longrightarrow> timer_laws api pending \<Longrightarrow> no_lost_wakeup pending s"
proof (induction rule: single_reach.induct)
  case start
  then show ?case by (simp add: no_lost_wakeup_def init_coros_def event_new_pending)
next
  case (step s t)
  then show ?case
    using single_step_no_lost_wakeup [OF step.hyps(2)] coros_reach_inv [OF single_reach_coros [OF step.hyps(1)]]
    by blast
qed

section \<open>Runs of a pool of one object\<close>

lemma wake_all_simps [simp]:
  "wake_all [] f = f" "wake_all (h # hs) f = (wake_all hs f)(h := Woken)"
  by (auto simp: wake_all_def fun_eq_iff)

definition one_lent :: "nat pool" where
  "one_lent =
     \<lparr>buffer = \<lparr>cells = [5 \<mapsto> \<lparr>data = 10, prev = None, nxt = None, extra_info = False, magic = node_magic\<rparr>],
                head = Some 5, tail = Some 5, m_size = 1\<rparr>, free_list = []\<rparr>"

definition one_free :: "nat pool" where
  "one_free =
     \<lparr>buffer = \<lparr>cells = [5 \<mapsto> \<lparr>data = 10, prev = None, nxt = None, extra_info = True, magic = node_magic\<rparr>],
                head = Some 5, tail = Some 5, m_size = 1\<rparr>, free_list = [5]\<rparr>"

lemmas coro_eval = coro_do_try_borrow_one.simps mark_object_def iter_of_data_def set_extra_info_def
  read_node_def write_node_def write_if_def new_obj_to_buffer_def push_back_def push_one_def iter_end_def
  newest_object_def iter_dec_def iter_data_ptr_def tlist_size_def coro_release_one_def Let_def

lemma one_object_runs:
  "coro_do_try_borrow_one 1 (Inr (5, 10)) empty_pool = (Inr (Some 5), one_lent)"
  "coro_do_try_borrow_one 1 mk one_lent = (Inr None, one_lent)"
  "coro_do_try_borrow_one 1 mk one_free = (Inr (Some 5), one_lent)"
  "coro_release_one 5 one_lent = (Inr (), one_free)"
  by (simp_all add: one_lent_def one_free_def empty_pool_def empty_list_def coro_eval)

lemma admits_one:
  "admits exns (Inr (5, 10)) empty_pool" "admits exns (Inr (6, 11)) one_lent"
  "admits exns (Inr (6, 11)) one_free"
  by (simp_all add: admits_def fresh_for_def empty_pool_def empty_list_def one_lent_def one_free_def)

lemma list_event_simps [simp]:
  "event_new list_timer = []" "event_async_wait list_timer h t = t @ [h]"
  "event_notify_one list_timer t = (take 1 t, drop 1 t)"
  by (simp_all add: event_new_def event_async_wait_def event_notify_one_def list_timer_def)

text \<open>Coroutine 0 holds the one object.\<close>

definition held_by_0 :: "(nat, nat list) coro_sys" where
  "held_by_0 = \<lparr>cpool = one_lent, event = [], coros = (\<lambda>_. Resting)(0 := Holding 5)\<rparr>"

lemma held_by_0_reach: "single_reach list_timer 1 exns held_by_0"
proof -
  have "single_step list_timer 1 exns (init_coros list_timer) held_by_0"
    using single_step.borrowed [of "init_coros list_timer" 0 exns "Inr (5, 10)" 1 "Inr (Some 5)" one_lent list_timer]
    by (simp add: init_coros_def one_object_runs admits_one held_by_0_def after_attempt_def del: One_nat_def)
  then show ?thesis by (rule single_reach.step [OF single_reach.start])
qed

text \<open>Coroutine 1 attempts, fails and waits while 0 holds the object.\<close>

definition waiting_1 :: "(nat, nat list) coro_sys" where
  "waiting_1 = held_by_0\<lparr>event := [1], coros := (coros held_by_0)(1 := Waiting)\<rparr>"

lemma waiting_1_reach: "single_reach list_timer 1 exns waiting_1"
proof -
  have "single_step list_timer 1 exns held_by_0 waiting_1"
    using single_step.starved [of held_by_0 1 exns "Inr (6, 11)" 1 one_lent list_timer]
    by (simp add: held_by_0_def one_object_runs admits_one waiting_1_def del: One_nat_def)
  then show ?thesis by (rule single_reach.step [OF held_by_0_reach])
qed

section \<open>Properties\<close>

text \<open>
  C9: in every interleaving of any number of threads, the coroutine pool never lends one object to two
  coroutines, lends exactly what is held and never more than \<open>max_size\<close>, and a coroutine fails only
  with an exception of the constructor.
\<close>

theorem coro_pool_mutual_exclusion:
  assumes "coros_reach api (unat (m :: 64 word)) exns s" and "timer_laws api pending"
  shows "(\<forall>i j a. coros s i = Holding a \<and> coros s j = Holding a \<longrightarrow> i = j) \<and>
    lent (cpool s) = {a. \<exists>i. coros s i = Holding a} \<and> card (lent (cpool s)) \<le> unat m \<and>
    (\<forall>i e. coros s i = Failed e \<longrightarrow> e \<in> exns)"
proof -
  have inv: "coro_inv pending (unat m) exns s" by (rule coros_reach_inv [OF assms(1) unat_64 assms(2)])
  note h = coro_inv_holders [OF inv]
  obtain l where r: "pool_rep (unat m) (cpool s) l"
    using coro_inv_pool [OF inv] by (auto simp: pool_ok_def)
  have "i = j" if "coros s i = Holding a" "coros s j = Holding a" for i j a
    using exact_one [OF h, of i a j] that by simp
  moreover have "lent (cpool s) = {a. \<exists>i. coros s i = Holding a}"
    using exact_in [OF h] exact_someone [OF h] by auto
  moreover have "card (lent (cpool s)) \<le> unat m"
    using card_lent [OF r] pool_rep_length [OF r] by simp
  ultimately show ?thesis using coro_inv_failed [OF inv] by blast
qed

theorem coro_pool_mutual_exclusion_witness:
  "lent (cpool held_by_0) = {a. \<exists>i. coros held_by_0 i = Holding a} \<and> card (lent (cpool held_by_0)) \<le> 1"
proof -
  have "coros_reach list_timer (unat (1 :: 64 word)) {} held_by_0"
    using single_reach_coros [OF held_by_0_reach] by simp
  from coro_pool_mutual_exclusion [OF this list_timer_laws, unfolded unsigned_1] show ?thesis by blast
qed

text \<open>
  C13: when one thread runs the io_context, no wakeup is lost: as long as a coroutine waits for an object,
  at most as many objects are free as coroutines have been woken and not run yet. In particular a
  coroutine does not wait next to a free object unless one was woken to take it.
\<close>

theorem single_thread_loses_no_wakeup:
  assumes "single_reach api (unat (m :: 64 word)) exns s" and "timer_laws api pending"
    and "coros s i = Waiting"
  shows "finite {j. coros s j = Woken} \<and> length (free_list (cpool s)) \<le> card {j. coros s j = Woken} \<and>
    (free_list (cpool s) \<noteq> [] \<longrightarrow> (\<exists>j. coros s j = Woken))"
proof -
  have n: "no_lost_wakeup pending s" by (rule single_reach_no_lost_wakeup [OF assms(1) unat_64 assms(2)])
  have "i \<in> set (pending (event s))"
    using coro_inv_waiting [OF coros_reach_inv [OF single_reach_coros [OF assms(1)] unat_64 assms(2)]]
      assms(3) by simp
  then have p: "pending (event s) \<noteq> []" by auto
  have "\<exists>j. coros s j = Woken" if "free_list (cpool s) \<noteq> []"
  proof (rule ccontr)
    assume "\<not> (\<exists>j. coros s j = Woken)"
    then have "card {j. coros s j = Woken} = 0" by simp
    with n p that show False by (simp add: no_lost_wakeup_def)
  qed
  then show ?thesis using n p by (auto simp: no_lost_wakeup_def)
qed

theorem single_thread_loses_no_wakeup_witness:
  "coros waiting_1 1 = Waiting \<and> length (free_list (cpool waiting_1)) \<le> card {j. coros waiting_1 j = Woken}"
proof -
  have "single_reach list_timer (unat (1 :: 64 word)) {} waiting_1" using waiting_1_reach by simp
  moreover have "coros waiting_1 1 = Waiting" by (simp add: waiting_1_def)
  ultimately show ?thesis using single_thread_loses_no_wakeup [OF _ list_timer_laws, of 1 "{}" waiting_1 1]
    by blast
qed

text \<open>
  C33: with more than one thread a wakeup can be lost: a coroutine that failed its attempt may reach the
  wait after the release that would have woken it. There is a reachable state in which the one object is
  free, coroutine 1 waits, and nobody else is doing anything: no coroutine is woken, or about to notify.
\<close>

theorem coro_pool_lost_wakeup_with_threads:
  "\<exists>s :: (nat, nat list) coro_sys. coros_reach list_timer 1 {} s \<and> coros s 1 = Waiting \<and>
     free_list (cpool s) \<noteq> [] \<and> {i. coros s i \<noteq> Resting} = {1}"
proof -
  let ?f = "\<lambda>_ :: nat. Resting"
  define s1 where "s1 = \<lparr>cpool = one_lent, event = [] :: nat list, coros = ?f(0 := Holding 5, 1 := Entering)\<rparr>"
  define s2 where "s2 = \<lparr>cpool = one_free, event = [] :: nat list, coros = ?f(0 := Notifying, 1 := Entering)\<rparr>"
  define s3 where "s3 = \<lparr>cpool = one_free, event = [] :: nat list, coros = ?f(1 := Entering)\<rparr>"
  define s4 where "s4 = \<lparr>cpool = one_free, event = [1 :: nat], coros = ?f(1 := Waiting)\<rparr>"
  have "coro_step list_timer 1 {} held_by_0 s1"
    using coro_step.attempt [of held_by_0 1 "{}" "Inr (6, 11)" 1 "Inr None" one_lent list_timer]
    by (simp add: held_by_0_def s1_def one_object_runs admits_one after_attempt_def del: One_nat_def)
  then have r1: "coros_reach list_timer 1 {} s1"
    by (rule coros_reach.step [OF single_reach_coros [OF held_by_0_reach]])
  have "coro_step list_timer 1 {} s1 s2"
    using coro_step.give_back [of s1 0 5 "Inr ()" one_free list_timer 1 "{}"]
    by (simp add: s1_def s2_def one_object_runs after_give_back_def fun_upd_twist del: One_nat_def)
  then have r2: "coros_reach list_timer 1 {} s2" by (rule coros_reach.step [OF r1])
  have "coro_step list_timer 1 {} s2 s3"
    using coro_step.signal [of s2 0 list_timer "[]" "[]" 1 "{}"]
    by (simp add: s2_def s3_def fun_upd_twist fun_upd_idem del: One_nat_def)
  then have r3: "coros_reach list_timer 1 {} s3" by (rule coros_reach.step [OF r2])
  have "coro_step list_timer 1 {} s3 s4"
    using coro_step.enter [of s3 1 list_timer 1 "{}"] by (simp add: s3_def s4_def del: One_nat_def)
  then have "coros_reach list_timer 1 {} s4" by (rule coros_reach.step [OF r3])
  then show ?thesis by (intro exI [of _ s4]) (simp add: s4_def one_free_def)
qed

text \<open>
  The ``fake awake'' the code reports and works around happens already with one thread, and is no
  fault of the event: a coroutine that asks while another was woken but has not run yet takes the object
  first. There is a reachable state with a woken coroutine and a pool that has nothing to lend.
\<close>

theorem fake_awake_is_reachable:
  "\<exists>s :: (nat, nat list) coro_sys. single_reach list_timer 1 {} s \<and> coros s 1 = Woken \<and>
     coro_do_try_borrow_one 1 (Inr (6, 11)) (cpool s) = (Inr None, cpool s)"
proof -
  let ?f = "\<lambda>_ :: nat. Resting"
  define s1 where "s1 = \<lparr>cpool = one_free, event = [] :: nat list, coros = ?f(1 := Woken)\<rparr>"
  define s2 where "s2 = \<lparr>cpool = one_lent, event = [] :: nat list, coros = ?f(1 := Woken, 2 := Holding 5)\<rparr>"
  have "single_step list_timer 1 {} waiting_1 s1"
    using single_step.returned [of waiting_1 0 5 one_free list_timer "[1]" "[]" 1 "{}"]
    by (simp add: waiting_1_def held_by_0_def s1_def one_object_runs fun_upd_twist fun_upd_idem
        del: One_nat_def)
  then have r1: "single_reach list_timer 1 {} s1" by (rule single_reach.step [OF waiting_1_reach])
  have "single_step list_timer 1 {} s1 s2"
    using single_step.borrowed [of s1 2 "{}" "Inr (6, 11)" 1 "Inr (Some 5)" one_lent list_timer]
    by (simp add: s1_def s2_def one_object_runs admits_one after_attempt_def del: One_nat_def)
  then have "single_reach list_timer 1 {} s2" by (rule single_reach.step [OF r1])
  then show ?thesis by (intro exI [of _ s2]) (simp add: s2_def one_object_runs del: One_nat_def)
qed

end
