(* ===== verification/Pool_Progress.thy ===== *)
theory Pool_Progress
  imports Pool_Coro
begin

text \<open>
  What becomes of a coroutine that waits on \<open>fixed_object_pool_coro\<close> (lib/pool.hpp), on one thread: from
  every reachable state there is a way on in which it gets an object. So the pool does not deadlock. It does
  promise no more: newcomers may take the object before a woken coroutine runs (\<open>fake_awake_is_reachable\<close>).
\<close>

section \<open>Single steps that are always possible\<close>

lemma some_construction:
  assumes "pool_ok m p"
  shows "\<exists>mk. admits exns mk p"
proof -
  obtain l where r: "pool_rep m p l" using assms by (auto simp: pool_ok_def)
  obtain a where "a \<notin> set (addrs l)" using ex_new_if_finite [of "set (addrs l)"] by auto
  then have "fresh_for (Inr (a, x)) p" for x using fresh_rep [OF pool_rep_buffer [OF r]] by blast
  then show ?thesis unfolding admits_def by blast
qed

text \<open>The holder of an object can give it back; the first waiter is woken.\<close>

lemma holder_returns:
  assumes "coro_inv pending m exns s" and "timer_laws api pending" and "coros s j = Holding a"
  obtains t where "single_step api m exns s t" and "free_list (cpool t) = a # free_list (cpool s)"
    and "pending (event t) = drop 1 (pending (event s))"
    and "coros t = wake_all (take 1 (pending (event s))) ((coros s)(j := Resting))"
proof -
  obtain l where r: "pool_rep m (cpool s) l" using coro_inv_pool [OF assms(1)] by (auto simp: pool_ok_def)
  have "a \<in> lent (cpool s)" using exact_in [OF coro_inv_holders [OF assms(1)], of j a] assms(3) by simp
  then obtain p where p: "coro_release_one a (cpool s) = (Inr (), p)" "free_list p = a # free_list (cpool s)"
    using release_rep [OF r] by blast
  obtain hs u where e: "event_notify_one api (event s) = (hs, u)" by force
  have hs: "hs = take 1 (pending (event s))" "pending u = drop 1 (pending (event s))"
    using event_notify_one_pending [OF assms(2) e] by blast+
  show thesis
    by (rule that [OF single_step.returned [OF assms(3) p(1) e]]) (simp_all add: p(2) hs)
qed

text \<open>A coroutine at rest or woken takes the first free object.\<close>

lemma free_is_taken:
  fixes s :: "('o, 't) coro_sys"
  assumes "coro_inv pending m exns s" and "coros s j = Resting \<or> coros s j = Woken"
    and "free_list (cpool s) = a # rest"
  obtains t where "single_step api m exns s t" and "coros t = (coros s)(j := Holding a)" and "event t = event s"
proof -
  obtain l where r: "pool_rep m (cpool s) l" using coro_inv_pool [OF assms(1)] by (auto simp: pool_ok_def)
  obtain mk :: "'o construction" where mk: "admits exns mk (cpool s)"
    using some_construction [OF coro_inv_pool [OF assms(1)]] by blast
  obtain p where "coro_do_try_borrow_one m mk (cpool s) = (Inr (Some a), p)"
    using take_free_rep [OF r assms(3)] .
  from single_step.borrowed [OF assms(2) mk this, of api] that show thesis by (simp add: after_attempt_def)
qed

section \<open>A waiter can be served\<close>

lemma single_reach_steps: "(single_step api m exns)\<^sup>*\<^sup>* s t \<Longrightarrow> single_reach api m exns s \<Longrightarrow> single_reach api m exns t"
  by (induction rule: rtranclp_induct) (auto intro: single_reach.step)

lemma single_reach_inv:
  "single_reach api m exns s \<Longrightarrow> m < 2 ^ 64 \<Longrightarrow> timer_laws api pending \<Longrightarrow> coro_inv pending m exns s"
  by (rule coros_reach_inv [OF single_reach_coros])

text \<open>By the waiter's place in the queue: as long as somebody holds an object, the queue can move.\<close>

lemma served_from_holder:
  fixes s :: "('o, 't) coro_sys"
  assumes m: "m < 2 ^ 64" and laws: "timer_laws api pending"
  shows "single_reach api m exns s \<Longrightarrow> pending (event s) = before @ i # after \<Longrightarrow> coros s j = Holding a \<Longrightarrow>
    \<exists>t b. (single_step api m exns)\<^sup>*\<^sup>* s t \<and> coros t i = Holding b"
proof (induction before arbitrary: s j a)
  case Nil
  note inv = single_reach_inv [OF Nil.prems(1) m laws]
  obtain t where t: "single_step api m exns s t" "free_list (cpool t) = a # free_list (cpool s)"
    "coros t = wake_all (take 1 (pending (event s))) ((coros s)(j := Resting))"
    using holder_returns [OF inv laws Nil.prems(3)] by metis
  have "coros t i = Woken" using t(3) Nil.prems(2) by simp
  then obtain u where "single_step api m exns t u" "coros u = (coros t)(i := Holding a)"
    using free_is_taken [OF single_reach_inv [OF single_reach.step [OF Nil.prems(1) t(1)] m laws] _ t(2)] by metis
  then show ?case using t(1) by (metis fun_upd_same r_into_rtranclp rtranclp.rtrancl_into_rtrancl)
next
  case (Cons k before)
  note inv = single_reach_inv [OF Cons.prems(1) m laws]
  obtain t where t: "single_step api m exns s t" "free_list (cpool t) = a # free_list (cpool s)"
    "pending (event t) = drop 1 (pending (event s))"
    "coros t = wake_all (take 1 (pending (event s))) ((coros s)(j := Resting))"
    using holder_returns [OF inv laws Cons.prems(3)] by metis
  have reach: "single_reach api m exns t" by (rule single_reach.step [OF Cons.prems(1) t(1)])
  have "coros t k = Woken" using t(4) Cons.prems(2) by simp
  then obtain u where u: "single_step api m exns t u" "coros u = (coros t)(k := Holding a)" "event u = event t"
    using free_is_taken [OF single_reach_inv [OF reach m laws] _ t(2)] by metis
  have "pending (event u) = before @ i # after" "coros u k = Holding a"
    using u(2,3) t(3) Cons.prems(2) by simp_all
  from Cons.IH [OF single_reach.step [OF reach u(1)] this] t(1) u(1) show ?case
    by (meson converse_rtranclp_into_rtranclp)
qed

text \<open>Nobody waits at a pool without objects.\<close>

definition pool_not_empty :: "('o, 't) coro_sys \<Rightarrow> bool" where
  "pool_not_empty s \<longleftrightarrow> (\<exists>i. coros s i = Waiting) \<longrightarrow> lent (cpool s) \<union> set (free_list (cpool s)) \<noteq> {}"

lemma waiting_at_objects:
  fixes s :: "('o, 't) coro_sys"
  assumes "single_reach api m exns s" and "m < 2 ^ 64" and "0 < m" and "timer_laws api pending"
  shows "pool_not_empty s"
  using assms
proof (induction rule: single_reach.induct)
  case start
  then show ?case by (simp add: pool_not_empty_def init_coros_def)
next
  case (step s t)
  note inv = single_reach_inv [OF step.hyps(1) step.prems(1,3)] and IH = step.IH [OF step.prems]
  obtain l where r: "pool_rep m (cpool s) l" using coro_inv_pool [OF inv] by (auto simp: pool_ok_def)
  show ?case
    using step.hyps(2)
  proof cases
    case (borrowed i mk x p)
    have "fresh_for mk (cpool s)" using borrowed(3) by (simp add: admits_def)
    note c = coro_contract [OF step.prems(1) coro_inv_pool [OF inv] this borrowed(4)]
    show ?thesis
    proof (cases x rule: optional_result_cases)
      case (some a)
      then show ?thesis using c(1) borrowed(1) by (simp add: pool_not_empty_def)
    next
      case none
      then show ?thesis using borrowed(5) by simp
    next
      case (exn e)
      then have "p = cpool s" "\<forall>j. coros t j = Waiting \<longrightarrow> coros s j = Waiting"
        using c(3) borrowed(1) by (auto simp: after_attempt_def)
      then show ?thesis using IH borrowed(1) exn by (auto simp: pool_not_empty_def after_attempt_def)
    qed
  next
    case (starved i mk p)
    have "fresh_for mk (cpool s)" using starved(3) by (simp add: admits_def)
    then have "l \<noteq> [] \<and> p = cpool s" using step.prems(2) by (auto intro: borrow_cases [OF r step.prems(1) _ starved(4)])
    then have "lent p \<union> set (free_list p) \<noteq> {}" using lent_cases(4) [OF r] by auto
    then show ?thesis using starved(1) by (simp add: pool_not_empty_def)
  next
    case (returned i a p hs u)
    then have "free_list p \<noteq> []" by (auto simp: coro_release_one_def Let_def split: sum.splits)
    then show ?thesis using returned(1) by (simp add: pool_not_empty_def)
  next
    case (refused i a e p)
    have "a \<in> lent (cpool s)" using exact_in [OF coro_inv_holders [OF inv], of i a] refused(2) by simp
    then show ?thesis using coro_release_contract [OF coro_inv_pool [OF inv]] refused(3) by fastforce
  qed
qed

section \<open>Properties\<close>

text \<open>
  C14: on one thread a waiting coroutine is never stuck: from every reachable state in which it waits
  there is a run that serves it, in which the holders before it give their objects back and the
  coroutines woken before it take theirs.
\<close>

theorem waiting_coroutine_can_be_served:
  assumes "single_reach api (unat (m :: 64 word)) exns s" and "timer_laws api pending" and "0 < m"
    and "coros s i = Waiting"
  shows "\<exists>t a. (single_step api (unat m) exns)\<^sup>*\<^sup>* s t \<and> coros t i = Holding a"
proof -
  note m = unat_64 [of m]
  note inv = single_reach_inv [OF assms(1) m assms(2)]
  have "i \<in> set (pending (event s))" using coro_inv_waiting [OF inv] assms(4) by simp
  then obtain before after where q: "pending (event s) = before @ i # after" by (auto simp: in_set_conv_decomp)
  show ?thesis
  proof (cases "\<exists>j a. coros s j = Holding a")
    case True
    then show ?thesis using served_from_holder [OF m assms(2,1) q] by blast
  next
    case False
    then have "lent (cpool s) = {}" using exact_someone [OF coro_inv_holders [OF inv]] by fastforce
    moreover have "0 < unat m" using assms(3) by (simp add: unat_gt_0)
    ultimately obtain a rest where a: "free_list (cpool s) = a # rest"
      using waiting_at_objects [OF assms(1) m _ assms(2)] assms(4)
      by (cases "free_list (cpool s)") (auto simp: pool_not_empty_def)
    have "\<exists>j. coros s j = Woken"
    proof (rule ccontr)
      assume "\<not> (\<exists>j. coros s j = Woken)"
      then have "card {j. coros s j = Woken} = 0" by simp
      with single_reach_no_lost_wakeup [OF assms(1) m assms(2)] q a show False by (simp add: no_lost_wakeup_def)
    qed
    then obtain j where "coros s j = Woken" ..
    then obtain t where t: "single_step api (unat m) exns s t" "coros t = (coros s)(j := Holding a)" "event t = event s"
      using free_is_taken [OF inv _ a] by metis
    then have "pending (event t) = before @ i # after" "coros t j = Holding a" using q by simp_all
    from served_from_holder [OF m assms(2) single_reach.step [OF assms(1) t(1)] this] t(1) show ?thesis
      by (meson converse_rtranclp_into_rtranclp)
  qed
qed

theorem waiting_coroutine_can_be_served_witness:
  "\<exists>t a. (single_step list_timer 1 {})\<^sup>*\<^sup>* waiting_1 t \<and> coros t 1 = Holding a"
proof -
  have "single_reach list_timer (unat (1 :: 64 word)) {} waiting_1" using waiting_1_reach by simp
  moreover have "coros waiting_1 1 = Waiting" by (simp add: waiting_1_def)
  ultimately show ?thesis
    using waiting_coroutine_can_be_served [OF _ list_timer_laws, of 1 "{}" waiting_1 1] by simp
qed

end
