(* ===== verification/Rlib.thy ===== *)
theory Rlib
  imports Prelude
begin

text \<open>
  The string library the agent is written with (rlib, a git submodule that is not part of the
  repository's own sources) as a record of the operations the agent calls. What the agent relies on is
  \<open>rlib_laws\<close>, which states the documented behaviour of each operation by comparing it with a reference
  function. The definitions of the other theories take the record as an argument; \<open>plain_rlib\<close> is a
  concrete one that meets the laws. Also here: the \<open>find\<close>, \<open>substr\<close> and decimal printing of the C++
  standard library.
\<close>

section \<open>The operations\<close>

record rlib =
  rl_split :: "char \<Rightarrow> string \<Rightarrow> string list"
  rl_join :: "string \<Rightarrow> string list \<Rightarrow> string"
  rl_replace :: "string \<Rightarrow> string \<Rightarrow> string \<Rightarrow> string"
  rl_format :: "string \<Rightarrow> string list \<Rightarrow> string"
  rl_as_u16 :: "string \<Rightarrow> 16 word result"
  rl_as_int :: "string \<Rightarrow> 32 word result"

abbreviation LF :: char where "LF \<equiv> CHR 0x0A"

section \<open>Reference functions\<close>

text \<open>\<open>''{}...{}''_format(x, y)\<close>: the holes are filled from the left; what is put in is not looked at again.\<close>

fun fill_braces :: "string \<Rightarrow> string list \<Rightarrow> string" where
  "fill_braces (c # d # s) (x # xs) =
     (if c = CHR ''{'' \<and> d = CHR ''}'' then x @ fill_braces s xs
      else c # fill_braces (d # s) (x # xs))"
| "fill_braces s xs = s"

text \<open>\<open>replace\<close> replaces every occurrence, from the left.\<close>

function replace_all :: "string \<Rightarrow> string \<Rightarrow> string \<Rightarrow> string" where
  "replace_all old new s =
     (if old = [] then s
      else case s of [] \<Rightarrow> []
        | c # cs \<Rightarrow> if take (length old) s = old then new @ replace_all old new (drop (length old) s)
                    else c # replace_all old new cs)"
  by pat_completeness auto
termination by (relation "measure (\<lambda>(_, _, s). length s)") auto

declare replace_all.simps [simp del]

lemma replace_all_Nil [simp]: "replace_all old new [] = []"
  by (simp add: replace_all.simps)

lemma replace_all_skip: "a \<noteq> c \<Longrightarrow> replace_all (a # old) new (c # cs) = c # replace_all (a # old) new cs"
  by (subst replace_all.simps) simp

lemma replace_all_hit: "old \<noteq> [] \<Longrightarrow> replace_all old new (old @ cs) = new @ replace_all old new cs"
  by (cases old) (simp, subst replace_all.simps, simp)

lemma replace_all_absent: "a \<notin> set s \<Longrightarrow> replace_all (a # old) new s = s"
  by (induction s) (simp_all add: replace_all_skip)

text \<open>Decimal numbers, as \<open>operator<<\<close> and \<open>std::to_string\<close> print them.\<close>

definition digit :: "nat \<Rightarrow> char" where
  "digit n = char_of (48 + n)"

fun decimal :: "nat \<Rightarrow> string" where
  "decimal n = (if n < 10 then [digit n] else decimal (n div 10) @ [digit (n mod 10)])"

declare decimal.simps [simp del]

definition read_decimal :: "string \<Rightarrow> nat" where
  "read_decimal s = foldl (\<lambda>n c. 10 * n + (of_char c - 48)) 0 s"

definition is_digit :: "char \<Rightarrow> bool" where
  "is_digit c \<longleftrightarrow> 48 \<le> (of_char c :: nat) \<and> (of_char c :: nat) \<le> 57"

lemma is_digit_digit: "n < 10 \<Longrightarrow> is_digit (digit n)"
  by (simp add: is_digit_def digit_def)

lemma of_char_digit: "n < 10 \<Longrightarrow> of_char (digit n) = 48 + n"
  by (simp add: digit_def)

lemma decimal_digits: "c \<in> set (decimal n) \<Longrightarrow> is_digit c"
  by (induction n rule: decimal.induct) (subst (asm) (2) decimal.simps, auto simp: is_digit_digit split: if_splits)

lemma decimal_not_Nil [simp]: "decimal n \<noteq> []"
  by (subst decimal.simps) simp

lemma read_decimal_decimal [simp]: "read_decimal (decimal n) = n"
proof (induction n rule: decimal.induct)
  case (1 n)
  show ?case
  proof (cases "n < 10")
    case True
    then show ?thesis by (simp add: decimal.simps [of n] read_decimal_def of_char_digit)
  next
    case False
    from 1 [OF False] have "foldl (\<lambda>n c. 10 * n + (of_char c - 48)) 0 (decimal (n div 10)) = n div 10"
      by (simp add: read_decimal_def)
    with False show ?thesis by (simp add: decimal.simps [of n] read_decimal_def of_char_digit)
  qed
qed

lemma decimal_inj: "decimal m = decimal n \<Longrightarrow> m = n"
  using read_decimal_decimal by metis

lemma decimal_no_char: "\<not> is_digit c \<Longrightarrow> c \<notin> set (decimal n)"
  using decimal_digits by blast

lemma digit_eval [simp]:
  "digit 0 = CHR ''0''" "digit (Suc 0) = CHR ''1''" "digit 1 = CHR ''1''" "digit 2 = CHR ''2''"
  "digit 3 = CHR ''3''" "digit 4 = CHR ''4''" "digit 5 = CHR ''5''" "digit 6 = CHR ''6''"
  "digit 7 = CHR ''7''" "digit 8 = CHR ''8''" "digit 9 = CHR ''9''"
  by code_simp+

section \<open>What the agent relies on\<close>

definition rlib_laws :: "rlib \<Rightarrow> bool" where
  "rlib_laws R \<longleftrightarrow>
     (\<forall>c s. rl_split R c s \<noteq> [] \<and> (\<forall>p \<in> set (rl_split R c s). c \<notin> set p) \<and>
        intercalate [c] (rl_split R c s) = s) \<and>
     (\<forall>d ps. rl_join R d ps = intercalate d ps) \<and>
     (\<forall>old new s. rl_replace R old new s = replace_all old new s) \<and>
     (\<forall>f xs. CHR 0x5C \<notin> set f \<longrightarrow> rl_format R f xs = fill_braces f xs) \<and>
     (\<forall>n < 2 ^ 16. rl_as_u16 R (decimal n) = Inr (of_nat n)) \<and>
     (\<forall>n < 2 ^ 31. rl_as_int R (decimal n) = Inr (of_nat n))"

lemma rl_split: "rlib_laws R \<Longrightarrow> rl_split R c s = split_on c s"
  by (rule split_unique) (auto simp: rlib_laws_def)

lemma rl_join: "rlib_laws R \<Longrightarrow> rl_join R d ps = intercalate d ps"
  by (simp add: rlib_laws_def)

lemma rl_replace: "rlib_laws R \<Longrightarrow> rl_replace R old new s = replace_all old new s"
  by (simp add: rlib_laws_def)

lemma rl_format: "rlib_laws R \<Longrightarrow> CHR 0x5C \<notin> set f \<Longrightarrow> rl_format R f xs = fill_braces f xs"
  by (simp add: rlib_laws_def)

lemma rl_as_u16: "rlib_laws R \<Longrightarrow> n < 2 ^ 16 \<Longrightarrow> rl_as_u16 R (decimal n) = Inr (of_nat n)"
  by (simp add: rlib_laws_def)

lemma rl_as_int: "rlib_laws R \<Longrightarrow> n < 2 ^ 31 \<Longrightarrow> rl_as_int R (decimal n) = Inr (of_nat n)"
  by (simp add: rlib_laws_def)

lemmas rlib_ops = rl_split rl_join rl_replace rl_format

section \<open>A library that meets the laws\<close>

definition plain_rlib :: rlib where
  "plain_rlib =
     \<lparr>rl_split = split_on, rl_join = intercalate, rl_replace = replace_all, rl_format = fill_braces,
      rl_as_u16 = (\<lambda>s. if s \<noteq> [] \<and> list_all is_digit s then Inr (of_nat (read_decimal s))
                       else Inl (Invalid_Argument s)),
      rl_as_int = (\<lambda>s. if s \<noteq> [] \<and> list_all is_digit s then Inr (of_nat (read_decimal s))
                       else Inl (Invalid_Argument s))\<rparr>"

lemma plain_rlib_laws: "rlib_laws plain_rlib"
  by (auto simp: rlib_laws_def plain_rlib_def split_on_joins_back list_all_iff
      dest: split_on_pieces decimal_digits)

section \<open>Strings of the standard library\<close>

text \<open>\<open>pos = s.find(c)\<close>, then \<open>substr(0, pos)\<close> and \<open>substr(pos + 1)\<close>; \<open>None\<close> is \<open>npos\<close>.\<close>

definition cut_at :: "char \<Rightarrow> string \<Rightarrow> (string \<times> string) option" where
  "cut_at c s =
     (if c \<in> set s then Some (takeWhile (\<lambda>x. x \<noteq> c) s, tl (dropWhile (\<lambda>x. x \<noteq> c) s)) else None)"

lemma cut_at_append: "c \<notin> set k \<Longrightarrow> cut_at c (k @ c # v) = Some (k, v)"
  by (simp add: cut_at_def takeWhile_append2 dropWhile_append2 takeWhile_append dropWhile_append)

lemma cut_at_None: "cut_at c s = None \<longleftrightarrow> c \<notin> set s"
  by (simp add: cut_at_def)

end
