(* ===== verification/Net_Io.thy ===== *)
theory Net_Io
  imports Rlib
begin

text \<open>
  What the agent uses of Boost.Asio and Boost.Beast, as a record of operations that pass the world
  outside the agent along (\<open>'w\<close>; a socket is a value of \<open>'s\<close>, the endpoints a resolver found one of
  \<open>'p\<close>), and the HTTP messages. An operation with a \<open>yield[ec]\<close> returns its error code; one without
  throws. Also here: how fallible steps with a state are chained, the error macros of src/logger.hpp,
  the two ways of lib/boost_asio_quick_connect.hpp to connect, and a stack buffer read as a C string.
\<close>

section \<open>Fallible steps with a state\<close>

type_synonym ('a, 'w) step = "'w \<Rightarrow> 'a result \<times> 'w"

definition and_then :: "('a, 'w) step \<Rightarrow> ('a \<Rightarrow> ('b, 'w) step) \<Rightarrow> ('b, 'w) step" where
  "and_then m f w = (case m w of (Inl e, w1) \<Rightarrow> (Inl e, w1) | (Inr x, w1) \<Rightarrow> f x w1)"

definition return :: "'a \<Rightarrow> ('a, 'w) step" where
  "return x w = (Inr x, w)"

definition throw :: "error \<Rightarrow> ('a, 'w) step" where
  "throw e w = (Inl e, w)"

definition lift_result :: "'a result \<Rightarrow> ('a, 'w) step" where
  "lift_result r w = (r, w)"

lemma and_then_Inl [simp]: "m w = (Inl e, w1) \<Longrightarrow> and_then m f w = (Inl e, w1)"
  by (simp add: and_then_def)

lemma and_then_Inr [simp]: "m w = (Inr x, w1) \<Longrightarrow> and_then m f w = f x w1"
  by (simp add: and_then_def)

lemma return_simp [simp]: "return x w = (Inr x, w)" by (simp add: return_def)
lemma throw_simp [simp]: "throw e w = (Inl e, w)" by (simp add: throw_def)
lemma lift_result_simp [simp]: "lift_result r w = (r, w)" by (simp add: lift_result_def)

lemma and_then_eq_Inr:
  "and_then m f w = (Inr y, w2) \<longleftrightarrow> (\<exists>x w1. m w = (Inr x, w1) \<and> f x w1 = (Inr y, w2))"
  by (auto simp: and_then_def split: prod.splits sum.splits)

lemma and_then_assoc: "and_then (and_then m f) g = and_then m (\<lambda>x. and_then (f x) g)"
  by (rule ext) (auto simp: and_then_def split: prod.splits sum.splits)

section \<open>Error codes and sockets\<close>

datatype ec_kind = Eof | End_Of_Stream | Other_Ec

record error_code =
  ec_kind :: ec_kind
  ec_message :: string

text \<open>\<open>ON_BOOST_FATAL\<close>: throws the message of an error code that is set (the log line is left out).\<close>

definition boost_fatal :: "error_code \<Rightarrow> error" where
  "boost_fatal ec = Runtime_Error (ec_message ec)"

definition or_fatal :: "('w \<Rightarrow> error_code option \<times> 'w) \<Rightarrow> (unit, 'w) step" where
  "or_fatal io w = (case io w of (None, w1) \<Rightarrow> (Inr (), w1) | (Some ec, w1) \<Rightarrow> (Inl (boost_fatal ec), w1))"

definition read_or_fatal :: "('w \<Rightarrow> (error_code + 'a) \<times> 'w) \<Rightarrow> ('a, 'w) step" where
  "read_or_fatal io w = (case io w of (Inr x, w1) \<Rightarrow> (Inr x, w1) | (Inl ec, w1) \<Rightarrow> (Inl (boost_fatal ec), w1))"

text \<open>
  \<open>net_write\<close> sends all the bytes or fails; \<open>net_read\<close> fills a buffer of the given size or fails;
  \<open>net_read_some\<close> leaves up to that many bytes in the buffer and sets an error code or not.
\<close>

record ('s, 'p, 'w) net =
  net_socket :: "'w \<Rightarrow> 's \<times> 'w"
  net_resolve :: "string \<Rightarrow> string \<Rightarrow> ('p, 'w) step"
  net_connect :: "'s \<Rightarrow> 'p \<Rightarrow> (unit, 'w) step"
  net_async_resolve :: "string \<Rightarrow> string \<Rightarrow> 'w \<Rightarrow> (error_code option \<times> 'p) \<times> 'w"
  net_async_connect :: "'s \<Rightarrow> 'p \<Rightarrow> 'w \<Rightarrow> error_code option \<times> 'w"
  net_write :: "'s \<Rightarrow> byte list \<Rightarrow> 'w \<Rightarrow> error_code option \<times> 'w"
  net_read :: "'s \<Rightarrow> nat \<Rightarrow> 'w \<Rightarrow> (error_code + byte list) \<times> 'w"
  net_read_some :: "'s \<Rightarrow> nat \<Rightarrow> 'w \<Rightarrow> (error_code option \<times> byte list) \<times> 'w"
  net_sync_write :: "'s \<Rightarrow> byte list \<Rightarrow> (unit, 'w) step"
  net_sync_read :: "'s \<Rightarrow> nat \<Rightarrow> (byte list, 'w) step"
  net_shutdown_send :: "'s \<Rightarrow> 'w \<Rightarrow> error_code option \<times> 'w"
  net_shutdown_both :: "'s \<Rightarrow> 'w \<Rightarrow> error_code option \<times> 'w"

text \<open>What the two servers use of an acceptor before they accept; \<open>set_option\<close> throws.\<close>

record 'w acceptor =
  acc_open :: "'w \<Rightarrow> error_code option \<times> 'w"
  acc_reuse_address :: "(unit, 'w) step"
  acc_bind :: "'w \<Rightarrow> error_code option \<times> 'w"
  acc_listen :: "'w \<Rightarrow> error_code option \<times> 'w"

section \<open>Streams\<close>

text \<open>
  What a stream socket promises: \<open>inbox s w\<close> are the bytes still to come on \<open>s\<close>, and a read that
  succeeds takes the next ones, exactly as many as asked for. \<open>delivers\<close>: reads of bytes that are there
  succeed.
\<close>

definition stream_laws :: "('s, 'p, 'w) net \<Rightarrow> ('s \<Rightarrow> 'w \<Rightarrow> byte list) \<Rightarrow> bool" where
  "stream_laws net inbox \<longleftrightarrow>
     (\<forall>s n w bs w1. net_read net s n w = (Inr bs, w1) \<longrightarrow> length bs = n \<and> inbox s w = bs @ inbox s w1)"

definition delivers :: "('s, 'p, 'w) net \<Rightarrow> ('s \<Rightarrow> 'w \<Rightarrow> byte list) \<Rightarrow> 's \<Rightarrow> bool" where
  "delivers net inbox s \<longleftrightarrow>
     (\<forall>n w. n \<le> length (inbox s w) \<longrightarrow> (\<exists>bs w1. net_read net s n w = (Inr bs, w1)))"

lemma read_next:
  assumes "stream_laws net inbox" and "delivers net inbox s" and "inbox s w = bs @ later" and "length bs = n"
  obtains w1 where "net_read net s n w = (Inr bs, w1)" and "inbox s w1 = later"
proof -
  obtain cs w1 where r: "net_read net s n w = (Inr cs, w1)"
    using assms(2-4) unfolding delivers_def by fastforce
  then have "length cs = n" "inbox s w = cs @ inbox s w1"
    using assms(1) unfolding stream_laws_def by blast+
  with assms(3,4) have "cs = bs" "inbox s w1 = later" by simp_all
  with r show thesis using that by simp
qed

text \<open>
  A network in memory that meets the laws: \<open>answer\<close> gives the bytes that arrive on a socket after all
  that was sent on it so far.
\<close>

record memory =
  arrived :: "nat \<Rightarrow> byte list"
  sent :: "nat \<Rightarrow> byte list"
  sockets :: nat

definition eof_code :: error_code where
  "eof_code = \<lparr>ec_kind = Eof, ec_message = ''End of file''\<rparr>"

definition memory_read :: "nat \<Rightarrow> nat \<Rightarrow> memory \<Rightarrow> (error_code + byte list) \<times> memory" where
  "memory_read s n w =
     (if n \<le> length (arrived w s)
      then (Inr (take n (arrived w s)), w\<lparr>arrived := (arrived w)(s := drop n (arrived w s))\<rparr>)
      else (Inl eof_code, w))"

definition memory_write :: "(byte list \<Rightarrow> byte list) \<Rightarrow> nat \<Rightarrow> byte list \<Rightarrow> memory \<Rightarrow> memory" where
  "memory_write answer s bs w =
     (let out = sent w s @ bs
      in w\<lparr>sent := (sent w)(s := out), arrived := (arrived w)(s := arrived w s @ answer out)\<rparr>)"

definition memory_net :: "(byte list \<Rightarrow> byte list) \<Rightarrow> (nat, unit, memory) net" where
  "memory_net answer =
     \<lparr>net_socket = (\<lambda>w. (sockets w, w\<lparr>sockets := sockets w + 1\<rparr>)),
      net_resolve = (\<lambda>_ _. return ()), net_connect = (\<lambda>_ _. return ()),
      net_async_resolve = (\<lambda>_ _ w. ((None, ()), w)), net_async_connect = (\<lambda>_ _ w. (None, w)),
      net_write = (\<lambda>s bs w. (None, memory_write answer s bs w)), net_read = memory_read,
      net_read_some = (\<lambda>s n w. if arrived w s = [] then ((Some eof_code, []), w)
         else ((None, take n (arrived w s)), w\<lparr>arrived := (arrived w)(s := drop n (arrived w s))\<rparr>)),
      net_sync_write = (\<lambda>s bs. or_fatal (\<lambda>w. (None, memory_write answer s bs w))),
      net_sync_read = (\<lambda>s n. read_or_fatal (memory_read s n)),
      net_shutdown_send = (\<lambda>_ w. (None, w)), net_shutdown_both = (\<lambda>_ w. (None, w))\<rparr>"

lemma memory_net_laws: "stream_laws (memory_net answer) (\<lambda>s w. arrived w s)"
  by (auto simp: stream_laws_def memory_net_def memory_read_def split: if_splits)

lemma memory_net_delivers: "delivers (memory_net answer) (\<lambda>s w. arrived w s) s"
  by (auto simp: delivers_def memory_net_def memory_read_def)

section \<open>Connecting\<close>

definition quick_connect :: "('s, 'p, 'w) net \<Rightarrow> string \<Rightarrow> 16 word \<Rightarrow> ('s, 'w) step" where
  "quick_connect net addr port w =
     (let (sock, w1) = net_socket net w
      in and_then (net_resolve net addr (decimal (unat port)))
           (\<lambda>eps. and_then (net_connect net sock eps) (\<lambda>_. return sock)) w1)"

text \<open>The coroutine version logs both error codes and returns the socket whether or not it is connected.\<close>

definition async_quick_connect :: "('s, 'p, 'w) net \<Rightarrow> string \<Rightarrow> 16 word \<Rightarrow> 'w \<Rightarrow> 's \<times> 'w" where
  "async_quick_connect net addr port w =
     (let (sock, w1) = net_socket net w;
          ((_, eps), w2) = net_async_resolve net addr (decimal (unat port)) w1;
          (_, w3) = net_async_connect net sock eps w2
      in (sock, w3))"

section \<open>Buffers on the stack\<close>

text \<open>
  A \<open>char buf[2048]\<close> set to zero, after \<open>net_read_some\<close> put bytes at its front, and read as a C string:
  the bytes up to the first zero. Without a zero in it the read goes past the end of the array.
\<close>

definition buffer_size :: nat where
  "buffer_size = 2048"

definition filled_buffer :: "byte list \<Rightarrow> byte list" where
  "filled_buffer bs = take buffer_size bs @ replicate (buffer_size - length bs) 0"

definition c_string :: "byte list \<Rightarrow> string result" where
  "c_string buf =
     (if 0 \<in> set buf then Inr (string_of (takeWhile (\<lambda>b. b \<noteq> 0) buf))
      else Inl (Undefined Unterminated_Buffer))"

lemma c_string_filled:
  assumes "length bs < buffer_size"
  shows "c_string (filled_buffer bs) = Inr (string_of (takeWhile (\<lambda>b. b \<noteq> 0) bs))"
proof -
  have "takeWhile (\<lambda>b. b \<noteq> 0) (bs @ replicate n (0::byte)) = takeWhile (\<lambda>b. b \<noteq> 0) bs" for n
    by (induction bs) (auto intro: takeWhile_eq_all_conv [THEN iffD2] simp: takeWhile_replicate)
  then show ?thesis using assms by (auto simp: c_string_def filled_buffer_def)
qed

lemma c_string_full:
  "length bs = buffer_size \<Longrightarrow> 0 \<notin> set bs \<Longrightarrow>
   c_string (filled_buffer bs) = Inl (Undefined Unterminated_Buffer)"
  by (simp add: c_string_def filled_buffer_def)

lemma bytes_of_no_zero: "CHR 0x00 \<notin> set s \<Longrightarrow> 0 \<notin> set (bytes_of s)"
proof
  assume "CHR 0x00 \<notin> set s" "0 \<in> set (bytes_of s)"
  then obtain c where c: "c \<in> set s" "(of_char c :: byte) = 0" by (auto simp: bytes_of_def)
  then have "(of_char c :: nat) = 0" by (metis unat_of_char unsigned_0)
  then have "c = char_of (0::nat)" by (metis char_of_char)
  with c \<open>CHR 0x00 \<notin> set s\<close> show False by (simp add: char_of_def)
qed

lemma c_string_bytes_of:
  "CHR 0x00 \<notin> set s \<Longrightarrow> length s < buffer_size \<Longrightarrow> c_string (filled_buffer (bytes_of s)) = Inr s"
proof -
  assume s: "CHR 0x00 \<notin> set s" "length s < buffer_size"
  have "takeWhile (\<lambda>b. b \<noteq> 0) (bytes_of s) = bytes_of s"
    using bytes_of_no_zero [OF s(1)] by (auto simp: takeWhile_eq_all_conv)
  moreover have "c_string (filled_buffer (bytes_of s)) =
      Inr (string_of (takeWhile (\<lambda>b. b \<noteq> 0) (bytes_of s)))"
    using s(2) by (intro c_string_filled) simp
  ultimately show ?thesis by (simp only: string_of_bytes_of)
qed

section \<open>HTTP messages\<close>

datatype verb = Post | Other_Verb string

datatype status = Ok_200 | Bad_Request_400 | Internal_Server_Error_500

record http_request =
  req_method :: verb
  req_version :: nat
  req_connection :: "bool option"
  req_user_agent :: "string option"
  req_host :: "string option"
  req_body :: string

record http_response =
  res_status :: status
  res_version :: nat
  res_connection :: "bool option"
  res_server :: "string option"
  res_content_type :: "string option"
  res_body :: string

text \<open>
  \<open>keep_alive()\<close> of Beast: what the Connection field says, and without one what the HTTP version
  implies; \<open>keep_alive(b)\<close> sets the field. A response made with no arguments is 200 and HTTP/1.1.
\<close>

definition http_keep_alive :: "nat \<Rightarrow> bool option \<Rightarrow> bool" where
  "http_keep_alive version connection = (case connection of None \<Rightarrow> 11 \<le> version | Some b \<Rightarrow> b)"

definition req_keep_alive :: "http_request \<Rightarrow> bool" where
  "req_keep_alive req = http_keep_alive (req_version req) (req_connection req)"

definition res_keep_alive :: "http_response \<Rightarrow> bool" where
  "res_keep_alive res = http_keep_alive (res_version res) (res_connection res)"

definition new_response :: "status \<Rightarrow> nat \<Rightarrow> http_response" where
  "new_response st version =
     \<lparr>res_status = st, res_version = version, res_connection = None, res_server = None,
      res_content_type = None, res_body = []\<rparr>"

end
