(* ===== verification/Conn_Pool.thy ===== *)
theory Conn_Pool
  imports Object_Pool Net_Io
begin

text \<open>
  lib/conn_pool.hpp: the pooled connection, whose constructor connects and whose destructor shuts the
  socket down, the sizes of the two connection pools (CMakeLists.txt sets both), and how a client of a
  pool uses a connection: it borrows one, and a scope guard gives it back. A request runs here without
  others in between; the interleavings of borrowing and giving back are those of \<open>Pool_Coro\<close>.
\<close>

record 's pooled_conn =
  conn :: 's

definition pooled_conn_new ::
  "('s, 'p, 'w) net \<Rightarrow> string \<Rightarrow> 16 word \<Rightarrow> ('s pooled_conn, 'w) step" where
  "pooled_conn_new net addr port = and_then (quick_connect net addr port) (\<lambda>s. return \<lparr>conn = s\<rparr>)"

definition pooled_conn_delete :: "('s, 'p, 'w) net \<Rightarrow> 's pooled_conn \<Rightarrow> 'w \<Rightarrow> 'w" where
  "pooled_conn_delete net c w = snd (net_shutdown_both net (conn c) w)"

type_synonym 's conn_pool_coro = "'s pooled_conn pool"

definition AGENT_CONN_POOL_SIZE :: nat where "AGENT_CONN_POOL_SIZE = 256"
definition DUBBO_CLI_CONN_POOL_SIZE :: nat where "DUBBO_CLI_CONN_POOL_SIZE = 256"

text \<open>
  Whether a borrow makes a new object. Only then does it connect; \<open>fresh\<close> is the address \<open>new\<close> returns.
\<close>

definition borrow_makes_one :: "nat \<Rightarrow> 'o pool \<Rightarrow> bool" where
  "borrow_makes_one m p \<longleftrightarrow> free_list p = [] \<and> unat (tlist_size (buffer p)) < m"

definition construction_of :: "addr \<Rightarrow> 'o result \<Rightarrow> 'o construction" where
  "construction_of fresh r = map_sum id (Pair fresh) r"

text \<open>
  Borrow, use the socket, give back. \<open>None\<close>: every connection is lent and the coroutine waits on the
  pool's event, to start over with the pool it finds then.
\<close>

definition with_conn ::
  "nat \<Rightarrow> ('s, 'p, 'w) net \<Rightarrow> string \<Rightarrow> 16 word \<Rightarrow> addr \<Rightarrow> ('s \<Rightarrow> ('a, 'w) step) \<Rightarrow>
   's conn_pool_coro \<Rightarrow> 'w \<Rightarrow> ('a result \<times> 's conn_pool_coro \<times> 'w) option" where
  "with_conn m net addr port fresh body p w =
     (let (made, w1) = pooled_conn_new net addr port w
      in with_lent (coro_do_try_borrow_one m) coro_release_one
           (\<lambda>a q v. case objects q a of
                None \<Rightarrow> (Inl (Undefined Dangling_Pointer), v)
              | Some c \<Rightarrow> body (conn c) v)
           (construction_of fresh made) p (if borrow_makes_one m p then w1 else w))"

section \<open>What a use of a connection comes to\<close>

lemma fresh_construction: "cells (buffer p) fresh = None \<Longrightarrow> fresh_for (construction_of fresh r) p"
  by (cases r) (simp_all add: fresh_for_def construction_of_def)

lemma with_conn_balanced:
  assumes "pool_ok (unat (m :: 64 word)) p" and "cells (buffer p) fresh = None"
    and "with_conn (unat m) net addr port fresh body p w = Some (r, p', w')"
  shows "pool_ok (unat m) p' \<and> lent p' = lent p"
proof -
  obtain made w1 where made: "pooled_conn_new net addr port w = (made, w1)" by force
  show ?thesis
    using assms(3) unfolding with_conn_def made Let_def prod.case
    by (rule coro_pool.with_lent_balanced [OF assms(1) fresh_construction [OF assms(2)]])
qed

text \<open>With a free connection the body runs on the one at the front of the free list.\<close>

lemma objects_remark:
  assumes "pool_rep m p l" and "pool_rep m q (remark a e l)"
  shows "objects q = objects p"
proof
  fix b
  have "objects q b = Some x \<longleftrightarrow> objects p b = Some x" for x
    unfolding objects_rep [OF pool_rep_buffer [OF assms(1)]] objects_rep [OF pool_rep_buffer [OF assms(2)]]
      set_remark by blast
  then show "objects q b = objects p b" by (metis not_None_eq)
qed

lemma with_conn_free:
  assumes ok: "pool_ok (unat (m :: 64 word)) p" and fresh: "cells (buffer p) fresh = None"
    and free: "free_list p = a # rest" and c: "objects p a = Some c"
  shows "\<exists>p'. with_conn (unat m) net addr port fresh body p w =
      Some (fst (body (conn c) w), p', snd (body (conn c) w)) \<and>
    pool_ok (unat m) p' \<and> lent p' = lent p \<and> free_list p' = free_list p \<and> objects p' = objects p"
proof -
  obtain made w1 where made: "pooled_conn_new net addr port w = (made, w1)" by force
  obtain l where r: "pool_rep (unat m) p l" using ok by (auto simp: pool_ok_def)
  obtain p1 where p1: "coro_do_try_borrow_one (unat m) (construction_of fresh made) p = (Inr (Some a), p1)"
    "pool_rep (unat m) p1 (remark a False l)" "free_list p1 = rest" "a \<in> set (addrs l)"
    using take_free_rep [OF r free] .
  have "a \<in> lent p1"
    using lent_cases(1) [OF p1(2)] remark_free(2) [OF rep_distinct [OF pool_rep_buffer [OF r]] p1(4)] by simp
  then obtain p2 where p2: "coro_release_one a p1 = (Inr (), p2)"
    "pool_rep (unat m) p2 (remark a True (remark a False l))" "free_list p2 = a # free_list p1"
    using release_rep [OF p1(2)] by blast
  have obj: "objects p1 = objects p" "objects p2 = objects p1"
    using objects_remark [OF r p1(2)] objects_remark [OF p1(2) p2(2)] by simp_all
  have "\<not> borrow_makes_one (unat m) p" by (simp add: borrow_makes_one_def free)
  then have run: "with_conn (unat m) net addr port fresh body p w =
      Some (fst (body (conn c) w), p2, snd (body (conn c) w))"
    using p1(1) p2(1) made c obj by (simp add: with_conn_def with_lent_def split: prod.splits)
  from run with_conn_balanced [OF ok fresh run] show ?thesis
    using free p1(3) p2(3) obj by (intro exI [of _ p2] conjI) simp_all
qed

text \<open>With none free and room for one more, a connection is made first.\<close>

lemma with_conn_made:
  assumes ok: "pool_ok (unat (m :: 64 word)) p" and fresh: "cells (buffer p) fresh = None"
    and makes: "borrow_makes_one (unat m) p" and made: "pooled_conn_new net addr port w = (Inr c, w1)"
  shows "\<exists>p'. with_conn (unat m) net addr port fresh body p w =
      Some (fst (body (conn c) w1), p', snd (body (conn c) w1)) \<and>
    pool_ok (unat m) p' \<and> lent p' = lent p \<and> free_list p' = [fresh] \<and> objects p' fresh = Some c"
proof -
  let ?mk = "construction_of fresh (Inr c)"
  have f: "fresh_for ?mk p" by (rule fresh_construction [OF fresh])
  obtain res p1 where b: "coro_do_try_borrow_one (unat m) ?mk p = (res, p1)" by force
  obtain l where r: "pool_rep (unat m) p l" using ok by (auto simp: pool_ok_def)
  have n: "unat (tlist_size (buffer p)) = length l"
    using rep_size [OF pool_rep_buffer [OF r]] pool_rep_length [OF r] unat_64 [of m]
    by (simp add: tlist_size_def unat_of_nat)
  have p1: "res = Inr (Some fresh) \<and> pool_rep (unat m) p1 (l @ [(fresh, c, False)]) \<and> free_list p1 = []"
    by (rule borrow_cases [OF r unat_64 f b]) (use makes n in \<open>auto simp: borrow_makes_one_def construction_of_def\<close>)
  then have rep1: "pool_rep (unat m) p1 (l @ [(fresh, c, False)])" by blast
  have "fresh \<in> lent p1" using lent_rep [OF pool_rep_buffer [OF rep1]] by auto
  then obtain p2 where p2: "coro_release_one fresh p1 = (Inr (), p2)"
    "pool_rep (unat m) p2 (remark fresh True (l @ [(fresh, c, False)]))" "free_list p2 = fresh # free_list p1"
    using release_rep [OF rep1] by blast
  have "objects p1 fresh = Some c" using objects_rep [OF pool_rep_buffer [OF rep1]] by auto
  moreover have "objects p2 = objects p1" by (rule objects_remark [OF rep1 p2(2)])
  moreover have run: "with_conn (unat m) net addr port fresh body p w =
      Some (fst (body (conn c) w1), p2, snd (body (conn c) w1))"
    using b p1 p2(1) made makes calculation by (simp add: with_conn_def with_lent_def split: prod.splits)
  ultimately show ?thesis
    using with_conn_balanced [OF ok fresh run] p1 p2(3) by (intro exI [of _ p2] conjI) simp_all
qed

text \<open>An allocator: the address it gives is not in use in the pool (both pools have the same size).\<close>

definition allocates :: "('s conn_pool_coro \<Rightarrow> addr) \<Rightarrow> bool" where
  "allocates alloc \<longleftrightarrow>
     (\<forall>p. pool_ok DUBBO_CLI_CONN_POOL_SIZE p \<longrightarrow> cells (buffer p) (alloc p) = None)"

definition above_all :: "'s conn_pool_coro \<Rightarrow> addr" where
  "above_all p = Suc (Max (insert 0 (dom (cells (buffer p)))))"

lemma above_all_allocates: "allocates above_all"
  unfolding allocates_def
proof (intro allI impI)
  fix p :: "'s conn_pool_coro"
  assume "pool_ok DUBBO_CLI_CONN_POOL_SIZE p"
  then obtain l where "pool_rep DUBBO_CLI_CONN_POOL_SIZE p l" by (auto simp: pool_ok_def)
  from rep_dom [OF pool_rep_buffer [OF this]] have "finite (insert 0 (dom (cells (buffer p))))" by simp
  from Max_ge [OF this] have "above_all p \<notin> dom (cells (buffer p))"
    by (metis Suc_n_not_le_n above_all_def insertI2)
  then show "cells (buffer p) (above_all p) = None" by blast
qed

lemma same_pool_size: "DUBBO_CLI_CONN_POOL_SIZE = AGENT_CONN_POOL_SIZE"
  by (simp add: DUBBO_CLI_CONN_POOL_SIZE_def AGENT_CONN_POOL_SIZE_def)

text \<open>A pool with one object, free, for the witnesses of its clients.\<close>

definition single_pool :: "addr \<Rightarrow> 'o \<Rightarrow> 'o pool" where
  "single_pool a x =
     \<lparr>buffer = \<lparr>cells = [a \<mapsto> \<lparr>data = x, prev = None, nxt = None, extra_info = True, magic = node_magic\<rparr>],
                head = Some a, tail = Some a, m_size = 1\<rparr>, free_list = [a]\<rparr>"

lemma single_pool_ok: "0 < m \<Longrightarrow> pool_ok m (single_pool a x)"
  unfolding pool_ok_def
  by (rule exI [of _ "[(a, x, True)]"]) (auto simp: pool_rep_def rep_def single_pool_def)

lemma single_pool_simps [simp]:
  "free_list (single_pool a x) = [a]" "objects (single_pool a x) a = Some x"
  "lent (single_pool a x) = {}" "b \<noteq> a \<Longrightarrow> cells (buffer (single_pool a x)) b = None"
  by (auto simp: single_pool_def objects_def lent_def)

end
