(* ===== verification/Dubbo_Header.thy ===== *)
theory Dubbo_Header
  imports Prelude
begin

text \<open>
  The packed 16-byte \<open>dubbo_header\<close> of lib/dubbo_client.hpp as it lies in memory on the little-endian
  targets the agent is built for: \<open>RDUBBO_OBEY_APACHEDOC\<close> is defined (CMakeLists.txt), so the bit fields
  come in the order serialization id, event, return, request, from the least significant bit up. The
  length is the one field kept in network order, by \<open>native_to_big\<close> and \<open>big_to_native\<close>.
\<close>

section \<open>Bytes of a number\<close>

fun le_bytes :: "nat \<Rightarrow> nat \<Rightarrow> byte list" where
  "le_bytes 0 x = []"
| "le_bytes (Suc n) x = of_nat x # le_bytes n (x div 256)"

fun le_value :: "byte list \<Rightarrow> nat" where
  "le_value [] = 0"
| "le_value (b # bs) = unat b + 256 * le_value bs"

lemma length_le_bytes [simp]: "length (le_bytes n x) = n"
  by (induction n arbitrary: x) simp_all

lemma le_value_le_bytes [simp]: "le_value (le_bytes n x) = x mod 256 ^ n"
proof (induction n arbitrary: x)
  case (Suc n)
  have "x mod (256 * 256 ^ n) = 256 * (x div 256 mod 256 ^ n) + x mod 256"
    by (rule mod_mult2_eq)
  then show ?case by (simp add: Suc unat_of_nat)
qed simp

lemma le_bytes_le_value [simp]: "le_bytes (length bs) (le_value bs) = bs"
proof (induction bs)
  case (Cons b bs)
  have "unat b < 256" using unsigned_less [of b] by simp
  then have "(unat b + 256 * le_value bs) div 256 = le_value bs" by simp
  moreover have "(of_nat (256 * le_value bs) :: byte) = 0"
  proof -
    have "(256 :: byte) = 0" by simp
    then show ?thesis by (simp only: of_nat_mult of_nat_numeral mult_zero_left)
  qed
  ultimately show ?case using Cons by simp
qed simp

lemma le_value_less: "le_value bs < 256 ^ length bs"
proof (induction bs)
  case (Cons b bs)
  have "unat b < 256" using unsigned_less [of b] by simp
  with Cons show ?case by simp
qed simp

text \<open>\<open>native_to_big\<close> and \<open>big_to_native\<close> of a 32-bit word on a little-endian machine.\<close>

definition byte_swap :: "32 word \<Rightarrow> 32 word" where
  "byte_swap x = of_nat (le_value (rev (le_bytes 4 (unat x))))"

lemma unat_less_256_4: "unat (x :: 32 word) < 256 ^ 4"
  using unsigned_less [of x] by simp

lemma unat_of_le_value:
  "256 ^ length bs \<le> (2 :: nat) ^ LENGTH('a::len) \<Longrightarrow> unat (of_nat (le_value bs) :: 'a word) = le_value bs"
  using le_value_less [of bs] by (simp add: unat_of_nat)

lemma le_bytes_byte_swap: "le_bytes 4 (unat (byte_swap x)) = rev (le_bytes 4 (unat x))"
proof -
  have "unat (byte_swap x) = le_value (rev (le_bytes 4 (unat x)))"
    unfolding byte_swap_def by (rule unat_of_le_value) simp
  then show ?thesis using le_bytes_le_value [of "rev (le_bytes 4 (unat x))"] by simp
qed

lemma byte_swap_byte_swap [simp]: "byte_swap (byte_swap x) = x"
  using unat_less_256_4 [of x]
  by (simp add: byte_swap_def [of "byte_swap x"] le_bytes_byte_swap)

section \<open>The header\<close>

record dubbo_header =
  hdr_magic :: "16 word"
  serialization_id :: "5 word"
  is_event :: bool
  need_return :: bool
  is_request :: bool
  hdr_status :: byte
  hdr_request_id :: "64 word"
  data_length :: "32 word"

definition dubbo_magic :: "16 word" where
  "dubbo_magic = 0xbbda"

definition flag_byte :: "dubbo_header \<Rightarrow> byte" where
  "flag_byte h =
     of_nat (unat (serialization_id h) + 32 * of_bool (is_event h) + 64 * of_bool (need_return h) +
       128 * of_bool (is_request h))"

definition header_bytes :: "dubbo_header \<Rightarrow> byte list" where
  "header_bytes h =
     le_bytes 2 (unat (hdr_magic h)) @ [flag_byte h, hdr_status h] @
     le_bytes 8 (unat (hdr_request_id h)) @ le_bytes 4 (unat (data_length h))"

text \<open>The header read back from 16 bytes of memory.\<close>

definition header_of :: "byte list \<Rightarrow> dubbo_header" where
  "header_of bs =
     (let flags = unat (bs ! 2)
      in \<lparr>hdr_magic = of_nat (le_value (take 2 bs)), serialization_id = of_nat flags,
          is_event = odd (flags div 32), need_return = odd (flags div 64),
          is_request = odd (flags div 128), hdr_status = bs ! 3,
          hdr_request_id = of_nat (le_value (take 8 (drop 4 bs))),
          data_length = of_nat (le_value (take 4 (drop 12 bs)))\<rparr>)"

lemma length_header_bytes [simp]: "length (header_bytes h) = 16"
  by (simp add: header_bytes_def)

lemma unat_flag_byte:
  "unat (flag_byte h) =
     unat (serialization_id h) + 32 * of_bool (is_event h) + 64 * of_bool (need_return h) +
       128 * of_bool (is_request h)"
proof -
  have "unat (serialization_id h) < 32" using unsigned_less [of "serialization_id h"] by simp
  then have "unat (serialization_id h) + 32 * of_bool (is_event h) + 64 * of_bool (need_return h) +
      128 * of_bool (is_request h) < 256" by simp
  then show ?thesis by (simp add: flag_byte_def unat_of_nat del: of_nat_add of_nat_mult)
qed

lemma header_fields:
  assumes "length bs = 16"
  shows "take 2 bs @ [bs ! 2, bs ! 3] @ take 8 (drop 4 bs) @ take 4 (drop 12 bs) = bs"
proof -
  have "drop 2 bs = bs ! 2 # bs ! 3 # drop 4 bs"
    using assms Cons_nth_drop_Suc [of 2 bs] Cons_nth_drop_Suc [of 3 bs]
    by simp
  then have "bs = take 2 bs @ [bs ! 2, bs ! 3] @ drop 4 bs" by (metis append_Cons append_Nil append_take_drop_id)
  moreover have "drop 4 bs = take 8 (drop 4 bs) @ take 4 (drop 12 bs)"
    using append_take_drop_id [of 8 "drop 4 bs"] assms by simp
  ultimately show ?thesis by simp
qed

lemma flags_split:
  fixes f :: nat
  assumes "f < 256"
  shows "f mod 32 + 32 * (f div 32 mod 2) + 64 * (f div 64 mod 2) + 128 * (f div 128 mod 2) = f"
proof -
  have "f div 128 mod 2 = f div 128" using assms by (simp add: less_mult_imp_div_less)
  moreover have "f div 64 = 2 * (f div 128) + f div 64 mod 2" by (simp add: div_mult2_eq [of f 64 2, simplified])
  moreover have "f div 32 = 2 * (f div 64) + f div 32 mod 2" by (simp add: div_mult2_eq [of f 32 2, simplified])
  moreover have "f = 32 * (f div 32) + f mod 32" by simp
  ultimately show ?thesis by linarith
qed

lemma header_of_header_bytes: "header_of (header_bytes h) = h"
proof -
  have nth: "header_bytes h ! 2 = flag_byte h" "header_bytes h ! 3 = hdr_status h"
    by (simp_all add: header_bytes_def nth_append)
  have parts: "take 2 (header_bytes h) = le_bytes 2 (unat (hdr_magic h))"
    "take 8 (drop 4 (header_bytes h)) = le_bytes 8 (unat (hdr_request_id h))"
    "take 4 (drop 12 (header_bytes h)) = le_bytes 4 (unat (data_length h))"
    by (simp_all add: header_bytes_def)
  have bounds: "unat (hdr_magic h) < 65536" "unat (data_length h) < 4294967296"
    "unat (hdr_request_id h) < 18446744073709551616" "unat (serialization_id h) < 32"
    using unsigned_less [of "hdr_magic h"] unsigned_less [of "data_length h"]
      unsigned_less [of "hdr_request_id h"] unsigned_less [of "serialization_id h"] by simp_all
  have flags: "(of_nat (unat (flag_byte h)) :: 5 word) = serialization_id h"
    "odd (unat (flag_byte h) div 32) = is_event h" "odd (unat (flag_byte h) div 64) = need_return h"
    "odd (unat (flag_byte h) div 128) = is_request h"
  proof -
    define s a b c where "s = unat (serialization_id h)" and "a = (of_bool (is_event h) :: nat)"
      and "b = (of_bool (need_return h) :: nat)" and "c = (of_bool (is_request h) :: nat)"
    have small: "s < 32" "s + 32 * a < 64" "s + 32 * a + 64 * b < 128"
      using bounds(4) by (simp_all add: s_def a_def b_def)
    have f: "unat (flag_byte h) = s + 32 * (a + 2 * b + 4 * c)"
      "unat (flag_byte h) = (s + 32 * a) + 64 * (b + 2 * c)"
      "unat (flag_byte h) = (s + 32 * a + 64 * b) + 128 * c"
      by (simp_all add: unat_flag_byte s_def a_def b_def c_def)
    have "unat (of_nat (unat (flag_byte h)) :: 5 word) = unat (flag_byte h) mod 32"
      unfolding unat_of_nat by simp
    also have "\<dots> = s" unfolding f(1) using small(1) by (simp only: mod_mult_self2 mod_less)
    finally show "(of_nat (unat (flag_byte h)) :: 5 word) = serialization_id h"
      by (simp add: word_unat_eq_iff s_def)
    have "unat (flag_byte h) div 32 = a + 2 * b + 4 * c" unfolding f(1) using small(1) by simp
    moreover have "unat (flag_byte h) div 64 = b + 2 * c" unfolding f(2) using small(2) by simp
    moreover have "unat (flag_byte h) div 128 = c" unfolding f(3) using small(3) by simp
    ultimately show "odd (unat (flag_byte h) div 32) = is_event h"
      "odd (unat (flag_byte h) div 64) = need_return h" "odd (unat (flag_byte h) div 128) = is_request h"
      by (simp_all add: a_def b_def c_def)
  qed
  show ?thesis
    by (rule dubbo_header.equality)
      (use bounds in \<open>simp_all add: header_of_def Let_def nth parts flags flags(1) [simplified]\<close>)
qed

lemma header_bytes_header_of:
  assumes "length bs = 16"
  shows "header_bytes (header_of bs) = bs"
proof -
  have le: "le_bytes n (unat (of_nat (le_value cs) :: 'a::len word)) = cs"
    if "length cs = n" "256 ^ n \<le> (2 :: nat) ^ LENGTH('a)" for cs n
    using that le_bytes_le_value [of cs] by (simp add: unat_of_le_value)
  have "unat (bs ! 2) < 256" using unsigned_less [of "bs ! 2"] by simp
  then have top: "unat (bs ! 2) div 128 mod 2 = unat (bs ! 2) div 128" by (simp add: less_mult_imp_div_less)
  note split = flags_split [OF \<open>unat (bs ! 2) < 256\<close>]
  have "serialization_id (header_of bs) = of_nat (unat (bs ! 2))" by (simp add: header_of_def Let_def)
  then have ser: "unat (serialization_id (header_of bs)) = unat (bs ! 2) mod 32"
    by (simp only: unat_of_nat) simp
  have "unat (serialization_id (header_of bs)) + 32 * of_bool (is_event (header_of bs)) +
      64 * of_bool (need_return (header_of bs)) + 128 * of_bool (is_request (header_of bs)) = unat (bs ! 2)"
    unfolding ser using split by (simp add: top header_of_def Let_def of_bool_odd_eq_mod_2)
  then have flag: "flag_byte (header_of bs) = bs ! 2" by (simp only: flag_byte_def) simp
  show ?thesis
    using header_fields [OF assms] assms
    by (simp add: header_bytes_def flag) (simp add: header_of_def Let_def le)
qed

section \<open>Properties\<close>



end
