(* ===== verification/Dubbo_Client.thy ===== *)
theory Dubbo_Client
  imports Conn_Pool Dubbo_Header
begin

text \<open>
  \<open>dubbo_client\<close> of lib/dubbo_client.hpp: the text of a request, its header with the next request id,
  the exchange over a borrowed connection (\<open>async_request\<close>) or over one of its own (the deprecated
  \<open>sync_request\<close>), and the checks on the answer, in the order the code makes them.
\<close>

section \<open>State, status and result\<close>

record 's dubbo_client =
  server_addr :: string
  server_port :: "16 word"
  curr_request_id :: "64 word"
  pconns :: "'s conn_pool_coro"

datatype status_t = OK | CLIENT_TIMEOUT | SERVER_TIMEOUT | BAD_REQUREST | BAD_RESPONSE
  | SERVICE_NOT_FOUND | SERVICE_ERROR | SERVER_ERROR | CLIENT_ERROR
  | SERVER_THREADPOOL_EXHAUSTED_ERROR | Unnamed_Status byte

datatype result_type = RESPONSE_NULL_VALUE | RESPONSE_VALUE | RESPONSE_WITH_EXCEPTION
  | Unnamed_Type "32 word"

record request_result_t =
  result_status :: status_t
  type_of_result :: result_type
  result_value :: string

text \<open>The casts to the two enumerations; a number with no enumerator is kept as it is.\<close>

definition status_of :: "byte \<Rightarrow> status_t" where
  "status_of b =
     (if b = 20 then OK else if b = 30 then CLIENT_TIMEOUT else if b = 31 then SERVER_TIMEOUT
      else if b = 40 then BAD_REQUREST else if b = 50 then BAD_RESPONSE
      else if b = 60 then SERVICE_NOT_FOUND else if b = 70 then SERVICE_ERROR
      else if b = 80 then SERVER_ERROR else if b = 90 then CLIENT_ERROR
      else if b = 100 then SERVER_THREADPOOL_EXHAUSTED_ERROR else Unnamed_Status b)"

definition result_type_of :: "32 word \<Rightarrow> result_type" where
  "result_type_of i =
     (if i = 2 then RESPONSE_NULL_VALUE else if i = 1 then RESPONSE_VALUE
      else if i = 0 then RESPONSE_WITH_EXCEPTION else Unnamed_Type i)"

definition new_dubbo_client :: "string \<Rightarrow> 16 word \<Rightarrow> 's dubbo_client" where
  "new_dubbo_client addr port =
     \<lparr>server_addr = addr, server_port = port, curr_request_id = 0x1998427, pconns = empty_pool\<rparr>"

section \<open>The request\<close>

definition payload_format :: string where
  \<open>payload_format =
     ''"2.0.1"'' @ [LF] @ ''"{}"'' @ [LF] @ ''null'' @ [LF] @ ''"{}"'' @ [LF] @ ''"{}"'' @ [LF] @
     ''"{}"'' @ [LF] @ ''{"path":"{}"}'' @ [LF]\<close>

definition request_payload :: "rlib \<Rightarrow> string \<Rightarrow> string \<Rightarrow> string \<Rightarrow> string \<Rightarrow> string" where
  "request_payload R service_name method_name method_arg_type method_arg =
     rl_format R payload_format [service_name, method_name, method_arg_type, method_arg, service_name]"

definition request_header :: "64 word \<Rightarrow> string \<Rightarrow> dubbo_header" where
  "request_header req_id payload =
     \<lparr>hdr_magic = dubbo_magic, serialization_id = 6, is_event = False, need_return = True,
      is_request = True, hdr_status = 0, hdr_request_id = req_id,
      data_length = byte_swap (of_nat (length payload))\<rparr>"

section \<open>The answer\<close>

text \<open>What is decided from the header alone, before the payload is read: its length.\<close>

definition answer_length :: "dubbo_header \<Rightarrow> nat result" where
  "answer_length header =
     (let n = unat (byte_swap (data_length header))
      in if 1024 * 1024 * 1024 < n
         then Inl (Runtime_Error
           ''Dubbo server says the payload length is >1GiB. It's dangerous so I rejected.'')
         else Inr n)"

text \<open>What is decided after the payload was read: first the magic number, then the three lines.\<close>

definition answer_result :: "rlib \<Rightarrow> dubbo_header \<Rightarrow> byte list \<Rightarrow> request_result_t result" where
  "answer_result R header payload_buffer =
     (if hdr_magic header \<noteq> dubbo_magic
      then Inl (Runtime_Error ''dubbo_client.hpp:Dubbo returns wrong magic.'')
      else let payload_array = rl_split R LF (string_of payload_buffer)
           in if length payload_array \<noteq> 3
              then Inl (Runtime_Error (rl_format R ''dubbo_client: Got invalid payload array `{}`''
                                         [string_of payload_buffer]))
              else bind_result (rl_as_int R (payload_array ! 0))
                     (\<lambda>ty. Inr \<lparr>result_status = status_of (hdr_status header),
                               type_of_result = result_type_of ty, result_value = payload_array ! 1\<rparr>))"

section \<open>The exchange\<close>

definition exchange ::
  "rlib \<Rightarrow> ('s, 'p, 'w) net \<Rightarrow> dubbo_header \<Rightarrow> string \<Rightarrow> 's \<Rightarrow> (request_result_t, 'w) step" where
  "exchange R net header payload sock =
     and_then (or_fatal (net_write net sock (header_bytes header))) (\<lambda>_.
     and_then (or_fatal (net_write net sock (bytes_of payload))) (\<lambda>_.
     and_then (read_or_fatal (net_read net sock 16)) (\<lambda>bs.
     and_then (lift_result (answer_length (header_of bs))) (\<lambda>n.
     and_then (read_or_fatal (net_read net sock n)) (\<lambda>body.
     lift_result (answer_result R (header_of bs) body))))))"

text \<open>
  \<open>async_request\<close>: the id is taken before the connection is borrowed, so it is used up whether or not
  the exchange works out. \<open>None\<close>: the coroutine waits for a connection.
\<close>

definition async_request ::
  "rlib \<Rightarrow> ('s, 'p, 'w) net \<Rightarrow> addr \<Rightarrow> string \<Rightarrow> string \<Rightarrow> string \<Rightarrow> string \<Rightarrow> 's dubbo_client \<Rightarrow> 'w \<Rightarrow>
   (request_result_t result \<times> 's dubbo_client \<times> 'w) option" where
  "async_request R net fresh service_name method_name method_arg_type method_arg c w =
     (let payload = request_payload R service_name method_name method_arg_type method_arg;
          header = request_header (curr_request_id c) payload;
          c1 = c\<lparr>curr_request_id := curr_request_id c + 1\<rparr>
      in case with_conn DUBBO_CLI_CONN_POOL_SIZE net (server_addr c) (server_port c) fresh
                (exchange R net header payload) (pconns c1) w of
           None \<Rightarrow> None
         | Some (r, p, w1) \<Rightarrow> Some (r, c1\<lparr>pconns := p\<rparr>, w1))"

text \<open>The deprecated \<open>sync_request\<close>: a connection of its own, and calls that throw.\<close>

definition sync_request ::
  "rlib \<Rightarrow> ('s, 'p, 'w) net \<Rightarrow> string \<Rightarrow> string \<Rightarrow> string \<Rightarrow> string \<Rightarrow> 's dubbo_client \<Rightarrow> 'w \<Rightarrow>
   request_result_t result \<times> 's dubbo_client \<times> 'w" where
  "sync_request R net service_name method_name method_arg_type method_arg c w =
     (let payload = request_payload R service_name method_name method_arg_type method_arg;
          header = request_header (curr_request_id c) payload;
          c1 = c\<lparr>curr_request_id := curr_request_id c + 1\<rparr>;
          (r, w1) =
            and_then (quick_connect net (server_addr c) (server_port c)) (\<lambda>sock.
            and_then (net_sync_write net sock (header_bytes header)) (\<lambda>_.
            and_then (net_sync_write net sock (bytes_of payload)) (\<lambda>_.
            and_then (net_sync_read net sock 16) (\<lambda>bs.
            and_then (lift_result (answer_length (header_of bs))) (\<lambda>n.
            and_then (net_sync_read net sock n) (\<lambda>body.
            lift_result (answer_result R (header_of bs) body))))))) w
      in (r, c1, w1))"

section \<open>What a request and an answer look like\<close>

text \<open>The lines of a request, and of an answer: its type, its value, and what follows.\<close>

definition request_lines :: "string \<Rightarrow> string \<Rightarrow> string \<Rightarrow> string \<Rightarrow> string list" where
  \<open>request_lines svc m types arg =
     [''"2.0.1"'', ''"'' @ svc @ ''"'', ''null'', ''"'' @ m @ ''"'', ''"'' @ types @ ''"'',
      ''"'' @ arg @ ''"'', ''{"path":"'' @ svc @ ''"}'', []]\<close>

definition answer_text :: "nat \<Rightarrow> string \<Rightarrow> string" where
  "answer_text ty val = intercalate [LF] [decimal ty, val, []]"

lemma request_payload_lines:
  assumes "rlib_laws R"
  shows "request_payload R svc m types arg = intercalate [LF] (request_lines svc m types arg)"
  unfolding request_payload_def
  by (subst rl_format [OF assms]) (simp_all add: payload_format_def request_lines_def)

lemma LF_not_digit: "LF \<notin> set (decimal n)"
  by (rule decimal_no_char) (simp add: is_digit_def)

lemma answer_result_text:
  assumes "rlib_laws R" and "hdr_magic h = dubbo_magic" and "ty < 2 ^ 31" and "LF \<notin> set val"
  shows "answer_result R h (bytes_of (answer_text ty val)) =
    Inr \<lparr>result_status = status_of (hdr_status h), type_of_result = result_type_of (of_nat ty),
         result_value = val\<rparr>"
proof -
  have "split_on LF (answer_text ty val) = [decimal ty, val, []]"
    unfolding answer_text_def using assms(4) LF_not_digit by (intro split_on_intercalate) auto
  then show ?thesis
    using assms(2) rl_as_int [OF assms(1,3)]
    by (simp add: answer_result_def rlib_ops [OF assms(1)])
qed

section \<open>The exchange over a stream\<close>

lemma pool_size_word: "DUBBO_CLI_CONN_POOL_SIZE = unat (256 :: 64 word)"
  by (simp add: DUBBO_CLI_CONN_POOL_SIZE_def)

text \<open>Both parts of the request go out; \<open>v\<close> is the world after.\<close>

definition request_sent ::
  "('s, 'p, 'w) net \<Rightarrow> 's \<Rightarrow> dubbo_header \<Rightarrow> string \<Rightarrow> 'w \<Rightarrow> 'w \<Rightarrow> bool" where
  "request_sent net s header payload w v \<longleftrightarrow>
     (\<exists>u. net_write net s (header_bytes header) w = (None, u) \<and>
          net_write net s (bytes_of payload) u = (None, v))"

lemma exchange_header:
  assumes "stream_laws net inbox" and "delivers net inbox s" and "request_sent net s rq payload w v"
    and "inbox s v = header_bytes h @ later"
  obtains v1 where "inbox s v1 = later" and
    "exchange R net rq payload s w =
       and_then (lift_result (answer_length h)) (\<lambda>n.
       and_then (read_or_fatal (net_read net s n)) (\<lambda>body. lift_result (answer_result R h body))) v1"
proof -
  obtain u where w: "net_write net s (header_bytes rq) w = (None, u)"
    "net_write net s (bytes_of payload) u = (None, v)"
    using assms(3) by (auto simp: request_sent_def)
  obtain v1 where r: "net_read net s 16 v = (Inr (header_bytes h), v1)" "inbox s v1 = later"
    using read_next [OF assms(1,2,4), of 16] by auto
  show thesis
    by (rule that [of v1])
       (simp_all add: r exchange_def w or_fatal_def read_or_fatal_def and_then_def [of "or_fatal _"]
         and_then_def [of "read_or_fatal (net_read net s 16)"] header_of_header_bytes)
qed

lemma exchange_answered:
  assumes "stream_laws net inbox" and "delivers net inbox s" and "request_sent net s rq payload w v"
    and "inbox s v = header_bytes h @ body @ later"
    and "unat (byte_swap (data_length h)) = length body" and "length body \<le> 2 ^ 30"
  shows "\<exists>v'. exchange R net rq payload s w = (answer_result R h body, v') \<and> inbox s v' = later"
proof -
  obtain v1 where v1: "inbox s v1 = body @ later"
    "exchange R net rq payload s w =
       and_then (lift_result (answer_length h)) (\<lambda>n.
       and_then (read_or_fatal (net_read net s n)) (\<lambda>body. lift_result (answer_result R h body))) v1"
    using exchange_header [OF assms(1-4)] .
  obtain v2 where v2: "net_read net s (length body) v1 = (Inr body, v2)" "inbox s v2 = later"
    using read_next [OF assms(1,2) v1(1) refl] .
  have "answer_length h = Inr (length body)" using assms(5,6) by (simp add: answer_length_def)
  with v1(2) v2 show ?thesis by (simp add: and_then_def read_or_fatal_def)
qed

lemma exchange_oversized:
  assumes "stream_laws net inbox" and "delivers net inbox s" and "request_sent net s rq payload w v"
    and "inbox s v = header_bytes h @ later" and "2 ^ 30 < unat (byte_swap (data_length h))"
  shows "\<exists>v'. exchange R net rq payload s w =
      (Inl (Runtime_Error
         ''Dubbo server says the payload length is >1GiB. It's dangerous so I rejected.''), v') \<and>
    inbox s v' = later"
  using exchange_header [OF assms(1-4), of R] assms(5)
  by (fastforce simp: answer_length_def and_then_def)

lemma async_request_on_free:
  assumes "pool_ok DUBBO_CLI_CONN_POOL_SIZE (pconns c)" and "cells (buffer (pconns c)) fresh = None"
    and "free_list (pconns c) = a # rest" and "objects (pconns c) a = Some \<lparr>conn = s\<rparr>"
    and "payload = request_payload R svc m types arg"
    and "exchange R net (request_header (curr_request_id c) payload) payload s w = (r, w')"
  shows "\<exists>p'. async_request R net fresh svc m types arg c w =
      Some (r, c\<lparr>curr_request_id := curr_request_id c + 1, pconns := p'\<rparr>, w') \<and>
    pool_ok DUBBO_CLI_CONN_POOL_SIZE p' \<and> lent p' = lent (pconns c) \<and>
    free_list p' = free_list (pconns c) \<and> objects p' = objects (pconns c)"
  using with_conn_free [of 256 "pconns c" fresh a rest "\<lparr>conn = s\<rparr>" net "server_addr c" "server_port c"
      "exchange R net (request_header (curr_request_id c) payload) payload" w] assms
  unfolding pool_size_word by (auto simp: async_request_def pool_size_word)

text \<open>The first request of all makes the connection, and leaves it free for the next.\<close>

lemma async_request_on_made:
  assumes "pool_ok DUBBO_CLI_CONN_POOL_SIZE (pconns c)" and "cells (buffer (pconns c)) fresh = None"
    and "borrow_makes_one DUBBO_CLI_CONN_POOL_SIZE (pconns c)"
    and "quick_connect net (server_addr c) (server_port c) w = (Inr s, w1)"
    and "payload = request_payload R svc m types arg"
    and "exchange R net (request_header (curr_request_id c) payload) payload s w1 = (r, w')"
  shows "\<exists>p'. async_request R net fresh svc m types arg c w =
      Some (r, c\<lparr>curr_request_id := curr_request_id c + 1, pconns := p'\<rparr>, w') \<and>
    pool_ok DUBBO_CLI_CONN_POOL_SIZE p' \<and> lent p' = lent (pconns c) \<and>
    free_list p' = [fresh] \<and> objects p' fresh = Some \<lparr>conn = s\<rparr>"
proof -
  have "pooled_conn_new net (server_addr c) (server_port c) w = (Inr \<lparr>conn = s\<rparr>, w1)"
    using assms(4) by (simp add: pooled_conn_new_def)
  from with_conn_made [of 256 "pconns c" fresh net "server_addr c" "server_port c" w _ _
      "exchange R net (request_header (curr_request_id c) payload) payload", OF _ assms(2) _ this] assms(1,3,5,6)
  show ?thesis unfolding pool_size_word by (auto simp: async_request_def pool_size_word)
qed

text \<open>The client after a request, whatever its outcome.\<close>

lemma async_request_step:
  assumes "pool_ok DUBBO_CLI_CONN_POOL_SIZE (pconns c)" and "cells (buffer (pconns c)) fresh = None"
    and "async_request R net fresh svc m types arg c w = Some (r, c', w')"
  shows "curr_request_id c' = curr_request_id c + 1" "server_addr c' = server_addr c"
    "server_port c' = server_port c" "pool_ok DUBBO_CLI_CONN_POOL_SIZE (pconns c')"
    "lent (pconns c') = lent (pconns c)"
proof -
  let ?payload = "request_payload R svc m types arg"
  let ?header = "request_header (curr_request_id c) ?payload"
  obtain p' where p': "with_conn DUBBO_CLI_CONN_POOL_SIZE net (server_addr c) (server_port c) fresh
      (exchange R net ?header ?payload) (pconns c) w = Some (r, p', w')"
    "c' = c\<lparr>curr_request_id := curr_request_id c + 1, pconns := p'\<rparr>"
    using assms(3) by (auto simp: async_request_def Let_def split: option.splits)
  have "pool_ok DUBBO_CLI_CONN_POOL_SIZE p' \<and> lent p' = lent (pconns c)"
    using with_conn_balanced [OF assms(1) [unfolded pool_size_word] assms(2) p'(1) [unfolded pool_size_word]]
    unfolding pool_size_word .
  with p'(2) show "curr_request_id c' = curr_request_id c + 1" "server_addr c' = server_addr c"
    "server_port c' = server_port c" "pool_ok DUBBO_CLI_CONN_POOL_SIZE (pconns c')"
    "lent (pconns c') = lent (pconns c)" by simp_all
qed

section \<open>Properties\<close>

text \<open>
  The text of a request, cut at its line ends, is the version, the service, null, the method, the
  types, the argument, the path attachment and an empty line, each argument between quotes and as given:
  a server that reads line by line gets back exactly the four arguments.
\<close>

theorem dubbo_request_text:
  assumes "rlib_laws R" and "LF \<notin> set (svc @ m @ types @ arg)"
  shows "split_on LF (request_payload R svc m types arg) = request_lines svc m types arg"
  unfolding request_payload_lines [OF assms(1)]
  using assms(2) by (intro split_on_intercalate) (auto simp: request_lines_def)

theorem dubbo_request_text_witness:
  \<open>split_on LF (request_payload plain_rlib ''S'' ''hash'' ''T'' ''x'') =
     [''"2.0.1"'', ''"S"'', ''null'', ''"hash"'', ''"T"'', ''"x"'', ''{"path":"S"}'', []]\<close>
  using dubbo_request_text [OF plain_rlib_laws, of "''S''" "''hash''" "''T''" "''x''"]
  by (simp add: request_lines_def)

text \<open>
  The header of a request goes out as the bytes the Dubbo protocol prescribes: the magic number
  \<open>da bb\<close>, the flag byte \<open>c6\<close> (request, two-way, no event, serialization 6), a zero status, the request
  id, and the length of the payload (modulo 2^32) with the most significant byte first.
\<close>

theorem request_header_image:
  "header_bytes (request_header req_id payload) =
     [0xda, 0xbb, 0xc6, 0] @ le_bytes 8 (unat req_id) @ rev (le_bytes 4 (length payload mod 2 ^ 32))"
proof -
  have "le_bytes 2 (unat dubbo_magic) = [0xda, 0xbb]"
  proof -
    have "le_bytes (Suc (Suc 0)) 48090 = [0xda, 0xbb]" by simp
    then show ?thesis by (simp add: dubbo_magic_def flip: numeral_2_eq_2)
  qed
  moreover have "flag_byte (request_header req_id payload) = 0xc6"
    by (simp add: flag_byte_def request_header_def)
  moreover have "unat (of_nat (length payload) :: 32 word) = length payload mod 2 ^ 32"
    unfolding unat_of_nat by simp
  ultimately show ?thesis
    by (simp only: header_bytes_def request_header_def dubbo_header.simps le_bytes_byte_swap
        append_Cons append_Nil)
qed

text \<open>A client whose pool has one free connection, and a server that answers once it has the request.\<close>

definition sample_client :: "nat dubbo_client" where
  "sample_client =
     \<lparr>server_addr = ''localhost'', server_port = 20880, curr_request_id = 0x1998427,
      pconns = single_pool 5 \<lparr>conn = 0\<rparr>\<rparr>"

definition server_sends :: "byte list \<Rightarrow> byte list \<Rightarrow> byte list" where
  "server_sends bs out = (if length out \<le> 16 then [] else bs)"

definition no_bytes_yet :: memory where
  "no_bytes_yet = \<lparr>arrived = (\<lambda>_. []), sent = (\<lambda>_. []), sockets = 1\<rparr>"

lemma request_payload_not_Nil: "rlib_laws R \<Longrightarrow> request_payload R svc m types arg \<noteq> []"
  by (simp add: request_payload_lines request_lines_def)

lemma sample_request_sent:
  assumes "payload \<noteq> []"
  shows "\<exists>v. request_sent (memory_net (server_sends bs)) 0 rq payload no_bytes_yet v \<and> arrived v 0 = bs"
  using assms
  by (auto simp: request_sent_def memory_net_def memory_write_def no_bytes_yet_def server_sends_def)

lemma sample_client_ready:
  "pool_ok DUBBO_CLI_CONN_POOL_SIZE (pconns sample_client)" "cells (buffer (pconns sample_client)) 9 = None"
  "free_list (pconns sample_client) = [5]" "objects (pconns sample_client) 5 = Some \<lparr>conn = 0\<rparr>"
  by (simp_all add: sample_client_def single_pool_ok DUBBO_CLI_CONN_POOL_SIZE_def)

text \<open>
  C12: over a stream socket, a request that goes out and is answered by a header with the right magic
  number and the length of a body of type, value and empty line gives the status, the type and the
  value of the answer, whatever request id the answer has. The read takes exactly the answer from the stream, the
  request id is used up, and the connection is back in the pool.
\<close>

theorem dubbo_request_answered:
  assumes "rlib_laws R" and "stream_laws net inbox" and "delivers net inbox s"
    and "pool_ok DUBBO_CLI_CONN_POOL_SIZE (pconns c)" and "cells (buffer (pconns c)) fresh = None"
    and "free_list (pconns c) = a # rest" and "objects (pconns c) a = Some \<lparr>conn = s\<rparr>"
    and "payload = request_payload R svc m types arg"
    and "request_sent net s (request_header (curr_request_id c) payload) payload w v"
    and "inbox s v = header_bytes h @ bytes_of (answer_text ty val) @ later"
    and "hdr_magic h = dubbo_magic" and "data_length h = byte_swap (of_nat (length (answer_text ty val)))"
    and "length (answer_text ty val) \<le> 2 ^ 30" and "ty < 2 ^ 31" and "LF \<notin> set val"
  shows "\<exists>c' w'. async_request R net fresh svc m types arg c w =
      Some (Inr \<lparr>result_status = status_of (hdr_status h), type_of_result = result_type_of (of_nat ty),
                 result_value = val\<rparr>, c', w') \<and>
    inbox s w' = later \<and> curr_request_id c' = curr_request_id c + 1 \<and>
    pool_ok DUBBO_CLI_CONN_POOL_SIZE (pconns c') \<and> lent (pconns c') = lent (pconns c)"
proof -
  have "unat (byte_swap (data_length h)) = length (bytes_of (answer_text ty val))"
    using assms(12,13) by (simp add: unat_of_nat)
  then obtain w' where w': "exchange R net (request_header (curr_request_id c) payload) payload s w =
      (answer_result R h (bytes_of (answer_text ty val)), w')" "inbox s w' = later"
    using exchange_answered [OF assms(2,3,9,10), of R] assms(13) by auto
  from async_request_on_free [OF assms(4-8) w'(1)] w'(2) answer_result_text [OF assms(1,11,14,15)]
  show ?thesis by fastforce
qed

definition sample_answer_header :: "nat \<Rightarrow> dubbo_header" where
  "sample_answer_header n =
     \<lparr>hdr_magic = dubbo_magic, serialization_id = 6, is_event = False, need_return = False,
      is_request = False, hdr_status = 20, hdr_request_id = 7, data_length = byte_swap (of_nat n)\<rparr>"

theorem dubbo_request_answered_witness:
  "\<exists>c' w'. async_request plain_rlib
       (memory_net (server_sends (header_bytes (sample_answer_header 5) @ bytes_of (answer_text 1 ''42''))))
       9 ''S'' ''hash'' ''T'' ''x'' sample_client no_bytes_yet =
     Some (Inr \<lparr>result_status = OK, type_of_result = RESPONSE_VALUE, result_value = ''42''\<rparr>, c', w')"
proof -
  let ?bs = "header_bytes (sample_answer_header 5) @ bytes_of (answer_text 1 ''42'')"
  have answer5: "answer_text 1 ''42'' = [CHR ''1'', LF, CHR ''4'', CHR ''2'', LF]"
    by (simp add: answer_text_def decimal.simps)
  obtain v where v: "request_sent (memory_net (server_sends ?bs)) 0
      (request_header (curr_request_id sample_client) (request_payload plain_rlib ''S'' ''hash'' ''T'' ''x''))
      (request_payload plain_rlib ''S'' ''hash'' ''T'' ''x'') no_bytes_yet v" "arrived v 0 = ?bs"
    using sample_request_sent [OF request_payload_not_Nil [OF plain_rlib_laws]] by blast
  have "arrived v 0 = header_bytes (sample_answer_header 5) @ bytes_of (answer_text 1 ''42'') @ []"
    using v(2) by simp
  from dubbo_request_answered [OF plain_rlib_laws memory_net_laws memory_net_delivers
      sample_client_ready refl v(1) this]
  show ?thesis
    by (auto simp: answer5 sample_answer_header_def status_of_def result_type_of_def simp del: One_nat_def)
qed

text \<open>
  Whatever happens to a request, an exception included, it uses up exactly one request id and gives
  the connection back: the same connections are lent after as before and the pool is well formed.
\<close>

theorem async_request_keeps_pool:
  assumes "pool_ok DUBBO_CLI_CONN_POOL_SIZE (pconns c)" and "cells (buffer (pconns c)) fresh = None"
    and "async_request R net fresh svc m types arg c w = Some (r, c', w')"
  shows "curr_request_id c' = curr_request_id c + 1 \<and> server_addr c' = server_addr c \<and>
    server_port c' = server_port c \<and> pool_ok DUBBO_CLI_CONN_POOL_SIZE (pconns c') \<and>
    lent (pconns c') = lent (pconns c)"
  using async_request_step [OF assms] by blast

theorem async_request_keeps_pool_witness:
  "\<exists>r c' w'. async_request plain_rlib (memory_net (server_sends [])) 9 ''S'' ''m'' ''T'' ''x''
       sample_client no_bytes_yet = Some (r, c', w') \<and>
     curr_request_id c' = 0x1998428 \<and> lent (pconns c') = {}"
proof -
  obtain r w' where "exchange plain_rlib (memory_net (server_sends []))
      (request_header (curr_request_id sample_client) (request_payload plain_rlib ''S'' ''m'' ''T'' ''x''))
      (request_payload plain_rlib ''S'' ''m'' ''T'' ''x'') 0 no_bytes_yet = (r, w')" by force
  from async_request_on_free [OF sample_client_ready refl this]
  obtain c' where c': "async_request plain_rlib (memory_net (server_sends [])) 9 ''S'' ''m'' ''T'' ''x''
       sample_client no_bytes_yet = Some (r, c', w')" by blast
  from c' async_request_keeps_pool [OF sample_client_ready(1,2) c'] show ?thesis
    by (auto simp: sample_client_def)
qed

text \<open>
  C39: an answer that claims more than 1 GiB is refused with an exception, but its payload stays unread in
  the connection, and the connection goes back to the front of the free list as it is: the next request
  is lent the same connection and takes the bytes of the refused payload for the header of its answer.
\<close>

theorem dubbo_oversized_answer_stays_in_connection:
  assumes "stream_laws net inbox" and "delivers net inbox s"
    and "pool_ok DUBBO_CLI_CONN_POOL_SIZE (pconns c)" and "cells (buffer (pconns c)) fresh = None"
    and "free_list (pconns c) = a # rest" and "objects (pconns c) a = Some \<lparr>conn = s\<rparr>"
    and "payload = request_payload R svc m types arg"
    and "request_sent net s (request_header (curr_request_id c) payload) payload w v"
    and "inbox s v = header_bytes h @ refused" and "2 ^ 30 < unat (byte_swap (data_length h))"
  shows "\<exists>c' w'. async_request R net fresh svc m types arg c w =
      Some (Inl (Runtime_Error
        ''Dubbo server says the payload length is >1GiB. It's dangerous so I rejected.''), c', w') \<and>
    inbox s w' = refused \<and> hd (free_list (pconns c')) = a \<and> objects (pconns c') a = Some \<lparr>conn = s\<rparr>"
proof -
  obtain w' where w': "exchange R net (request_header (curr_request_id c) payload) payload s w =
      (Inl (Runtime_Error ''Dubbo server says the payload length is >1GiB. It's dangerous so I rejected.''), w')"
    "inbox s w' = refused"
    using exchange_oversized [OF assms(1,2,8,9,10)] by blast
  from async_request_on_free [OF assms(3-7) w'(1)] w'(2) assms(5,6) show ?thesis by fastforce
qed

theorem dubbo_oversized_answer_stays_in_connection_witness:
  "\<exists>c' w'. async_request plain_rlib
       (memory_net (server_sends (header_bytes (sample_answer_header (2 ^ 30 + 1)) @ [1, 2, 3])))
       9 ''S'' ''hash'' ''T'' ''x'' sample_client no_bytes_yet =
     Some (Inl (Runtime_Error
        ''Dubbo server says the payload length is >1GiB. It's dangerous so I rejected.''), c', w') \<and>
     arrived w' 0 = [1, 2, 3]"
proof -
  let ?h = "sample_answer_header (2 ^ 30 + 1)"
  obtain v where v: "request_sent (memory_net (server_sends (header_bytes ?h @ [1, 2, 3]))) 0
      (request_header (curr_request_id sample_client) (request_payload plain_rlib ''S'' ''hash'' ''T'' ''x''))
      (request_payload plain_rlib ''S'' ''hash'' ''T'' ''x'') no_bytes_yet v"
    "arrived v 0 = header_bytes ?h @ [1, 2, 3]"
    using sample_request_sent [OF request_payload_not_Nil [OF plain_rlib_laws]] by blast
  have "2 ^ 30 < unat (byte_swap (data_length ?h))"
    by (simp add: sample_answer_header_def)
  from dubbo_oversized_answer_stays_in_connection [OF memory_net_laws memory_net_delivers
      sample_client_ready refl v this]
  show ?thesis by blast
qed

text \<open>
  The deprecated \<open>sync_request\<close> has the same exchange as \<open>async_request\<close>, over a connection it
  makes for itself: with throwing calls that fail when the others do, its result is that of \<open>exchange\<close>
  on the new socket, and the pool is not touched.
\<close>

theorem sync_request_is_exchange:
  assumes "net_sync_write net = (\<lambda>s bs. or_fatal (net_write net s bs))"
    and "net_sync_read net = (\<lambda>s n. read_or_fatal (net_read net s n))"
  shows "sync_request R net svc m types arg c w =
    (let payload = request_payload R svc m types arg;
         (r, w1) = and_then (quick_connect net (server_addr c) (server_port c))
           (exchange R net (request_header (curr_request_id c) payload) payload) w
     in (r, c\<lparr>curr_request_id := curr_request_id c + 1\<rparr>, w1))"
  by (simp add: sync_request_def exchange_def [abs_def] Let_def assms)

theorem sync_request_is_exchange_witness:
  "fst (sync_request plain_rlib (memory_net (server_sends [])) ''S'' ''m'' ''T'' ''x'' sample_client
       no_bytes_yet) = Inl (Runtime_Error ''End of file'')"
  using request_payload_not_Nil [OF plain_rlib_laws, of "''S''" "''m''" "''T''" "''x''"]
  by (subst sync_request_is_exchange)
     (auto simp: memory_net_def quick_connect_def no_bytes_yet_def exchange_def or_fatal_def
       read_or_fatal_def memory_write_def memory_read_def server_sends_def boost_fatal_def eof_code_def
       and_then_def Let_def)

end
