(* ===== verification/Wires.thy ===== *)
theory Wires
  imports Pool_Coro
begin

text \<open>
  Coroutines that use the connections of one pool (lib/pool.hpp) side by side, each for a call of its own: what
  is on the way on every connection, in both directions, as long as a call leaves its connection as it found it.
  The two protocols of the agent, to the Dubbo server and between the two agents, are instances.
\<close>

section \<open>What is on the way\<close>

text \<open>
  \<open>ok call out inb\<close> says what may be on the way on the connection of a call, by how far the call is: \<open>out\<close>
  towards the server, \<open>inb\<close> back. A connection nobody holds is silent; one that failed (\<open>br\<close>) carries
  nothing any more.
\<close>

definition wires_inv ::
  "('call \<Rightarrow> byte list \<Rightarrow> byte list \<Rightarrow> bool) \<Rightarrow> (nat \<Rightarrow> coro_pc) \<Rightarrow> (nat \<Rightarrow> 'call) \<Rightarrow>
   (addr \<Rightarrow> byte list) \<Rightarrow> (addr \<Rightarrow> byte list) \<Rightarrow> addr set \<Rightarrow> bool" where
  "wires_inv ok f c out inb br \<longleftrightarrow>
     (\<forall>i a. f i = Holding a \<longrightarrow> a \<notin> br \<longrightarrow> ok (c i) (out a) (inb a)) \<and>
     (\<forall>a. (\<forall>i. f i \<noteq> Holding a) \<longrightarrow> a \<notin> br \<longrightarrow> out a = [] \<and> inb a = [])"

lemma wires_held: "wires_inv ok f c out inb br \<Longrightarrow> f i = Holding a \<Longrightarrow> a \<notin> br \<Longrightarrow> ok (c i) (out a) (inb a)"
  and wires_free: "wires_inv ok f c out inb br \<Longrightarrow> (\<And>i. f i \<noteq> Holding a) \<Longrightarrow> a \<notin> br \<Longrightarrow> out a = [] \<and> inb a = []"
  by (auto simp: wires_inv_def)

lemma wires_update:
  assumes "wires_inv ok f c out inb br" and "f i = Holding a" and "\<And>j. f j = Holding a \<Longrightarrow> j = i"
    and "a \<notin> br \<Longrightarrow> ok pc x y"
  shows "wires_inv ok f (c(i := pc)) (out(a := x)) (inb(a := y)) br"
  unfolding wires_inv_def
proof (intro conjI allI impI)
  fix j b
  assume j: "f j = Holding b" "b \<notin> br"
  show "ok ((c(i := pc)) j) ((out(a := x)) b) ((inb(a := y)) b)"
  proof (cases "j = i")
    case True
    then show ?thesis using assms(2,4) j by simp
  next
    case False
    then have "b \<noteq> a" using assms(3) j by blast
    then show ?thesis using False wires_held [OF assms(1) j] by simp
  qed
next
  fix b
  assume b: "\<forall>i. f i \<noteq> Holding b" "b \<notin> br"
  then have "b \<noteq> a" using assms(2) by blast
  then show "(out(a := x)) b = []" "(inb(a := y)) b = []"
    using wires_free [OF assms(1)] b by simp_all
qed

text \<open>A call of a coroutine that holds nothing may change freely.\<close>

lemma wires_not_held:
  assumes "wires_inv ok f c out inb br" and "\<And>a. f i \<noteq> Holding a"
  shows "wires_inv ok f (c(i := pc)) out inb br"
  using assms by (auto simp: wires_inv_def)

lemma wires_break:
  assumes "wires_inv ok f c out inb br" and "f i = Holding a"
  shows "wires_inv ok f (c(i := pc)) out inb (insert a br)"
  unfolding wires_inv_def
proof (intro conjI allI impI)
  fix j b
  assume j: "f j = Holding b" "b \<notin> insert a br"
  then have "j \<noteq> i" using assms(2) by auto
  then show "ok ((c(i := pc)) j) (out b) (inb b)" using wires_held [OF assms(1) j(1)] j(2) by simp
next
  fix b
  assume "\<forall>i. f i \<noteq> Holding b" "b \<notin> insert a br"
  then show "out b = []" "inb b = []" using wires_free [OF assms(1)] by simp_all
qed

text \<open>One coroutine's holding a connection is nobody else's.\<close>

lemma one_holder:
  assumes "coro_inv pending m exns s" and "coros s i = Holding a" and "coros s j = Holding a"
  shows "j = i"
  using exact_one [OF coro_inv_holders [OF assms(1)], of j a i] assms(2,3) by simp

section \<open>Calls that leave their connection silent\<close>

text \<open>
  \<open>asks call\<close>: the call is where it borrows its connection; \<open>finished call\<close>: it is where it gives it back.
\<close>

locale connection_use =
  fixes ok :: "'call \<Rightarrow> byte list \<Rightarrow> byte list \<Rightarrow> bool"
    and asks :: "'call \<Rightarrow> bool"
    and finished :: "'call \<Rightarrow> bool"
  assumes asks_silent: "asks call \<Longrightarrow> ok call [] []"
    and finished_silent: "finished call \<Longrightarrow> ok call out inb \<Longrightarrow> out = [] \<and> inb = []"
begin

lemma pool_step_wires:
  assumes "coro_step api m exns c c'" and "m < 2 ^ 64" and "coro_inv pending m exns c"
    and leaves: "\<And>i. coros c i = Resting \<Longrightarrow> coros c' i \<noteq> Resting \<Longrightarrow> asks (f i)"
    and gives: "\<And>i a. coros c i = Holding a \<Longrightarrow> coros c' i \<noteq> Holding a \<Longrightarrow> finished (f i)"
    and seeks: "\<And>i. seeking (coros c i) \<Longrightarrow> asks (f i)"
    and w: "wires_inv ok (coros c) f out inb br"
  shows "wires_inv ok (coros c') f out inb br"
  unfolding wires_inv_def
proof (intro conjI allI impI)
  fix i a
  assume i: "coros c' i = Holding a" "a \<notin> br"
  show "ok (f i) (out a) (inb a)"
  proof (cases "coros c i = Holding a")
    case True
    then show ?thesis using wires_held [OF w] i(2) by blast
  next
    case False
    note t = coro_step_takes [OF assms(1-3) i(1) False]
    have "out a = [] \<and> inb a = []" using wires_free [OF w _ i(2)] t(1) by blast
    moreover have "asks (f i)" using t(2) leaves [of i] seeks [of i] i(1) by (auto simp: seeking_def)
    ultimately show ?thesis using asks_silent by simp
  qed
next
  fix a
  assume a: "\<forall>i. coros c' i \<noteq> Holding a" "a \<notin> br"
  have "out a = [] \<and> inb a = []"
  proof (cases "\<exists>i. coros c i = Holding a")
    case True
    then obtain i where i: "coros c i = Holding a" by blast
    then have "finished (f i)" using gives a(1) by blast
    then show ?thesis using finished_silent wires_held [OF w i a(2)] by blast
  next
    case False
    then show ?thesis using wires_free [OF w _ a(2)] by blast
  qed
  then show "out a = []" "inb a = []" by blast+
qed

text \<open>Who seeks a connection after a step of the pool asks for one.\<close>

lemma pool_step_asks:
  assumes "coro_step api m exns c c'" and "timer_laws api pending" and "coro_inv pending m exns c"
    and "\<And>i. coros c i = Resting \<Longrightarrow> coros c' i \<noteq> Resting \<Longrightarrow> asks (f i)"
    and "\<And>i. seeking (coros c i) \<Longrightarrow> asks (f i)" and "seeking (coros c' i)"
  shows "asks (f i)"
  using coro_step_seeks [OF assms(1-3,6)] assms(4) [of i] assms(5) [of i] assms(6) by (auto simp: seeking_def)

end

end
