(* ===== verification/Dubbo_Coro.thy ===== *)
theory Dubbo_Coro
  imports Dubbo_Client Wires
begin

text \<open>
  Requests of \<open>dubbo_client\<close> (lib/dubbo_client.hpp) made at the same time by any number of coroutines,
  on any number of threads: the steps of \<open>async_request\<close> between its suspension points, interleaved with
  each other, with the steps of the connection pool (\<open>Pool_Coro\<close>) and with the server. What is on the way
  in either direction on a connection is a list of bytes. The code never compares the request id of an
  answer with the one it sent; here is why each call still gets its own answer.
\<close>

section \<open>The state\<close>

text \<open>
  A call is its payload, the text made of the four arguments. \<open>Id_Loaded\<close>: between the load of
  \<open>curr_request_id\<close> into the header and the \<open>+= 1\<close>, two operations on the atomic. A call that is
  \<open>Finished\<close> has its result or its exception, and the scope guard gives the connection back next.
\<close>

datatype call_pc =
  Idle
  | Id_Loaded string "64 word"
  | Numbered string "64 word"
  | Header_Sent string "64 word"
  | Payload_Sent string "64 word"
  | Header_Read string "64 word" dubbo_header
  | Finished string "64 word" "request_result_t result"

record ('s, 't) call_sys =
  conns :: "('s pooled_conn, 't) coro_sys"
  next_id :: "64 word"
  calls :: "nat \<Rightarrow> call_pc"
  to_server :: "addr \<Rightarrow> byte list"
  to_client :: "addr \<Rightarrow> byte list"
  broken :: "addr set"

definition init_calls :: "('t, nat) timer_api \<Rightarrow> ('s, 't) call_sys" where
  "init_calls api =
     \<lparr>conns = init_coros api, next_id = curr_request_id (new_dubbo_client [] 0 :: 's dubbo_client),
      calls = (\<lambda>_. Idle), to_server = (\<lambda>_. []), to_client = (\<lambda>_. []), broken = {}\<rparr>"

section \<open>The steps\<close>

text \<open>
  When the pool may move a coroutine: it asks for a connection once its call has a number, and gives the
  connection back once its call is finished.
\<close>

definition may_move :: "call_pc \<Rightarrow> coro_pc \<Rightarrow> coro_pc \<Rightarrow> bool" where
  "may_move call pc pc' \<longleftrightarrow>
     (pc = Resting \<and> pc' \<noteq> Resting \<longrightarrow> (\<exists>q n. call = Numbered q n)) \<and>
     ((\<exists>a. pc = Holding a) \<and> pc' \<noteq> pc \<longrightarrow> (\<exists>q n r. call = Finished q n r))"

text \<open>After the header: too long an answer is refused, otherwise the payload is read.\<close>

definition after_header :: "string \<Rightarrow> 64 word \<Rightarrow> dubbo_header \<Rightarrow> call_pc" where
  "after_header q n h =
     (case answer_length h of Inl e \<Rightarrow> Finished q n (Inl e) | Inr _ \<Rightarrow> Header_Read q n h)"

text \<open>Where a call suspends on its connection, and the exception of an error code then.\<close>

fun on_connection :: "call_pc \<Rightarrow> (string \<times> 64 word) option" where
  "on_connection (Numbered q n) = Some (q, n)"
| "on_connection (Header_Sent q n) = Some (q, n)"
| "on_connection (Payload_Sent q n) = Some (q, n)"
| "on_connection (Header_Read q n h) = Some (q, n)"
| "on_connection _ = None"

text \<open>
  \<open>reply\<close> is the server: what it answers to a request it has received in full. A connection on which an
  operation failed is broken and carries nothing more. Payloads are of less than 4 GiB, so that the length in the
  header is the length of the payload.
\<close>

inductive call_step ::
  "rlib \<Rightarrow> (dubbo_header \<Rightarrow> byte list \<Rightarrow> dubbo_header \<times> byte list) \<Rightarrow> ('t, nat) timer_api \<Rightarrow> nat \<Rightarrow> error set \<Rightarrow>
   ('s, 't) call_sys \<Rightarrow> ('s, 't) call_sys \<Rightarrow> bool"
  for R reply api m exns where
  load_id: "calls s i = Idle \<or> (\<exists>q n r. calls s i = Finished q n r) \<Longrightarrow> coros (conns s) i = Resting \<Longrightarrow>
     payload = request_payload R svc meth types arg \<Longrightarrow> length payload < 2 ^ 32 \<Longrightarrow>
     call_step R reply api m exns s (s\<lparr>calls := (calls s)(i := Id_Loaded payload (next_id s))\<rparr>)"
| add_one: "calls s i = Id_Loaded q n \<Longrightarrow>
     call_step R reply api m exns s (s\<lparr>next_id := next_id s + 1, calls := (calls s)(i := Numbered q n)\<rparr>)"
| pool_moves: "coro_step api m exns (conns s) c \<Longrightarrow>
     \<forall>i. may_move (calls s i) (coros (conns s) i) (coros c i) \<Longrightarrow>
     call_step R reply api m exns s (s\<lparr>conns := c\<rparr>)"
| write_header: "coros (conns s) i = Holding a \<Longrightarrow> calls s i = Numbered q n \<Longrightarrow> a \<notin> broken s \<Longrightarrow>
     call_step R reply api m exns s
       (s\<lparr>to_server := (to_server s)(a := to_server s a @ header_bytes (request_header n q)),
         calls := (calls s)(i := Header_Sent q n)\<rparr>)"
| write_payload: "coros (conns s) i = Holding a \<Longrightarrow> calls s i = Header_Sent q n \<Longrightarrow> a \<notin> broken s \<Longrightarrow>
     call_step R reply api m exns s
       (s\<lparr>to_server := (to_server s)(a := to_server s a @ bytes_of q),
         calls := (calls s)(i := Payload_Sent q n)\<rparr>)"
| serve: "to_server s a = header_bytes h @ body @ later \<Longrightarrow>
     unat (byte_swap (data_length h)) = length body \<Longrightarrow> reply h body = (h', body') \<Longrightarrow>
     call_step R reply api m exns s
       (s\<lparr>to_server := (to_server s)(a := later),
         to_client := (to_client s)(a := to_client s a @ header_bytes h' @ body')\<rparr>)"
| read_header: "coros (conns s) i = Holding a \<Longrightarrow> calls s i = Payload_Sent q n \<Longrightarrow> a \<notin> broken s \<Longrightarrow>
     to_client s a = bs @ later \<Longrightarrow> length bs = 16 \<Longrightarrow>
     call_step R reply api m exns s
       (s\<lparr>to_client := (to_client s)(a := later),
         calls := (calls s)(i := after_header q n (header_of bs))\<rparr>)"
| read_payload: "coros (conns s) i = Holding a \<Longrightarrow> calls s i = Header_Read q n h \<Longrightarrow> a \<notin> broken s \<Longrightarrow>
     to_client s a = body @ later \<Longrightarrow> answer_length h = Inr (length body) \<Longrightarrow>
     call_step R reply api m exns s
       (s\<lparr>to_client := (to_client s)(a := later),
         calls := (calls s)(i := Finished q n (answer_result R h body))\<rparr>)"
| io_error: "coros (conns s) i = Holding a \<Longrightarrow> on_connection (calls s i) = Some (q, n) \<Longrightarrow>
     call_step R reply api m exns s
       (s\<lparr>broken := insert a (broken s),
         calls := (calls s)(i := Finished q n (Inl (boost_fatal ec)))\<rparr>)"

inductive calls_reach ::
  "rlib \<Rightarrow> (dubbo_header \<Rightarrow> byte list \<Rightarrow> dubbo_header \<times> byte list) \<Rightarrow> ('t, nat) timer_api \<Rightarrow> nat \<Rightarrow> error set \<Rightarrow>
   ('s, 't) call_sys \<Rightarrow> bool"
  for R reply api m exns where
  start: "calls_reach R reply api m exns (init_calls api)"
| step: "calls_reach R reply api m exns s \<Longrightarrow> call_step R reply api m exns s t \<Longrightarrow>
     calls_reach R reply api m exns t"

section \<open>What is on the wire\<close>

text \<open>The answer the server gives to a call, and the result the code makes of it.\<close>

definition answer_to ::
  "(dubbo_header \<Rightarrow> byte list \<Rightarrow> dubbo_header \<times> byte list) \<Rightarrow> string \<Rightarrow> 64 word \<Rightarrow> dubbo_header \<times> byte list" where
  "answer_to reply q n = reply (request_header n q) (bytes_of q)"

definition result_for ::
  "rlib \<Rightarrow> (dubbo_header \<Rightarrow> byte list \<Rightarrow> dubbo_header \<times> byte list) \<Rightarrow> string \<Rightarrow> 64 word \<Rightarrow> request_result_t result" where
  "result_for R reply q n = (let (h, body) = answer_to reply q n in answer_result R h body)"

text \<open>A server that states the length of what it sends, and sends no more than 1 GiB.\<close>

definition reply_laws :: "(dubbo_header \<Rightarrow> byte list \<Rightarrow> dubbo_header \<times> byte list) \<Rightarrow> bool" where
  "reply_laws reply \<longleftrightarrow>
     (\<forall>h body h' body'. reply h body = (h', body') \<longrightarrow>
        unat (byte_swap (data_length h')) = length body' \<and> length body' \<le> 2 ^ 30)"

text \<open>
  The bytes on the way on the connection of a call, by how far the call is: nothing before it starts and
  once it is finished, otherwise its own request or the answer to it, less what was read.
\<close>

fun wire_ok ::
  "(dubbo_header \<Rightarrow> byte list \<Rightarrow> dubbo_header \<times> byte list) \<Rightarrow> call_pc \<Rightarrow> byte list \<Rightarrow> byte list \<Rightarrow> bool" where
  "wire_ok reply (Header_Sent q n) out inb \<longleftrightarrow> out = header_bytes (request_header n q) \<and> inb = []"
| "wire_ok reply (Payload_Sent q n) out inb \<longleftrightarrow>
     (out = header_bytes (request_header n q) @ bytes_of q \<and> inb = []) \<or>
     (out = [] \<and> (\<exists>h body. answer_to reply q n = (h, body) \<and> inb = header_bytes h @ body))"
| "wire_ok reply (Header_Read q n h) out inb \<longleftrightarrow> out = [] \<and> answer_to reply q n = (h, inb)"
| "wire_ok reply _ out inb \<longleftrightarrow> out = [] \<and> inb = []"

section \<open>The invariant\<close>

fun payload_of :: "call_pc \<Rightarrow> string option" where
  "payload_of Idle = None"
| "payload_of (Id_Loaded q n) = Some q"
| "payload_of (Numbered q n) = Some q"
| "payload_of (Header_Sent q n) = Some q"
| "payload_of (Payload_Sent q n) = Some q"
| "payload_of (Header_Read q n h) = Some q"
| "payload_of (Finished q n r) = Some q"

definition call_ok ::
  "rlib \<Rightarrow> (dubbo_header \<Rightarrow> byte list \<Rightarrow> dubbo_header \<times> byte list) \<Rightarrow> call_pc \<Rightarrow> bool" where
  "call_ok R reply call \<longleftrightarrow>
     (\<forall>q. payload_of call = Some q \<longrightarrow> 0 < length q \<and> length q < 2 ^ 32) \<and>
     (\<forall>q n r. call = Finished q n (Inr r) \<longrightarrow> result_for R reply q n = Inr r)"

definition calls_inv ::
  "('t \<Rightarrow> nat list) \<Rightarrow> rlib \<Rightarrow> (dubbo_header \<Rightarrow> byte list \<Rightarrow> dubbo_header \<times> byte list) \<Rightarrow> nat \<Rightarrow> error set \<Rightarrow>
   ('s, 't) call_sys \<Rightarrow> bool" where
  "calls_inv pending R reply m exns s \<longleftrightarrow>
     coro_inv pending m exns (conns s) \<and>
     (\<forall>i. seeking (coros (conns s) i) \<longrightarrow> (\<exists>q n. calls s i = Numbered q n)) \<and>
     wires_inv (wire_ok reply) (coros (conns s)) (calls s) (to_server s) (to_client s) (broken s) \<and>
     (\<forall>i. call_ok R reply (calls s i))"

lemma calls_inv_pool: "calls_inv pending R reply m exns s \<Longrightarrow> coro_inv pending m exns (conns s)"
  and calls_inv_seeking: "calls_inv pending R reply m exns s \<Longrightarrow> seeking (coros (conns s) i) \<Longrightarrow> \<exists>q n. calls s i = Numbered q n"
  and calls_inv_wires: "calls_inv pending R reply m exns s \<Longrightarrow>
    wires_inv (wire_ok reply) (coros (conns s)) (calls s) (to_server s) (to_client s) (broken s)"
  and calls_inv_call: "calls_inv pending R reply m exns s \<Longrightarrow> call_ok R reply (calls s i)"
  by (simp_all add: calls_inv_def)

lemma call_ok_same:
  "call_ok R reply call \<Longrightarrow> payload_of pc = payload_of call \<Longrightarrow>
   (\<And>q n r. pc = Finished q n (Inr r) \<Longrightarrow> result_for R reply q n = Inr r) \<Longrightarrow> call_ok R reply pc"
  by (auto simp: call_ok_def)

lemma call_ok_payload: "call_ok R reply call \<Longrightarrow> payload_of call = Some q \<Longrightarrow> 0 < length q \<and> length q < 2 ^ 32"
  by (simp add: call_ok_def)

lemma calls_inv_init: "timer_laws api pending \<Longrightarrow> calls_inv pending R reply m exns (init_calls api)"
  using coro_inv_init [of api pending m exns]
  by (auto simp: calls_inv_def init_calls_def seeking_def init_coros_def wires_inv_def call_ok_def)

text \<open>Changing one call that is not after a connection keeps the invariant when the wires do.\<close>

lemma calls_inv_update:
  assumes "calls_inv pending R reply m exns s" and "\<not> seeking (coros (conns s) i)" and "call_ok R reply pc"
    and "wires_inv (wire_ok reply) (coros (conns s)) (calls t) (to_server t) (to_client t) (broken t)"
    and "conns t = conns s" and "calls t = (calls s)(i := pc)"
  shows "calls_inv pending R reply m exns t"
  using assms by (auto simp: calls_inv_def)

text \<open>The holder of a connection changes its call and what is on the connection.\<close>

lemma calls_inv_io:
  assumes "calls_inv pending R reply m exns s" and "coros (conns s) i = Holding a"
    and "a \<notin> broken s \<Longrightarrow> wire_ok reply pc x y" and "call_ok R reply pc"
    and "conns t = conns s" and "calls t = (calls s)(i := pc)" and "broken t = broken s"
    and "to_server t = (to_server s)(a := x)" and "to_client t = (to_client s)(a := y)"
  shows "calls_inv pending R reply m exns t"
proof (rule calls_inv_update [OF assms(1) _ assms(4) _ assms(5,6)])
  show "\<not> seeking (coros (conns s) i)" by (simp add: assms(2) seeking_def)
  show "wires_inv (wire_ok reply) (coros (conns s)) (calls t) (to_server t) (to_client t) (broken t)"
    unfolding assms(6-9)
    by (rule wires_update [OF calls_inv_wires [OF assms(1)] assms(2) _ assms(3)])
       (simp_all add: one_holder [OF calls_inv_pool [OF assms(1)] assms(2)])
qed

lemma held_wire:
  "calls_inv pending R reply m exns s \<Longrightarrow> coros (conns s) i = Holding a \<Longrightarrow> a \<notin> broken s \<Longrightarrow>
   calls s i = call \<Longrightarrow> wire_ok reply call (to_server s a) (to_client s a)"
  using wires_held [OF calls_inv_wires] by blast

lemma calls_inv_sized:
  "calls_inv pending R reply m exns s \<Longrightarrow> payload_of (calls s i) = Some q \<Longrightarrow> 0 < length q \<and> length q < 2 ^ 32"
  by (rule call_ok_payload [OF calls_inv_call])

section \<open>The steps keep it\<close>

lemma header_bytes_prefix: "header_bytes h @ xs = header_bytes h' @ ys \<Longrightarrow> h = h' \<and> xs = ys"
  by (metis append_eq_append_conv header_of_header_bytes length_header_bytes)

text \<open>The length in the header of a request is that of its payload.\<close>

lemma request_length:
  "length q < 2 ^ 32 \<Longrightarrow> unat (byte_swap (data_length (request_header n q))) = length q"
  by (simp add: request_header_def unat_of_nat)

lemma served_wire:
  assumes "wire_ok reply call out inb" and "out = header_bytes h @ body @ later"
    and "unat (byte_swap (data_length h)) = length body" and "reply h body = (h', body')"
    and "\<And>q. payload_of call = Some q \<Longrightarrow> 0 < length q \<and> length q < 2 ^ 32"
  shows "wire_ok reply call later (inb @ header_bytes h' @ body')"
proof -
  have "length out \<noteq> 0" using assms(2) by simp
  then have "out \<noteq> []" by simp
  with assms(1) consider
    (header) q n where "call = Header_Sent q n" "out = header_bytes (request_header n q) @ []" "inb = []" |
    (all) q n where "call = Payload_Sent q n" "out = header_bytes (request_header n q) @ bytes_of q" "inb = []"
    by (cases "(reply, call, out, inb)" rule: wire_ok.cases) auto
  then show ?thesis
  proof cases
    case header
    then have "h = request_header n q \<and> body @ later = []" using header_bytes_prefix assms(2) by metis
    then show ?thesis using assms(3,5) request_length [of q n] header(1) by simp
  next
    case all
    then have h: "h = request_header n q" "body @ later = bytes_of q" using header_bytes_prefix assms(2) by metis+
    then have "length body = length q" using assms(3,5) request_length [of q n] all(1) by simp
    moreover have "length (body @ later) = length q" unfolding h(2) by simp
    ultimately have "later = []" by simp
    then have "later = []" "body = bytes_of q" using h(2) by simp_all
    then show ?thesis using all(1,3) h(1) assms(4) by (simp add: answer_to_def)
  qed
qed

lemma read_after_header:
  assumes "reply_laws reply" and "wire_ok reply (Payload_Sent q n) out inb" and "inb = bs @ later" and "length bs = 16"
  obtains "after_header q n (header_of bs) = Header_Read q n (header_of bs)"
    and "wire_ok reply (Header_Read q n (header_of bs)) out later"
proof -
  have "inb \<noteq> []" using assms(3,4) by auto
  with assms(2) obtain h body where h: "out = []" "answer_to reply q n = (h, body)" "inb = header_bytes h @ body"
    by auto
  then have "bs = header_bytes h \<and> later = body" using assms(3,4) by (simp add: append_eq_append_conv)
  then have b: "header_of bs = h" "later = body" by (simp_all add: header_of_header_bytes)
  have "unat (byte_swap (data_length h)) = length body \<and> length body \<le> 2 ^ 30"
    using assms(1) h(2) unfolding reply_laws_def answer_to_def by blast
  then have "answer_length h = Inr (length body)" by (simp add: answer_length_def)
  then show thesis using that b h by (simp add: after_header_def)
qed

interpretation dubbo_use: connection_use "wire_ok reply" "\<lambda>c. \<exists>q n. c = Numbered q n"
    "\<lambda>c. \<exists>q n r. c = Finished q n r"
  by unfold_locales auto

lemma call_step_inv:
  assumes "call_step R reply api m exns s t" and "m < 2 ^ 64" and "timer_laws api pending"
    and "reply_laws reply" and "rlib_laws R" and "calls_inv pending R reply m exns s"
  shows "calls_inv pending R reply m exns t"
  using assms
proof (induction rule: call_step.induct)
  case (load_id s i payload svc meth types arg)
  note inv = load_id.prems(5)
  let ?c = "Id_Loaded payload (next_id s)"
  have "call_ok R reply ?c"
    using load_id.hyps(3,4) request_payload_not_Nil [OF load_id.prems(4)] by (simp add: call_ok_def)
  moreover have "wires_inv (wire_ok reply) (coros (conns s)) ((calls s)(i := ?c)) (to_server s) (to_client s) (broken s)"
    using load_id.hyps(2) by (intro wires_not_held calls_inv_wires [OF inv]) simp
  ultimately show ?case
    using load_id.hyps(2) by (intro calls_inv_update [OF inv, of i]) (simp_all add: seeking_def)
next
  case (add_one s i q n)
  note inv = add_one.prems(5)
  have "call_ok R reply (Numbered q n)"
    using add_one.hyps by (intro call_ok_same [OF calls_inv_call [OF inv, of i]]) simp_all
  moreover have "\<not> seeking (coros (conns s) i)" using calls_inv_seeking [OF inv, of i] add_one.hyps by auto
  moreover have "wires_inv (wire_ok reply) (coros (conns s)) ((calls s)(i := Numbered q n)) (to_server s) (to_client s) (broken s)"
    using calls_inv_wires [OF inv] add_one.hyps by (fastforce simp: wires_inv_def)
  ultimately show ?case by (intro calls_inv_update [OF inv, of i]) simp_all
next
  case (pool_moves s c)
  note inv = pool_moves.prems(5)
  have may: "may_move (calls s i) (coros (conns s) i) (coros c i)" for i using pool_moves.hyps(2) by blast
  have leaves: "\<exists>q n. calls s i = Numbered q n" if "coros (conns s) i = Resting" "coros c i \<noteq> Resting" for i
    using may [of i] that by (simp add: may_move_def)
  have gives: "\<exists>q n r. calls s i = Finished q n r" if "coros (conns s) i = Holding a" "coros c i \<noteq> Holding a" for i a
    using may [of i] that by (auto simp: may_move_def)
  have "\<exists>q n. calls s i = Numbered q n" if "seeking (coros c i)" for i
    by (rule dubbo_use.pool_step_asks [OF pool_moves.hyps(1) pool_moves.prems(2) calls_inv_pool [OF inv] leaves
      calls_inv_seeking [OF inv] that])
  moreover have "wires_inv (wire_ok reply) (coros c) (calls s) (to_server s) (to_client s) (broken s)"
    by (rule dubbo_use.pool_step_wires [OF pool_moves.hyps(1) pool_moves.prems(1) calls_inv_pool [OF inv] leaves gives
      calls_inv_seeking [OF inv] calls_inv_wires [OF inv]])
  ultimately show ?case
    using coro_step_inv [OF pool_moves.hyps(1) pool_moves.prems(1,2) calls_inv_pool [OF inv]]
      calls_inv_call [OF inv] by (simp add: calls_inv_def)
next
  case (write_header s i a q n)
  note inv = write_header.prems(5)
  show ?case
    using held_wire [OF inv write_header.hyps(1,3,2)] write_header.hyps(2)
    by (intro calls_inv_io [OF inv write_header.hyps(1), where y = "to_client s a"]
        call_ok_same [OF calls_inv_call [OF inv, of i]]) auto
next
  case (write_payload s i a q n)
  note inv = write_payload.prems(5)
  show ?case
    using held_wire [OF inv write_payload.hyps(1,3,2)] write_payload.hyps(2)
    by (intro calls_inv_io [OF inv write_payload.hyps(1), where y = "to_client s a"]
        call_ok_same [OF calls_inv_call [OF inv, of i]]) auto
next
  case (serve s a h body later h' body')
  note inv = serve.prems(5)
  show ?case
  proof (cases "\<exists>i. coros (conns s) i = Holding a")
    case True
    then obtain i where i: "coros (conns s) i = Holding a" by blast
    have "wire_ok reply (calls s i) later (to_client s a @ header_bytes h' @ body')" if "a \<notin> broken s"
      using serve.hyps calls_inv_sized [OF inv, of i]
      by (intro served_wire [OF held_wire [OF inv i that refl], of h body]) simp_all
    then show ?thesis
      using calls_inv_call [OF inv, of i] by (intro calls_inv_io [OF inv i, where pc = "calls s i"]) simp_all
  next
    case False
    have "length (to_server s a) \<noteq> 0" using serve.hyps(1) by simp
    then have "a \<in> broken s" using wires_free [OF calls_inv_wires [OF inv], of a] False by auto
    then have "wires_inv (wire_ok reply) (coros (conns s)) (calls s) ((to_server s)(a := later))
        ((to_client s)(a := to_client s a @ header_bytes h' @ body')) (broken s)"
      using calls_inv_wires [OF inv] by (auto simp: wires_inv_def)
    then show ?thesis using inv by (simp add: calls_inv_def)
  qed
next
  case (read_header s i a q n bs later)
  note inv = read_header.prems(5)
  have "after_header q n (header_of bs) = Header_Read q n (header_of bs) \<and>
      wire_ok reply (Header_Read q n (header_of bs)) (to_server s a) later"
    using read_after_header [OF read_header.prems(3) held_wire [OF inv read_header.hyps(1,3,2)] read_header.hyps(4,5)]
    by blast
  then show ?case
    using read_header.hyps(2)
    by (intro calls_inv_io [OF inv read_header.hyps(1), where x = "to_server s a"]
        call_ok_same [OF calls_inv_call [OF inv, of i]]) auto
next
  case (read_payload s i a q n h body later)
  note inv = read_payload.prems(5)
  have w: "to_server s a = []" "answer_to reply q n = (h, body @ later)"
    using held_wire [OF inv read_payload.hyps(1,3,2)] read_payload.hyps(4) by auto
  then have "unat (byte_swap (data_length h)) = length (body @ later)"
    using read_payload.prems(3) unfolding reply_laws_def answer_to_def by blast
  then have "later = []" using read_payload.hyps(5) by (auto simp: answer_length_def Let_def split: if_splits)
  then have "call_ok R reply (Finished q n (answer_result R h body))"
    using read_payload.hyps(2) w(2)
    by (intro call_ok_same [OF calls_inv_call [OF inv, of i]]) (simp_all add: result_for_def)
  with w \<open>later = []\<close> show ?case
    by (intro calls_inv_io [OF inv read_payload.hyps(1), where x = "[]"]) auto
next
  case (io_error s i a q n ec)
  note inv = io_error.prems(5)
  have "payload_of (calls s i) = Some q" using io_error.hyps(2) by (cases "calls s i") auto
  then have "call_ok R reply (Finished q n (Inl (boost_fatal ec)))"
    by (intro call_ok_same [OF calls_inv_call [OF inv, of i]]) simp_all
  then show ?case
    using io_error.hyps(1) wires_break [OF calls_inv_wires [OF inv] io_error.hyps(1)]
    by (intro calls_inv_update [OF inv, of i]) (simp_all add: seeking_def)
qed

lemma calls_reach_inv:
  "calls_reach R reply api m exns s \<Longrightarrow> m < 2 ^ 64 \<Longrightarrow> timer_laws api pending \<Longrightarrow> reply_laws reply \<Longrightarrow>
   rlib_laws R \<Longrightarrow> calls_inv pending R reply m exns s"
proof (induction rule: calls_reach.induct)
  case start
  then show ?case by (intro calls_inv_init)
next
  case (step s t)
  then show ?case by (blast intro: call_step_inv)
qed

section \<open>Numbers on one thread\<close>

text \<open>
  When one thread runs the io_context, nothing comes between the load of the id and the increment.
  \<open>solo_reach k s\<close>: a state reached that way, after \<open>k\<close> calls took their number.
\<close>

definition between_load_and_add :: "('s, 't) call_sys \<Rightarrow> bool" where
  "between_load_and_add s \<longleftrightarrow> (\<exists>i q n. calls s i = Id_Loaded q n)"

inductive solo_reach ::
  "rlib \<Rightarrow> (dubbo_header \<Rightarrow> byte list \<Rightarrow> dubbo_header \<times> byte list) \<Rightarrow> ('t, nat) timer_api \<Rightarrow> nat \<Rightarrow> error set \<Rightarrow>
   nat \<Rightarrow> ('s, 't) call_sys \<Rightarrow> bool"
  for R reply api m exns where
  start: "solo_reach R reply api m exns 0 (init_calls api)"
| numbers: "solo_reach R reply api m exns k s \<Longrightarrow> call_step R reply api m exns s t \<Longrightarrow>
     between_load_and_add t \<Longrightarrow> call_step R reply api m exns t u \<Longrightarrow> \<not> between_load_and_add u \<Longrightarrow>
     solo_reach R reply api m exns (Suc k) u"
| other: "solo_reach R reply api m exns k s \<Longrightarrow> call_step R reply api m exns s t \<Longrightarrow>
     \<not> between_load_and_add t \<Longrightarrow> solo_reach R reply api m exns k t"

lemma solo_reach_calls: "solo_reach R reply api m exns k s \<Longrightarrow> calls_reach R reply api m exns s"
  by (induction rule: solo_reach.induct) (blast intro: calls_reach.intros)+

fun call_id :: "call_pc \<Rightarrow> (64 word) option" where
  "call_id Idle = None"
| "call_id (Id_Loaded q n) = Some n"
| "call_id (Numbered q n) = Some n"
| "call_id (Header_Sent q n) = Some n"
| "call_id (Payload_Sent q n) = Some n"
| "call_id (Header_Read q n h) = Some n"
| "call_id (Finished q n r) = Some n"

lemma call_id_after_header [simp]: "call_id (after_header q n h) = Some n"
  by (simp add: after_header_def split: sum.splits)

lemma on_connection_id: "on_connection call = Some (q, n) \<Longrightarrow> call_id call = Some n"
  by (cases call) simp_all

text \<open>How a step changes the numbers: it does not, or a call loads the next one, or it is counted.\<close>

lemma call_step_ids:
  assumes "call_step R reply api m exns s t"
  shows "(\<forall>i. call_id (calls t i) = call_id (calls s i)) \<and> next_id t = next_id s \<and>
      (\<forall>i q n. calls t i = Id_Loaded q n \<longleftrightarrow> calls s i = Id_Loaded q n) \<or>
    (\<exists>i q. calls t = (calls s)(i := Id_Loaded q (next_id s)) \<and> next_id t = next_id s) \<or>
    (\<exists>i q n. calls s i = Id_Loaded q n \<and> calls t = (calls s)(i := Numbered q n) \<and> next_id t = next_id s + 1)"
  using assms
  by (induction rule: call_step.induct) (auto dest: on_connection_id simp: after_header_def split: sum.splits)

text \<open>The calls carry different numbers of those given out.\<close>

definition ids_numbered :: "64 word \<Rightarrow> nat \<Rightarrow> (nat \<Rightarrow> call_pc) \<Rightarrow> bool" where
  "ids_numbered first k c \<longleftrightarrow>
     (\<exists>f. inj_on f {i. call_id (c i) \<noteq> None} \<and>
          (\<forall>i n. call_id (c i) = Some n \<longrightarrow> f i < k \<and> n = first + of_nat (f i)))"

lemma ids_numbered_same:
  "ids_numbered first k c \<Longrightarrow> \<forall>i. call_id (c' i) = call_id (c i) \<Longrightarrow> ids_numbered first k c'"
  by (simp add: ids_numbered_def)

lemma ids_numbered_next:
  assumes "ids_numbered first k c" and "call_id pc = Some (first + of_nat k)"
  shows "ids_numbered first (Suc k) (c(i := pc))"
proof -
  obtain f where f: "inj_on f {i. call_id (c i) \<noteq> None}"
    "\<And>i n. call_id (c i) = Some n \<Longrightarrow> f i < k \<and> n = first + of_nat (f i)"
    using assms(1) by (auto simp: ids_numbered_def)
  have "f j \<noteq> k" if "call_id (c j) \<noteq> None" for j using f(2) [of j] that by fastforce
  then have "inj_on (f(i := k)) {j. call_id ((c(i := pc)) j) \<noteq> None}"
    using f(1) unfolding inj_on_def by (auto split: if_splits)
  moreover have "(f(i := k)) j < Suc k \<and> n = first + of_nat ((f(i := k)) j)"
    if "call_id ((c(i := pc)) j) = Some n" for j n
    using f(2) [of j n] that assms(2) by (auto split: if_splits)
  ultimately show ?thesis unfolding ids_numbered_def by blast
qed

lemma solo_reach_ids:
  fixes s :: "('s, 't) call_sys"
  assumes "solo_reach R reply api m exns k s"
  shows "\<not> between_load_and_add s \<and> next_id s = 0x1998427 + of_nat k \<and> ids_numbered 0x1998427 k (calls s)"
  using assms
proof (induction rule: solo_reach.induct)
  case start
  then show ?case
    by (auto simp: init_calls_def new_dubbo_client_def between_load_and_add_def ids_numbered_def)
next
  case (other k s t)
  then have "calls s j \<noteq> Id_Loaded q n" "calls t j \<noteq> Id_Loaded q n" for j q n
    by (auto simp: between_load_and_add_def)
  then have "(\<forall>i. call_id (calls t i) = call_id (calls s i)) \<and> next_id t = next_id s"
    using call_step_ids [OF other.hyps(2)] by (metis fun_upd_same)
  then show ?case using other.IH other.hyps(3) ids_numbered_same by auto
next
  case (numbers k s t u)
  have none: "calls s j \<noteq> Id_Loaded q n" for j q n using numbers.IH by (auto simp: between_load_and_add_def)
  obtain i q where t: "calls t = (calls s)(i := Id_Loaded q (next_id s))" "next_id t = next_id s"
    using call_step_ids [OF numbers.hyps(2)] numbers.hyps(3) none by (auto simp: between_load_and_add_def)
  then have i: "calls t i = Id_Loaded q (next_id s)" by simp
  have gone: "calls u j \<noteq> Id_Loaded p n" for j p n using numbers.hyps(5) by (auto simp: between_load_and_add_def)
  have "\<exists>j p n. calls t j = Id_Loaded p n \<and> calls u = (calls t)(j := Numbered p n) \<and> next_id u = next_id t + 1"
    using call_step_ids [OF numbers.hyps(4)] i gone by (metis fun_upd_same)
  then obtain j p n where j: "calls t j = Id_Loaded p n" "calls u = (calls t)(j := Numbered p n)"
    "next_id u = next_id t + 1" by blast
  have "j = i" using j(1) t(1) none by (metis fun_upd_other)
  then have "calls u = (calls s)(i := Numbered q (next_id s))" using j i t(1) by simp
  then show ?case
    using numbers.IH numbers.hyps(5) j(3) t(2) ids_numbered_next [of _ k "calls s" "Numbered q (next_id s)" i]
    by (simp del: fun_upd_apply)
qed

section \<open>A run\<close>

text \<open>One call from beginning to end, on a connection made for it at address 5, for the witnesses.\<close>

definition run_payload :: string where
  "run_payload = request_payload plain_rlib ''S'' ''m'' ''T'' ''x''"

definition run_reply :: "dubbo_header \<Rightarrow> byte list \<Rightarrow> dubbo_header \<times> byte list" where
  "run_reply h body = (sample_answer_header 5, bytes_of (answer_text 1 ''42''))"

definition run_pool :: "nat pooled_conn pool" where
  "run_pool =
     \<lparr>buffer = \<lparr>cells = [5 \<mapsto> \<lparr>data = \<lparr>conn = 0\<rparr>, prev = None, nxt = None, extra_info = False, magic = node_magic\<rparr>],
                head = Some 5, tail = Some 5, m_size = 1\<rparr>, free_list = []\<rparr>"

definition run_state :: "call_pc \<Rightarrow> byte list \<Rightarrow> byte list \<Rightarrow> (nat, nat list) call_sys" where
  "run_state pc out inb =
     \<lparr>conns = \<lparr>cpool = run_pool, event = [], coros = (\<lambda>_. Resting)(0 := Holding 5)\<rparr>, next_id = 0x1998428,
      calls = (\<lambda>_. Idle)(0 := pc), to_server = (\<lambda>_. [])(5 := out), to_client = (\<lambda>_. [])(5 := inb), broken = {}\<rparr>"

lemma length_answer_42: "length (answer_text 1 ''42'') = 5"
  by (simp add: answer_text_def decimal.simps)

lemma run_reply_laws: "reply_laws run_reply"
  by (simp add: reply_laws_def run_reply_def length_answer_42 sample_answer_header_def del: One_nat_def)

lemma run_payload_length: "length run_payload < 2 ^ 32"
  by (simp add: run_payload_def request_payload_lines [OF plain_rlib_laws] request_lines_def)

text \<open>Before the call has its connection: it has loaded its id, and has its number.\<close>

definition run_loaded :: "(nat, nat list) call_sys" where
  "run_loaded = (init_calls list_timer)\<lparr>calls := (\<lambda>_. Idle)(0 := Id_Loaded run_payload 0x1998427)\<rparr>"

definition run_numbered :: "(nat, nat list) call_sys" where
  "run_numbered = run_loaded\<lparr>next_id := 0x1998428, calls := (\<lambda>_. Idle)(0 := Numbered run_payload 0x1998427)\<rparr>"

text \<open>The steps of the run, for any size of the pool.\<close>

abbreviation run_step :: "nat \<Rightarrow> (nat, nat list) call_sys \<Rightarrow> (nat, nat list) call_sys \<Rightarrow> bool" where
  "run_step m \<equiv> call_step plain_rlib run_reply list_timer m {}"

abbreviation run_request :: dubbo_header where
  "run_request \<equiv> request_header 0x1998427 run_payload"

abbreviation run_answer :: "byte list" where
  "run_answer \<equiv> bytes_of (answer_text 1 ''42'')"

lemma run_loads: "run_step m (init_calls list_timer) run_loaded"
  using call_step.load_id [of "init_calls list_timer :: (nat, nat list) call_sys" 0 run_payload plain_rlib
      "''S''" "''m''" "''T''" "''x''"] run_payload_length
  by (simp add: run_loaded_def init_calls_def init_coros_def run_payload_def new_dubbo_client_def)

lemma run_numbers: "run_step m run_loaded run_numbered"
  using call_step.add_one [of run_loaded 0 run_payload "0x1998427"]
  by (simp add: run_numbered_def run_loaded_def init_calls_def new_dubbo_client_def)

lemma run_borrows:
  assumes "0 < m"
  shows "run_step m run_numbered (run_state (Numbered run_payload 0x1998427) [] [])"
proof -
  have made: "coro_do_try_borrow_one m (Inr (5, \<lparr>conn = 0\<rparr>)) empty_pool = (Inr (Some 5), run_pool)"
    using assms by (simp add: run_pool_def empty_pool_def empty_list_def coro_eval)
  have adm: "admits {} (Inr (5, \<lparr>conn = 0 :: nat\<rparr>)) empty_pool"
    by (simp add: admits_def fresh_for_def empty_pool_def empty_list_def)
  let ?c = "\<lparr>cpool = run_pool, event = [], coros = (\<lambda>_. Resting)(0 := Holding 5)\<rparr>"
  note defs = run_numbered_def run_loaded_def init_calls_def init_coros_def
  have "coro_step list_timer m {} (conns run_numbered) ?c"
    using coro_step.attempt [of "conns run_numbered" 0 "{}" "Inr (5, \<lparr>conn = 0\<rparr>)" m "Inr (Some 5)" run_pool list_timer]
    by (simp add: defs made adm after_attempt_def)
  moreover have "\<forall>i. may_move (calls run_numbered i) (coros (conns run_numbered) i) (coros ?c i)"
    by (simp add: defs may_move_def)
  ultimately have "run_step m run_numbered (run_numbered\<lparr>conns := ?c\<rparr>)" by (rule call_step.pool_moves)
  then show ?thesis by (simp add: defs run_state_def fun_upd_idem new_dubbo_client_def)
qed

lemma run_writes_header:
  "run_step m (run_state (Numbered run_payload 0x1998427) [] [])
     (run_state (Header_Sent run_payload 0x1998427) (header_bytes run_request) [])"
  using call_step.write_header [of "run_state (Numbered run_payload 0x1998427) [] []" 0 5 run_payload "0x1998427"]
  by (simp add: run_state_def)

lemma run_writes_payload:
  "run_step m (run_state (Header_Sent run_payload 0x1998427) (header_bytes run_request) [])
     (run_state (Payload_Sent run_payload 0x1998427) (header_bytes run_request @ bytes_of run_payload) [])"
  using call_step.write_payload [of "run_state (Header_Sent run_payload 0x1998427) (header_bytes run_request) []" 0 5
      run_payload "0x1998427"]
  by (simp add: run_state_def)

lemma run_serves:
  "run_step m (run_state (Payload_Sent run_payload 0x1998427) (header_bytes run_request @ bytes_of run_payload) [])
     (run_state (Payload_Sent run_payload 0x1998427) [] (header_bytes (sample_answer_header 5) @ run_answer))"
  using call_step.serve [of "run_state (Payload_Sent run_payload 0x1998427)
      (header_bytes run_request @ bytes_of run_payload) []" 5 run_request "bytes_of run_payload" "[]" run_reply
      "sample_answer_header 5" run_answer] request_length [OF run_payload_length]
  by (simp add: run_state_def run_reply_def)

lemma run_answer_length: "answer_length (sample_answer_header 5) = Inr (length run_answer)"
  by (simp add: answer_length_def sample_answer_header_def length_answer_42 del: One_nat_def)

lemma run_reads_header:
  "run_step m (run_state (Payload_Sent run_payload 0x1998427) [] (header_bytes (sample_answer_header 5) @ run_answer))
     (run_state (Header_Read run_payload 0x1998427 (sample_answer_header 5)) [] run_answer)"
  using call_step.read_header [of "run_state (Payload_Sent run_payload 0x1998427) []
      (header_bytes (sample_answer_header 5) @ run_answer)" 0 5 run_payload "0x1998427"
      "header_bytes (sample_answer_header 5)" run_answer] header_of_header_bytes [of "sample_answer_header 5"]
  by (simp add: run_state_def after_header_def run_answer_length del: length_bytes_of)

lemma run_reads_payload:
  "run_step m (run_state (Header_Read run_payload 0x1998427 (sample_answer_header 5)) [] run_answer)
     (run_state (Finished run_payload 0x1998427 (result_for plain_rlib run_reply run_payload 0x1998427)) [] [])"
  using call_step.read_payload [of "run_state (Header_Read run_payload 0x1998427 (sample_answer_header 5)) [] run_answer"
      0 5 run_payload "0x1998427" "sample_answer_header 5" run_answer "[]"]
  by (simp add: run_state_def run_answer_length result_for_def answer_to_def run_reply_def del: length_bytes_of)

lemma run_reaches_header:
  "calls_reach plain_rlib run_reply list_timer 1 {}
     (run_state (Header_Sent run_payload 0x1998427) (header_bytes run_request) [])"
  by (rule calls_reach.step [OF calls_reach.step [OF calls_reach.step [OF calls_reach.step [OF
    calls_reach.start run_loads] run_numbers] run_borrows [OF zero_less_one]] run_writes_header])

lemma run_finishes:
  "calls_reach plain_rlib run_reply list_timer 1 {}
     (run_state (Finished run_payload 0x1998427 (result_for plain_rlib run_reply run_payload 0x1998427)) [] [])"
  by (rule calls_reach.step [OF calls_reach.step [OF calls_reach.step [OF calls_reach.step [OF
    run_reaches_header run_writes_payload] run_serves] run_reads_header] run_reads_payload])

section \<open>Properties\<close>

text \<open>
  C4: whatever the interleaving of any number of calls on any number of threads, with connections that
  fail at any moment: a call that finishes with a result has the result made of the server's answer to
  its own request, although the code never compares request ids; and a connection that nobody holds and
  that has not failed has nothing on the way in either direction, so that the next call starts afresh. (The
  server gives the length of its answers, none of them above 1 GiB; what happens above is another property.)
\<close>

theorem concurrent_calls_get_own_answers:
  assumes "calls_reach R reply api (unat (m :: 64 word)) exns s" and "timer_laws api pending"
    and "reply_laws reply" and "rlib_laws R"
  shows "(calls s i = Finished q n (Inr r) \<longrightarrow> result_for R reply q n = Inr r) \<and>
    ((\<forall>j. coros (conns s) j \<noteq> Holding a) \<longrightarrow> a \<notin> broken s \<longrightarrow> to_server s a = [] \<and> to_client s a = [])"
proof -
  have inv: "calls_inv pending R reply (unat m) exns s"
    by (rule calls_reach_inv [OF assms(1) unat_64 assms(2-4)])
  show ?thesis
    using calls_inv_call [OF inv, of i] wires_free [OF calls_inv_wires [OF inv], of a]
    by (auto simp: call_ok_def)
qed

theorem concurrent_calls_get_own_answers_witness:
  "calls_reach plain_rlib run_reply list_timer 1 {} (run_state (Finished run_payload 0x1998427
       (Inr \<lparr>result_status = OK, type_of_result = RESPONSE_VALUE, result_value = ''42''\<rparr>)) [] []) \<and>
   result_for plain_rlib run_reply run_payload 0x1998427 =
     Inr \<lparr>result_status = OK, type_of_result = RESPONSE_VALUE, result_value = ''42''\<rparr>"
proof -
  let ?r = "\<lparr>result_status = OK, type_of_result = RESPONSE_VALUE, result_value = ''42''\<rparr>"
  have r: "result_for plain_rlib run_reply run_payload 0x1998427 = Inr ?r"
    using answer_result_text [OF plain_rlib_laws, of "sample_answer_header 5" 1 "''42''"]
    by (simp add: result_for_def answer_to_def run_reply_def sample_answer_header_def status_of_def result_type_of_def)
  have reach: "calls_reach plain_rlib run_reply list_timer (unat (1 :: 64 word)) {}
      (run_state (Finished run_payload 0x1998427 (Inr ?r)) [] [])"
    using run_finishes unfolding r unsigned_1 .
  have "calls (run_state (Finished run_payload 0x1998427 (Inr ?r)) [] []) 0 = Finished run_payload 0x1998427 (Inr ?r)"
    by (simp add: run_state_def)
  then have "result_for plain_rlib run_reply run_payload 0x1998427 = Inr ?r"
    using concurrent_calls_get_own_answers [OF reach list_timer_laws run_reply_laws plain_rlib_laws] by blast
  with reach show ?thesis unfolding unsigned_1 by blast
qed

text \<open>
  C27: on one thread, as the provider agent runs it, no two calls carry the same request id as long as
  at most 2^64 calls were numbered; the ids are those from the first one on.
\<close>

theorem ids_differ_on_one_thread:
  assumes "solo_reach R reply api m exns k s" and "k \<le> 2 ^ 64"
    and "call_id (calls s i) = Some n" and "call_id (calls s j) = Some n"
  shows "i = j"
proof -
  obtain f where f: "inj_on f {i. call_id (calls s i) \<noteq> None}"
    "\<And>i n. call_id (calls s i) = Some n \<Longrightarrow> f i < k \<and> n = 0x1998427 + of_nat (f i)"
    using solo_reach_ids [OF assms(1)] by (auto simp: ids_numbered_def)
  have "of_nat (f i) = (of_nat (f j) :: 64 word)" using f(2) [OF assms(3)] f(2) [OF assms(4)] by simp
  moreover have "f i < 2 ^ 64" "f j < 2 ^ 64" using f(2) [OF assms(3)] f(2) [OF assms(4)] assms(2) by simp_all
  ultimately have "f i = f j" by (simp add: word_of_nat_eq_iff take_bit_nat_eq_self)
  then show ?thesis using f(1) assms(3,4) by (auto dest: inj_onD)
qed

theorem ids_differ_on_one_thread_witness:
  "\<exists>s :: (nat, nat list) call_sys. calls s 0 = Numbered run_payload 0x1998427 \<and>
     (\<forall>j. call_id (calls s j) = Some 0x1998427 \<longrightarrow> j = 0)"
proof -
  let ?s0 = "init_calls list_timer :: (nat, nat list) call_sys" and ?q = run_payload and ?n = "0x1998427 :: 64 word"
  define s1 where "s1 = ?s0\<lparr>calls := (\<lambda>_. Idle)(0 := Id_Loaded ?q ?n)\<rparr>"
  define s2 where "s2 = s1\<lparr>next_id := ?n + 1, calls := (\<lambda>_. Idle)(0 := Numbered ?q ?n)\<rparr>"
  note defs = s1_def s2_def init_calls_def init_coros_def new_dubbo_client_def between_load_and_add_def
  have "call_step plain_rlib run_reply list_timer 1 {} ?s0 s1"
    using call_step.load_id [of ?s0 0 ?q plain_rlib "''S''" "''m''" "''T''" "''x''"] run_payload_length
    by (simp add: defs run_payload_def)
  moreover have "between_load_and_add s1" by (auto simp: defs intro: exI [of _ 0])
  moreover have "call_step plain_rlib run_reply list_timer 1 {} s1 s2"
    using call_step.add_one [of s1 0 ?q ?n] by (simp add: defs)
  moreover have "\<not> between_load_and_add s2" by (simp add: defs)
  ultimately have "solo_reach plain_rlib run_reply list_timer 1 {} (Suc 0) s2"
    by (rule solo_reach.numbers [OF solo_reach.start])
  moreover have "calls s2 0 = Numbered ?q ?n" by (simp add: defs)
  ultimately show ?thesis using ids_differ_on_one_thread [of plain_rlib run_reply list_timer 1 "{}" "Suc 0" s2 _ ?n 0]
    by (intro exI [of _ s2]) auto
qed

text \<open>
  With more than one thread two calls can send the same id: the code reads the atomic and increments
  it in two operations, and both calls may read before either increments.
\<close>

theorem threads_can_share_an_id:
  "\<exists>s :: (nat, nat list) call_sys. calls_reach plain_rlib reply list_timer m exns s \<and>
     calls s 0 = Numbered run_payload 0x1998427 \<and> calls s 1 = Numbered run_payload 0x1998427 \<and>
     next_id s = 0x1998429"
proof -
  let ?s0 = "init_calls list_timer :: (nat, nat list) call_sys" and ?q = run_payload and ?n = "0x1998427 :: 64 word"
  let ?f = "\<lambda>_ :: nat. Idle"
  define s1 where "s1 = ?s0\<lparr>calls := ?f(0 := Id_Loaded ?q ?n)\<rparr>"
  define s2 where "s2 = s1\<lparr>calls := ?f(0 := Id_Loaded ?q ?n, 1 := Id_Loaded ?q ?n)\<rparr>"
  define s3 where "s3 = s2\<lparr>next_id := ?n + 1, calls := ?f(0 := Numbered ?q ?n, 1 := Id_Loaded ?q ?n)\<rparr>"
  define s4 where "s4 = s3\<lparr>next_id := ?n + 2, calls := ?f(0 := Numbered ?q ?n, 1 := Numbered ?q ?n)\<rparr>"
  note defs = s1_def s2_def s3_def s4_def init_calls_def init_coros_def new_dubbo_client_def
  note load = call_step.load_id [of _ _ ?q plain_rlib "''S''" "''m''" "''T''" "''x''", OF _ _ run_payload_def
      run_payload_length]
  have "call_step plain_rlib reply list_timer m exns ?s0 s1"
    using load [of ?s0 0] by (simp add: defs)
  then have r1: "calls_reach plain_rlib reply list_timer m exns s1" by (rule calls_reach.step [OF calls_reach.start])
  have "call_step plain_rlib reply list_timer m exns s1 s2"
    using load [of s1 1] by (simp add: defs)
  then have r2: "calls_reach plain_rlib reply list_timer m exns s2" by (rule calls_reach.step [OF r1])
  have "call_step plain_rlib reply list_timer m exns s2 s3"
    using call_step.add_one [of s2 0 ?q ?n] by (simp add: defs fun_upd_twist)
  then have r3: "calls_reach plain_rlib reply list_timer m exns s3" by (rule calls_reach.step [OF r2])
  have "call_step plain_rlib reply list_timer m exns s3 s4"
    using call_step.add_one [of s3 1 ?q ?n] by (simp add: defs fun_upd_twist)
  then have "calls_reach plain_rlib reply list_timer m exns s4" by (rule calls_reach.step [OF r3])
  then show ?thesis by (intro exI [of _ s4]) (simp add: defs)
qed

end
