(* ===== verification/Dubbo_Rpc.thy ===== *)
theory Dubbo_Rpc
  imports Dubbo_Coro
begin

text \<open>
  The specification of \<open>async_request\<close> (lib/dubbo_client.hpp) for its callers, and that the code, with its
  connections, its framing and its interleavings (\<open>Dubbo_Coro\<close>), implements it: a call is under way until, in
  one step, it has the answer of the server to its own request or fails. Then, that a call holding a good
  connection is never stuck.
\<close>

section \<open>The specification\<close>

datatype rpc =
    No_Call
  | Called string "64 word"
  | Answered string "64 word" "request_result_t result"

definition can_call :: "rpc \<Rightarrow> bool" where
  "can_call c \<longleftrightarrow> (\<forall>q n. c \<noteq> Called q n)"

inductive rpc_step ::
  "rlib \<Rightarrow> (dubbo_header \<Rightarrow> byte list \<Rightarrow> dubbo_header \<times> byte list) \<Rightarrow> error set \<Rightarrow> (nat \<Rightarrow> rpc) \<Rightarrow> (nat \<Rightarrow> rpc) \<Rightarrow> bool"
  for R reply exns where
  call: "can_call (f i) \<Longrightarrow> q = request_payload R svc meth types arg \<Longrightarrow> rpc_step R reply exns f (f(i := Called q n))"
| answer: "f i = Called q n \<Longrightarrow> rpc_step R reply exns f (f(i := Answered q n (result_for R reply q n)))"
| failure: "f i = Called q n \<Longrightarrow> e \<in> exns \<union> range boost_fatal \<Longrightarrow>
    rpc_step R reply exns f (f(i := Answered q n (Inl e)))"

section \<open>The abstraction\<close>

text \<open>
  From the loading of its id to its result a call is under way; one whose coroutine the pool left with an
  exception (of the connection's constructor) has that exception for its result.
\<close>

fun rpc_of :: "coro_pc \<Rightarrow> call_pc \<Rightarrow> rpc" where
  "rpc_of pc Idle = No_Call"
| "rpc_of pc (Finished q n r) = Answered q n r"
| "rpc_of pc (Id_Loaded q n) = Called q n"
| "rpc_of pc (Numbered q n) = (case pc of Failed e \<Rightarrow> Answered q n (Inl e) | _ \<Rightarrow> Called q n)"
| "rpc_of pc (Header_Sent q n) = Called q n"
| "rpc_of pc (Payload_Sent q n) = Called q n"
| "rpc_of pc (Header_Read q n h) = Called q n"

definition rpcs :: "('s, 't) call_sys \<Rightarrow> nat \<Rightarrow> rpc" where
  "rpcs s i = rpc_of (coros (conns s) i) (calls s i)"

lemma rpc_of_not_failed: "\<forall>e. pc \<noteq> Failed e \<Longrightarrow> \<forall>e. pc' \<noteq> Failed e \<Longrightarrow> rpc_of pc c = rpc_of pc' c"
  by (cases c) (auto split: coro_pc.splits)

lemma rpcs_update:
  assumes "conns t = conns s" and "calls t = (calls s)(i := c)"
  shows "rpcs t = (rpcs s)(i := rpc_of (coros (conns s) i) c)"
  using assms by (auto simp: rpcs_def fun_eq_iff)

lemma rpcs_stutter:
  "conns t = conns s \<Longrightarrow> calls t = (calls s)(i := c) \<Longrightarrow> rpc_of (coros (conns s) i) c = rpcs s i \<Longrightarrow> rpcs t = rpcs s"
  by (simp add: rpcs_update fun_upd_idem)

section \<open>Steps of the pool\<close>

text \<open>
  The pool leaves a coroutine with an exception only from its attempt to borrow, and only one at a time.
\<close>

lemma coro_step_fails:
  assumes "coro_step api m exns c c'" and "m < 2 ^ 64" and "coro_inv pending m exns c" and "timer_laws api pending"
  shows "(\<forall>i. (\<exists>e. coros c i = Failed e) \<or> (\<exists>e. coros c' i = Failed e) \<longrightarrow> coros c' i = coros c i) \<or>
    (\<exists>i e. coros c' = (coros c)(i := Failed e) \<and> e \<in> exns \<and> (coros c i = Resting \<or> coros c i = Woken))"
  using assms
proof (induction rule: coro_step.induct)
  case (attempt s i mk r p)
  have fresh: "fresh_for mk (cpool s)" using attempt.hyps(2) by (simp add: admits_def)
  show ?case
  proof (cases r rule: optional_result_cases)
    case (exn e)
    have "mk = Inl e"
      using coro_borrow_exception [OF attempt.prems(1) coro_inv_pool [OF attempt.prems(2)] fresh] attempt.hyps(3) exn
      by blast
    then have "e \<in> exns" using attempt.hyps(2) by (simp add: admits_def)
    with exn attempt.hyps(1) show ?thesis by (auto simp: after_attempt_def)
  qed (use attempt.hyps(1) in \<open>auto simp: after_attempt_def\<close>)
next
  case (enter s i)
  then show ?case by auto
next
  case (give_back s i a r p)
  have "a \<in> lent (cpool s)"
    using exact_in [OF coro_inv_holders [OF give_back.prems(2)], of i a] give_back.hyps(1) by simp
  then have "r = Inr ()"
    using coro_release_contract [OF coro_inv_pool [OF give_back.prems(2)]] give_back.hyps(2) by fastforce
  then show ?case using give_back.hyps(1) by (auto simp: after_give_back_def)
next
  case (signal s i hs t)
  have "hs = take 1 (pending (event s))"
    using event_notify_one_pending [OF signal.prems(3) signal.hyps(2)] by blast
  then have "\<forall>j \<in> set hs. coros s j = Waiting"
    using coro_inv_waiting [OF signal.prems(2)] by (auto dest: in_set_takeD)
  then show ?case using signal.hyps(1) by (auto simp: wake_all_def)
qed

section \<open>The refinement\<close>

text \<open>Beyond \<open>calls_inv\<close>: a coroutine the pool failed has its number and nothing more.\<close>

definition failed_numbered :: "('s, 't) call_sys \<Rightarrow> bool" where
  "failed_numbered s \<longleftrightarrow> (\<forall>i e. coros (conns s) i = Failed e \<longrightarrow> (\<exists>q n. calls s i = Numbered q n))"

lemma failed_numbered_update:
  "failed_numbered s \<Longrightarrow> conns t = conns s \<Longrightarrow> calls t = (calls s)(i := c) \<Longrightarrow> \<forall>e. coros (conns s) i \<noteq> Failed e \<Longrightarrow>
   failed_numbered t"
  by (auto simp: failed_numbered_def)

text \<open>A step of the pool is no step of the specification, or the failure of a call.\<close>

lemma pool_moves_refines:
  assumes "coro_step api m exns (conns s) c" and may: "\<forall>i. may_move (calls s i) (coros (conns s) i) (coros c i)"
    and "m < 2 ^ 64" and "timer_laws api pending" and inv: "calls_inv pending R reply m exns s" and f: "failed_numbered s"
  shows "(rpc_step R reply exns)\<^sup>=\<^sup>= (rpcs s) (rpcs (s\<lparr>conns := c\<rparr>)) \<and> failed_numbered (s\<lparr>conns := c\<rparr>)"
  using coro_step_fails [OF assms(1,3) calls_inv_pool [OF inv] assms(4)]
proof (rule disjE)
  assume same: "\<forall>i. (\<exists>e. coros (conns s) i = Failed e) \<or> (\<exists>e. coros c i = Failed e) \<longrightarrow> coros c i = coros (conns s) i"
  have "rpcs (s\<lparr>conns := c\<rparr>) i = rpcs s i" for i
    using same rpc_of_not_failed [of "coros c i" "coros (conns s) i" "calls s i"]
    by (cases "coros c i = coros (conns s) i") (auto simp: rpcs_def)
  then show ?thesis using f same by (force simp: failed_numbered_def)
next
  assume "\<exists>i e. coros c = (coros (conns s))(i := Failed e) \<and> e \<in> exns \<and>
    (coros (conns s) i = Resting \<or> coros (conns s) i = Woken)"
  then obtain i e where c: "coros c = (coros (conns s))(i := Failed e)" "e \<in> exns"
    and "coros (conns s) i = Resting \<or> coros (conns s) i = Woken" by blast
  then obtain q n where call: "calls s i = Numbered q n" and pc: "rpcs s i = Called q n"
    using may [rule_format, of i] calls_inv_seeking [OF inv, of i] by (auto simp: may_move_def seeking_def rpcs_def)
  have "rpcs (s\<lparr>conns := c\<rparr>) = (rpcs s)(i := Answered q n (Inl e))"
    using c(1) call by (auto simp: rpcs_def fun_eq_iff)
  with rpc_step.failure [of "rpcs s" i q n e exns R reply] pc c(2)
  have "rpc_step R reply exns (rpcs s) (rpcs (s\<lparr>conns := c\<rparr>))" by simp
  then show ?thesis using f c(1) call by (auto simp: failed_numbered_def)
qed

lemma call_step_refines:
  assumes "call_step R reply api m exns s t" and "m < 2 ^ 64" and "timer_laws api pending"
    and "reply_laws reply" and "calls_inv pending R reply m exns s" and "failed_numbered s"
  shows "(rpc_step R reply exns)\<^sup>=\<^sup>= (rpcs s) (rpcs t) \<and> failed_numbered t"
  using assms
proof (induction rule: call_step.induct)
  case (load_id s i payload svc meth types arg)
  let ?t = "s\<lparr>calls := (calls s)(i := Id_Loaded payload (next_id s))\<rparr>"
  have "can_call (rpcs s i)" using load_id.hyps(1) by (auto simp: can_call_def rpcs_def)
  moreover have "rpcs ?t = (rpcs s)(i := Called payload (next_id s))"
    using rpcs_update [of ?t s i] by simp
  ultimately have "rpc_step R reply exns (rpcs s) (rpcs ?t)"
    using rpc_step.call [of "rpcs s" i payload R svc meth types arg] load_id.hyps(3) by simp
  moreover have "failed_numbered ?t"
    using load_id.hyps(2) by (intro failed_numbered_update [OF load_id.prems(5), of _ i]) auto
  ultimately show ?case by blast
next
  case (add_one s i q n)
  let ?t = "s\<lparr>next_id := next_id s + 1, calls := (calls s)(i := Numbered q n)\<rparr>"
  have nf: "coros (conns s) i \<noteq> Failed e" for e
    using add_one.prems(5) add_one.hyps by (fastforce simp: failed_numbered_def)
  then have "rpcs ?t = rpcs s"
    using add_one.hyps by (intro rpcs_stutter [of _ s i "Numbered q n"]) (auto simp: rpcs_def split: coro_pc.splits)
  moreover have "failed_numbered ?t" using nf by (intro failed_numbered_update [OF add_one.prems(5), of _ i]) simp_all
  ultimately show ?case by simp
next
  case (pool_moves s c)
  show ?case by (rule pool_moves_refines [OF pool_moves.hyps pool_moves.prems(1,2,4,5)])
next
  case (write_header s i a q n)
  let ?t = "s\<lparr>to_server := (to_server s)(a := to_server s a @ header_bytes (request_header n q)),
         calls := (calls s)(i := Header_Sent q n)\<rparr>"
  have "rpcs ?t = rpcs s" using write_header.hyps by (intro rpcs_stutter [of _ s i "Header_Sent q n"]) (auto simp: rpcs_def)
  moreover have "failed_numbered ?t"
    using write_header.hyps(1) by (intro failed_numbered_update [OF write_header.prems(5), of _ i]) simp_all
  ultimately show ?case by simp
next
  case (write_payload s i a q n)
  let ?t = "s\<lparr>to_server := (to_server s)(a := to_server s a @ bytes_of q), calls := (calls s)(i := Payload_Sent q n)\<rparr>"
  have "rpcs ?t = rpcs s" using write_payload.hyps by (intro rpcs_stutter [of _ s i "Payload_Sent q n"]) (auto simp: rpcs_def)
  moreover have "failed_numbered ?t"
    using write_payload.hyps(1) by (intro failed_numbered_update [OF write_payload.prems(5), of _ i]) simp_all
  ultimately show ?case by simp
next
  case (serve s a h body later h' body')
  then show ?case by (simp add: rpcs_def [abs_def] failed_numbered_def)
next
  case (read_header s i a q n bs later)
  note inv = read_header.prems(4)
  let ?t = "s\<lparr>to_client := (to_client s)(a := later), calls := (calls s)(i := after_header q n (header_of bs))\<rparr>"
  have "after_header q n (header_of bs) = Header_Read q n (header_of bs)"
    using read_after_header [OF read_header.prems(3) held_wire [OF inv read_header.hyps(1,3,2)] read_header.hyps(4,5)]
    by blast
  then have "rpcs ?t = rpcs s" using read_header.hyps(2)
    by (intro rpcs_stutter [of _ s i "Header_Read q n (header_of bs)"]) (auto simp: rpcs_def)
  moreover have "failed_numbered ?t"
    using read_header.hyps(1) by (intro failed_numbered_update [OF read_header.prems(5), of _ i]) simp_all
  ultimately show ?case by simp
next
  case (read_payload s i a q n h body later)
  note inv = read_payload.prems(4)
  let ?t = "s\<lparr>to_client := (to_client s)(a := later), calls := (calls s)(i := Finished q n (answer_result R h body))\<rparr>"
  have w: "answer_to reply q n = (h, body @ later)"
    using held_wire [OF inv read_payload.hyps(1,3,2)] read_payload.hyps(4) by auto
  then have "unat (byte_swap (data_length h)) = length (body @ later)"
    using read_payload.prems(3) unfolding reply_laws_def answer_to_def by blast
  then have "later = []" using read_payload.hyps(5) by (auto simp: answer_length_def Let_def split: if_splits)
  with w have r: "answer_result R h body = result_for R reply q n" by (simp add: result_for_def)
  have "rpcs s i = Called q n" using read_payload.hyps(2) by (simp add: rpcs_def)
  moreover have "rpcs ?t = (rpcs s)(i := Answered q n (result_for R reply q n))"
    using rpcs_update [of ?t s i] by (simp add: r)
  ultimately have "rpc_step R reply exns (rpcs s) (rpcs ?t)" using rpc_step.answer [of "rpcs s" i q n] by simp
  moreover have "failed_numbered ?t"
    using read_payload.hyps(1) by (intro failed_numbered_update [OF read_payload.prems(5), of _ i]) simp_all
  ultimately show ?case by blast
next
  case (io_error s i a q n ec)
  let ?t = "s\<lparr>broken := insert a (broken s), calls := (calls s)(i := Finished q n (Inl (boost_fatal ec)))\<rparr>"
  have "rpcs s i = Called q n" using io_error.hyps by (cases "calls s i") (simp_all add: rpcs_def)
  moreover have "rpcs ?t = (rpcs s)(i := Answered q n (Inl (boost_fatal ec)))"
    using rpcs_update [of ?t s i] by simp
  ultimately have "rpc_step R reply exns (rpcs s) (rpcs ?t)"
    using rpc_step.failure [of "rpcs s" i q n "boost_fatal ec" exns R reply] by simp
  moreover have "failed_numbered ?t"
    using io_error.hyps(1) by (intro failed_numbered_update [OF io_error.prems(5), of _ i]) simp_all
  ultimately show ?case by blast
qed

lemma calls_reach_refines:
  fixes s :: "('s, 't) call_sys"
  assumes "calls_reach R reply api m exns s" and "m < 2 ^ 64" and "timer_laws api pending"
    and "reply_laws reply" and "rlib_laws R"
  shows "(rpc_step R reply exns)\<^sup>*\<^sup>* (\<lambda>_. No_Call) (rpcs s) \<and> failed_numbered s"
  using assms
proof (induction rule: calls_reach.induct)
  case start
  have "rpcs (init_calls api :: ('s, 't) call_sys) = (\<lambda>_. No_Call)" by (rule ext) (simp add: rpcs_def init_calls_def)
  then show ?case by (simp add: failed_numbered_def init_calls_def init_coros_def)
next
  case (step s t)
  have "calls_inv pending R reply m exns s" using calls_reach_inv [OF step.hyps(1) step.prems] .
  with call_step_refines [OF step.hyps(2) step.prems(1-3)] step.IH [OF step.prems]
  show ?case by (auto intro: rtranclp.rtrancl_into_rtrancl)
qed

section \<open>A call on a good connection can go on\<close>

text \<open>
  Whatever the bytes on the way, the next step of the client or of the server is there: the two never wait for each
  other.
\<close>

definition on_good ::
  "('t \<Rightarrow> nat list) \<Rightarrow> rlib \<Rightarrow> (dubbo_header \<Rightarrow> byte list \<Rightarrow> dubbo_header \<times> byte list) \<Rightarrow> nat \<Rightarrow> error set \<Rightarrow>
   nat \<Rightarrow> addr \<Rightarrow> ('s, 't) call_sys \<Rightarrow> bool" where
  "on_good pending R reply m exns i a s \<longleftrightarrow>
     calls_inv pending R reply m exns s \<and> coros (conns s) i = Holding a \<and> a \<notin> broken s"

text \<open>One step of the caller \<open>i\<close> or of the server, after which nothing else has changed.\<close>

definition moves ::
  "rlib \<Rightarrow> (dubbo_header \<Rightarrow> byte list \<Rightarrow> dubbo_header \<times> byte list) \<Rightarrow> ('t, nat) timer_api \<Rightarrow> nat \<Rightarrow> error set \<Rightarrow>
   nat \<Rightarrow> ('s, 't) call_sys \<Rightarrow> ('s, 't) call_sys \<Rightarrow> bool" where
  "moves R reply api m exns i s t \<longleftrightarrow>
     call_step R reply api m exns s t \<and> conns t = conns s \<and> broken t = broken s \<and> (\<forall>j. j \<noteq> i \<longrightarrow> calls t j = calls s j)"

lemma good_wire:
  "on_good pending R reply m exns i a s \<Longrightarrow> calls s i = c \<Longrightarrow> wire_ok reply c (to_server s a) (to_client s a)"
  unfolding on_good_def by (elim conjE) (rule held_wire)

lemma moves_good:
  assumes "on_good pending R reply m exns i a s" and "moves R reply api m exns i s t"
    and "m < 2 ^ 64" and "timer_laws api pending" and "reply_laws reply" and "rlib_laws R"
  shows "on_good pending R reply m exns i a t"
  using assms call_step_inv [OF _ assms(3-6)] by (auto simp: on_good_def moves_def)

lemma moves_steps:
  "(moves R reply api m exns i)\<^sup>*\<^sup>* s t \<Longrightarrow> (call_step R reply api m exns)\<^sup>*\<^sup>* s t \<and> conns t = conns s \<and>
     (\<forall>j. j \<noteq> i \<longrightarrow> calls t j = calls s j)"
  by (induction rule: rtranclp_induct) (auto simp: moves_def intro: rtranclp.rtrancl_into_rtrancl)

lemma reads_payload:
  assumes "on_good pending R reply m exns i a s" and "calls s i = Header_Read q n h" and "reply_laws reply"
  shows "\<exists>t. moves R reply api m exns i s t \<and> calls t i = Finished q n (result_for R reply q n)"
proof -
  have w: "answer_to reply q n = (h, to_client s a)"
    using good_wire [OF assms(1,2)] by simp
  then have "unat (byte_swap (data_length h)) = length (to_client s a) \<and> length (to_client s a) \<le> 2 ^ 30"
    using assms(3) unfolding reply_laws_def answer_to_def by blast
  then have l: "answer_length h = Inr (length (to_client s a))" by (simp add: answer_length_def)
  have "call_step R reply api m exns s
      (s\<lparr>to_client := (to_client s)(a := []), calls := (calls s)(i := Finished q n (answer_result R h (to_client s a)))\<rparr>)"
    using assms(1) by (intro call_step.read_payload [OF _ assms(2) _ _ l]) (auto simp: on_good_def)
  then show ?thesis using w by (intro exI conjI) (auto simp: moves_def result_for_def)
qed

lemma reads_header:
  assumes "on_good pending R reply m exns i a s" and "calls s i = Payload_Sent q n" and "reply_laws reply"
    and "to_client s a \<noteq> []"
  shows "\<exists>t h. moves R reply api m exns i s t \<and> calls t i = Header_Read q n h"
proof -
  have w: "wire_ok reply (Payload_Sent q n) (to_server s a) (to_client s a)"
    using good_wire [OF assms(1,2)] .
  then obtain h body where h: "to_client s a = header_bytes h @ body" using assms(4) by auto
  have "after_header q n (header_of (header_bytes h)) = Header_Read q n (header_of (header_bytes h))"
    using read_after_header [OF assms(3) w h] by simp
  moreover have "call_step R reply api m exns s (s\<lparr>to_client := (to_client s)(a := body),
      calls := (calls s)(i := after_header q n (header_of (header_bytes h)))\<rparr>)"
    using assms(1) by (intro call_step.read_header [OF _ assms(2) _ h]) (auto simp: on_good_def)
  ultimately show ?thesis by (intro exI conjI) (auto simp: moves_def)
qed

lemma is_served:
  assumes "on_good pending R reply m exns i a s" and "calls s i = Payload_Sent q n" and "to_client s a = []"
  shows "\<exists>t. moves R reply api m exns i s t \<and> calls t i = Payload_Sent q n \<and> to_client t a \<noteq> []"
proof -
  have "wire_ok reply (Payload_Sent q n) (to_server s a) (to_client s a)"
    using good_wire [OF assms(1,2)] .
  moreover have nonempty: "header_bytes h @ body \<noteq> []" for h body
    using length_header_bytes [of h] by (metis append_is_Nil_conv list.size(3) zero_neq_numeral)
  ultimately have out: "to_server s a = header_bytes (request_header n q) @ bytes_of q @ []"
    using assms(3) by auto
  have "length q < 2 ^ 32" using calls_inv_sized [of pending R reply m exns s i q] assms(1,2) by (simp add: on_good_def)
  then have len: "unat (byte_swap (data_length (request_header n q))) = length (bytes_of q)"
    using request_length by simp
  obtain h body where "reply (request_header n q) (bytes_of q) = (h, body)" by force
  then have "call_step R reply api m exns s (s\<lparr>to_server := (to_server s)(a := []),
      to_client := (to_client s)(a := to_client s a @ header_bytes h @ body)\<rparr>)"
    using call_step.serve [of s a "request_header n q" "bytes_of q" "[]"] out len by simp
  then show ?thesis using nonempty [of h body] assms(2)
    by (intro exI [of _ "s\<lparr>to_server := (to_server s)(a := []),
        to_client := (to_client s)(a := to_client s a @ header_bytes h @ body)\<rparr>"]) (auto simp: moves_def)
qed

lemma sends_payload:
  assumes "on_good pending R reply m exns i a s" and "calls s i = Header_Sent q n"
  shows "\<exists>t. moves R reply api m exns i s t \<and> calls t i = Payload_Sent q n"
  using assms call_step.write_payload [of s i a q n R reply api m exns]
  by (intro exI conjI) (auto simp: moves_def on_good_def)

lemma sends_header:
  assumes "on_good pending R reply m exns i a s" and "calls s i = Numbered q n"
  shows "\<exists>t. moves R reply api m exns i s t \<and> calls t i = Header_Sent q n"
  using assms call_step.write_header [of s i a q n R reply api m exns]
  by (intro exI conjI) (auto simp: moves_def on_good_def)

text \<open>So it comes to the answer, stage by stage.\<close>

lemma good_call_finishes:
  fixes s :: "('s, 't) call_sys"
  assumes laws: "m < 2 ^ 64" "timer_laws api pending" "reply_laws reply" "rlib_laws R"
    and good: "on_good pending R reply m exns i a s" and call: "on_connection (calls s i) = Some (q, n)"
  shows "\<exists>t. (moves R reply api m exns i)\<^sup>*\<^sup>* s t \<and> calls t i = Finished q n (result_for R reply q n)"
proof -
  let ?M = "moves R reply api m exns i :: ('s, 't) call_sys \<Rightarrow> _"
  define goal where "goal t \<longleftrightarrow> (\<exists>u. ?M\<^sup>*\<^sup>* t u \<and> calls u i = Finished q n (result_for R reply q n))" for t
  have on: "goal t" if "?M t u" "goal u" for t u
    using that by (auto simp: goal_def intro: converse_rtranclp_into_rtranclp)
  have keep: "on_good pending R reply m exns i a u" if "on_good pending R reply m exns i a t" "?M t u" for t u
    using moves_good [OF that laws] .
  have g4: "goal t" if t: "on_good pending R reply m exns i a t" "calls t i = Header_Read q n h" for t h
    using reads_payload [OF t laws(3), of api] by (auto simp: goal_def)
  have g3: "goal t" if t: "on_good pending R reply m exns i a t" "calls t i = Payload_Sent q n" "to_client t a \<noteq> []" for t
    using reads_header [OF t(1,2) laws(3) t(3), of api] on keep [OF t(1)] g4 by blast
  have g2: "goal t" if t: "on_good pending R reply m exns i a t" "calls t i = Payload_Sent q n" for t
  proof (cases "to_client t a = []")
    case True
    then show ?thesis using is_served [OF t True, of api] on keep [OF t(1)] g3 by blast
  qed (use g3 t in blast)
  have g1: "goal t" if t: "on_good pending R reply m exns i a t" "calls t i = Header_Sent q n" for t
    using sends_payload [OF t, of api] on keep [OF t(1)] g2 by blast
  have g0: "goal t" if t: "on_good pending R reply m exns i a t" "calls t i = Numbered q n" for t
    using sends_header [OF t, of api] on keep [OF t(1)] g1 by blast
  have "goal s" using call good g0 g1 g2 g4 by (cases "calls s i") auto
  then show ?thesis by (simp add: goal_def)
qed

section \<open>Properties\<close>

text \<open>
  C3: the concurrent calls of \<open>async_request\<close>, on any number of threads, over shared connections that may
  fail at any moment, implement calls that are atomic: through the abstraction \<open>rpcs\<close> every step of the code is a
  step of the specification or none, so that every reachable state is one of the specification. In
  it a call that was made gets, once, the result the code makes of the server's answer to its own request, or an
  exception of a socket or of the pool, and nothing else happens to it.
\<close>

theorem dubbo_calls_refine_rpc:
  fixes s :: "('s, 't) call_sys"
  assumes "calls_reach R reply api (unat (m :: 64 word)) exns s" and "timer_laws api pending"
    and "reply_laws reply" and "rlib_laws R"
  shows "(rpc_step R reply exns)\<^sup>*\<^sup>* (\<lambda>_. No_Call) (rpcs s) \<and>
    (\<forall>t. call_step R reply api (unat m) exns s t \<longrightarrow> (rpc_step R reply exns)\<^sup>=\<^sup>= (rpcs s) (rpcs t))"
  using calls_reach_refines [OF assms(1) unat_64 assms(2-4)] calls_reach_inv [OF assms(1) unat_64 assms(2-4)]
    call_step_refines [OF _ unat_64 assms(2,3)]
  by blast

theorem dubbo_calls_refine_rpc_witness:
  "\<exists>s :: (nat, nat list) call_sys. calls_reach plain_rlib run_reply list_timer 1 {} s \<and>
     (rpc_step plain_rlib run_reply {})\<^sup>*\<^sup>* (\<lambda>_. No_Call) (rpcs s) \<and>
     rpcs s 0 = Answered run_payload 0x1998427 (result_for plain_rlib run_reply run_payload 0x1998427)"
proof -
  let ?s = "run_state (Finished run_payload 0x1998427 (result_for plain_rlib run_reply run_payload 0x1998427)) [] []"
  have reach: "calls_reach plain_rlib run_reply list_timer (unat (1 :: 64 word)) {} ?s"
    using run_finishes unfolding unsigned_1 .
  have "rpcs ?s 0 = Answered run_payload 0x1998427 (result_for plain_rlib run_reply run_payload 0x1998427)"
    by (simp add: rpcs_def run_state_def)
  then show ?thesis
    using dubbo_calls_refine_rpc [OF reach list_timer_laws run_reply_laws plain_rlib_laws] run_finishes by blast
qed

text \<open>
  C15: no deadlock between client and server: in every reachable state, a call that holds a connection that has not
  failed can run to its end, to the result made of the server's answer, by steps of its own and of the server
  only, whatever the other calls are doing; they are left as they are.
\<close>

theorem dubbo_call_can_finish:
  fixes s :: "('s, 't) call_sys"
  assumes "calls_reach R reply api (unat (m :: 64 word)) exns s" and "timer_laws api pending"
    and "reply_laws reply" and "rlib_laws R"
    and "coros (conns s) i = Holding a" and "a \<notin> broken s" and "on_connection (calls s i) = Some (q, n)"
  shows "\<exists>t. (call_step R reply api (unat m) exns)\<^sup>*\<^sup>* s t \<and> calls t i = Finished q n (result_for R reply q n) \<and>
    conns t = conns s \<and> (\<forall>j. j \<noteq> i \<longrightarrow> calls t j = calls s j)"
proof -
  have "on_good pending R reply (unat m) exns i a s"
    using calls_reach_inv [OF assms(1) unat_64 assms(2-4)] assms(5,6) by (simp add: on_good_def)
  from good_call_finishes [OF unat_64 assms(2-4) this assms(7)] show ?thesis
    using moves_steps by blast
qed

theorem dubbo_call_can_finish_witness:
  "\<exists>t :: (nat, nat list) call_sys. (call_step plain_rlib run_reply list_timer 1 {})\<^sup>*\<^sup>*
      (run_state (Header_Sent run_payload 0x1998427) (header_bytes (request_header 0x1998427 run_payload)) []) t \<and>
    calls t 0 = Finished run_payload 0x1998427 (result_for plain_rlib run_reply run_payload 0x1998427)"
proof -
  have "calls_reach plain_rlib run_reply list_timer (unat (1 :: 64 word)) {} (run_state
      (Header_Sent run_payload 0x1998427) (header_bytes (request_header 0x1998427 run_payload)) [])"
    using run_reaches_header unfolding unsigned_1 .
  from dubbo_call_can_finish [OF this list_timer_laws run_reply_laws plain_rlib_laws, where i = 0 and a = 5]
  show ?thesis unfolding unsigned_1 by (auto simp: run_state_def)
qed

end
