(* ===== verification/Dubbo_Args.thy ===== *)
theory Dubbo_Args
  imports Rlib
begin

text \<open>
  The four arguments of a Dubbo call: \<open>http_payload_to_dubbo_parameters\<close> of src/provider_selector.hpp,
  which reads them from the body of the consumer's request, the same parse written out in
  \<open>handle_request\<close> of src/provider_agent.cc, and the line format in which the consumer agent sends them
  to the provider agent. \<open>form_value\<close> is the specification: the last value given for a name.
\<close>

section \<open>The parse\<close>

text \<open>One \<open>key=value\<close> of the body; the log lines of the two skipping branches are left out.\<close>

definition parse_kv :: "string list \<Rightarrow> string \<Rightarrow> string list" where
  "parse_kv args kv_str =
     (case cut_at (CHR ''='') kv_str of
        None \<Rightarrow> args
      | Some (key, val) \<Rightarrow>
          if key = ''interface'' then args[0 := val]
          else if key = ''method'' then args[1 := val]
          else if key = ''parameterTypesString'' then args[2 := val]
          else if key = ''parameter'' then args[3 := val]
          else args)"

definition http_payload_to_dubbo_parameters :: "rlib \<Rightarrow> string \<Rightarrow> string list result" where
  "http_payload_to_dubbo_parameters R payload =
     (let kv_str_array = rl_split R (CHR ''&'') payload;
          args = foldl parse_kv (replicate 4 []) kv_str_array;
          args = args[2 := rl_replace R ''%3B'' '';'' (rl_replace R ''%2F'' ''/'' (args ! 2))]
      in if list_ex (\<lambda>s. s = []) args
         then Inl (Runtime_Error ''Required http argument not provided.'')
         else Inr args)"

text \<open>The line the consumer agent sends: \<open>''\n''_rs.join(args)\<close>.\<close>

definition wire_text :: "rlib \<Rightarrow> string list \<Rightarrow> string" where
  "wire_text R args = rl_join R [LF] args"

section \<open>Specification\<close>

definition form_pairs :: "string \<Rightarrow> (string \<times> string) list" where
  "form_pairs payload = List.map_filter (cut_at (CHR ''='')) (split_on (CHR ''&'') payload)"

definition form_value :: "string \<Rightarrow> string \<Rightarrow> string" where
  "form_value key payload =
     (case map_of (rev (form_pairs payload)) key of None \<Rightarrow> [] | Some v \<Rightarrow> v)"

definition url_decode_types :: "string \<Rightarrow> string" where
  "url_decode_types s = replace_all ''%3B'' '';'' (replace_all ''%2F'' ''/'' s)"

text \<open>How a client writes the four arguments into a body.\<close>

definition url_encode_types :: "string \<Rightarrow> string" where
  "url_encode_types s =
     concat (map (\<lambda>c. if c = CHR ''/'' then ''%2F'' else if c = CHR '';'' then ''%3B'' else [c]) s)"

definition form_body :: "string list \<Rightarrow> string" where
  "form_body args =
     intercalate ''&'' [''interface='' @ args ! 0, ''method='' @ args ! 1,
       ''parameterTypesString='' @ url_encode_types (args ! 2), ''parameter='' @ args ! 3]"

section \<open>The fold is the last value of each name\<close>

lemma foldl_parse_kv_length: "length (foldl parse_kv args kvs) = length args"
  by (induction kvs arbitrary: args) (auto simp: parse_kv_def split: option.splits)

lemma last_entry_cons:
  "(case map_of (rev ((k, v) # kvs)) key of None \<Rightarrow> d | Some x \<Rightarrow> x) =
   (case map_of (rev kvs) key of None \<Rightarrow> (if k = key then v else d) | Some x \<Rightarrow> x)"
  by (simp add: map_add_def split: option.split)

lemma nth_four: "[a, b, c, d] ! 0 = a" "[a, b, c, d] ! 1 = b" "[a, b, c, d] ! 2 = c" "[a, b, c, d] ! 3 = d"
  by (simp_all add: numeral_2_eq_2 numeral_3_eq_3)

lemma foldl_parse_kv:
  assumes "length args = 4"
  shows "foldl parse_kv args kvs =
    (let v = (\<lambda>key d. case map_of (rev (List.map_filter (cut_at (CHR ''='')) kvs)) key of
                None \<Rightarrow> d | Some x \<Rightarrow> x)
     in [v ''interface'' (args ! 0), v ''method'' (args ! 1), v ''parameterTypesString'' (args ! 2),
         v ''parameter'' (args ! 3)])"
  using assms
proof (induction kvs arbitrary: args)
  case Nil
  then obtain a b c d where "args = [a, b, c, d]"
    by (auto simp: numeral_eq_Suc length_Suc_conv)
  then show ?case by (simp add: map_filter_simps)
next
  case (Cons kv kvs)
  then obtain a b c d where args: "args = [a, b, c, d]"
    by (auto simp: numeral_eq_Suc length_Suc_conv)
  show ?case
  proof (cases "cut_at (CHR ''='') kv")
    case None
    with Cons show ?thesis by (simp add: map_filter_simps parse_kv_def)
  next
    case (Some p)
    obtain key val where p: "p = (key, val)" by (cases p)
    have "length (parse_kv args kv) = 4" using Cons.prems by (simp add: parse_kv_def Some p)
    note IH = Cons.IH [OF this]
    have four: "parse_kv [a, b, c, d] kv =
      [if key = ''interface'' then val else a, if key = ''method'' then val else b,
       if key = ''parameterTypesString'' then val else c, if key = ''parameter'' then val else d]"
      by (simp add: parse_kv_def Some p numeral_2_eq_2 numeral_3_eq_3)
    show ?thesis
      unfolding args foldl_Cons four IH [unfolded args four] map_filter_simps Some p option.case last_entry_cons
      by (simp only: Let_def nth_four list.inject simp_thms eq_commute [of _ key])
  qed
qed

lemma parsed_args:
  assumes "rlib_laws R"
  shows "http_payload_to_dubbo_parameters R payload =
    (let args = [form_value ''interface'' payload, form_value ''method'' payload,
                 url_decode_types (form_value ''parameterTypesString'' payload),
                 form_value ''parameter'' payload]
     in if [] \<in> set args then Inl (Runtime_Error ''Required http argument not provided.'') else Inr args)"
proof -
  have "list_ex (\<lambda>s. s = []) xs \<longleftrightarrow> [] \<in> set xs" for xs :: "string list"
    by (auto simp: list_ex_iff)
  then show ?thesis
    unfolding http_payload_to_dubbo_parameters_def Let_def rlib_ops [OF assms] form_value_def
      form_pairs_def url_decode_types_def
    by (simp add: foldl_parse_kv numeral_eq_Suc del: split_paired_All)
qed

section \<open>Round trips\<close>

lemma decode_slashes:
  "CHR ''%'' \<notin> set s \<Longrightarrow> replace_all ''%2F'' ''/'' (url_encode_types s) =
     concat (map (\<lambda>c. if c = CHR '';'' then ''%3B'' else [c]) s)"
proof (induction s)
  case (Cons c s)
  then have IH: "replace_all ''%2F'' ''/'' (url_encode_types s) =
      concat (map (\<lambda>c. if c = CHR '';'' then ''%3B'' else [c]) s)" by simp
  have slash: "replace_all ''%2F'' ''/'' (CHR ''%'' # CHR ''2'' # CHR ''F'' # t) =
      CHR ''/'' # replace_all ''%2F'' ''/'' t" for t
    using replace_all_hit [of "''%2F''" "''/''" t] by simp
  have other: "replace_all ''%2F'' ''/'' (CHR ''%'' # CHR ''3'' # CHR ''B'' # t) =
      CHR ''%'' # CHR ''3'' # CHR ''B'' # replace_all ''%2F'' ''/'' t" for t
    by (subst replace_all.simps) (simp add: replace_all_skip)
  show ?case using IH Cons.prems
    by (auto simp: url_encode_types_def slash other replace_all_skip)
qed (simp add: url_encode_types_def)

lemma decode_semicolons:
  "CHR ''%'' \<notin> set s \<Longrightarrow>
   replace_all ''%3B'' '';'' (concat (map (\<lambda>c. if c = CHR '';'' then ''%3B'' else [c]) s)) = s"
proof (induction s)
  case (Cons c s)
  have semi: "replace_all ''%3B'' '';'' (CHR ''%'' # CHR ''3'' # CHR ''B'' # t) =
      CHR '';'' # replace_all ''%3B'' '';'' t" for t
    using replace_all_hit [of "''%3B''" "'';''" t] by simp
  from Cons show ?case by (auto simp: semi replace_all_skip)
qed simp

lemma url_decode_encode: "CHR ''%'' \<notin> set s \<Longrightarrow> url_decode_types (url_encode_types s) = s"
  by (simp add: url_decode_types_def decode_slashes decode_semicolons)

lemma encode_no_ampersand: "CHR ''&'' \<notin> set s \<Longrightarrow> CHR ''&'' \<notin> set (url_encode_types s)"
  by (auto simp: url_encode_types_def split: if_splits)

lemma form_pairs_body:
  assumes "\<forall>i < 4. CHR ''&'' \<notin> set (args ! i)"
  shows "form_pairs (form_body args) =
    [(''interface'', args ! 0), (''method'', args ! 1),
     (''parameterTypesString'', url_encode_types (args ! 2)), (''parameter'', args ! 3)]"
proof -
  have "CHR ''&'' \<notin> set (args ! 0)" "CHR ''&'' \<notin> set (args ! 1)" "CHR ''&'' \<notin> set (args ! 3)"
    "CHR ''&'' \<notin> set (url_encode_types (args ! 2))"
    using assms encode_no_ampersand by auto
  then have "split_on (CHR ''&'') (form_body args) =
      [''interface'' @ CHR ''='' # args ! 0, ''method'' @ CHR ''='' # args ! 1,
       ''parameterTypesString'' @ CHR ''='' # url_encode_types (args ! 2),
       ''parameter'' @ CHR ''='' # args ! 3]"
    unfolding form_body_def by (subst split_on_intercalate) auto
  moreover have "CHR ''='' \<notin> set ''interface''" "CHR ''='' \<notin> set ''method''"
    "CHR ''='' \<notin> set ''parameterTypesString''" "CHR ''='' \<notin> set ''parameter''" by simp_all
  ultimately show ?thesis
    by (simp add: form_pairs_def map_filter_simps cut_at_append del: append_Cons append_Nil)
qed

lemma form_body_parsed:
  assumes "rlib_laws R" and "length args = 4" and "[] \<notin> set args"
    and "\<forall>i < 4. CHR ''&'' \<notin> set (args ! i)" and "CHR ''%'' \<notin> set (args ! 2)"
  shows "http_payload_to_dubbo_parameters R (form_body args) = Inr args"
proof -
  obtain a b c d where args: "args = [a, b, c, d]"
    using assms(2) by (auto simp: numeral_eq_Suc length_Suc_conv)
  have vals: "form_value ''interface'' (form_body args) = a" "form_value ''method'' (form_body args) = b"
    "form_value ''parameterTypesString'' (form_body args) = url_encode_types c"
    "form_value ''parameter'' (form_body args) = d"
    unfolding form_value_def form_pairs_body [OF assms(4)] by (simp_all add: args)
  show ?thesis
    using assms(3,5) url_decode_encode [of c]
    by (simp only: parsed_args [OF assms(1)] vals) (simp add: args)
qed

section \<open>Properties\<close>

text \<open>
  C24: the parse gives, for each of the four names, the value of the last pair of the body with that
  name, whatever else the body holds and in whatever order, with \<open>%2F\<close> and \<open>%3B\<close> of the types
  decoded; and it throws exactly when one of the four is missing or empty.
\<close>

theorem http_payload_parsed:
  assumes "rlib_laws R"
  shows "http_payload_to_dubbo_parameters R payload =
    (let args = [form_value ''interface'' payload, form_value ''method'' payload,
                 url_decode_types (form_value ''parameterTypesString'' payload),
                 form_value ''parameter'' payload]
     in if [] \<in> set args then Inl (Runtime_Error ''Required http argument not provided.'') else Inr args)"
  using assms by (rule parsed_args)

theorem http_payload_parsed_witness:
  "http_payload_to_dubbo_parameters plain_rlib ''method=hash&bad&parameter=a=b&method=m&interface=I''
     = Inl (Runtime_Error ''Required http argument not provided.'')"
  by (subst http_payload_parsed [OF plain_rlib_laws])
     (simp add: form_value_def form_pairs_def url_decode_types_def map_filter_simps cut_at_def)

text \<open>
  A client that writes four nonempty arguments into a body (the types percent-encoded, no \<open>&\<close>
  in any of them, no \<open>%\<close> in the types) gets them parsed back as they were, in the slots Dubbo expects.
\<close>

theorem form_body_round_trip:
  assumes "rlib_laws R" and "length args = 4" and "[] \<notin> set args"
    and "\<forall>i < 4. CHR ''&'' \<notin> set (args ! i)" and "CHR ''%'' \<notin> set (args ! 2)"
  shows "http_payload_to_dubbo_parameters R (form_body args) = Inr args"
  using assms by (rule form_body_parsed)

theorem form_body_round_trip_witness:
  "http_payload_to_dubbo_parameters plain_rlib
     ''interface=S&method=hash&parameterTypesString=Ljava%2FString%3B&parameter=x=1''
   = Inr [''S'', ''hash'', ''Ljava/String;'', ''x=1'']"
proof -
  have "form_body [''S'', ''hash'', ''Ljava/String;'', ''x=1''] =
      ''interface=S&method=hash&parameterTypesString=Ljava%2FString%3B&parameter=x=1''"
    by (simp add: form_body_def url_encode_types_def)
  then show ?thesis
    using form_body_round_trip [OF plain_rlib_laws, of "[''S'', ''hash'', ''Ljava/String;'', ''x=1'']"]
    by (simp add: All_less_Suc numeral_eq_Suc)
qed

end
