(* ===== verification/Provider_Info.thy ===== *)
theory Provider_Info
  imports Conn_Pool Dubbo_Args
begin

text \<open>
  \<open>provider_info\<close> of src/provider_selector.hpp: one provider agent the consumer agent is connected to, its
  pool of connections, all made by the constructor, its measured latency, and \<open>async_request\<close>, which
  parses the body of the consumer's request, sends the arguments line by line and turns what comes back
  into a response. \<open>now\<close> is the clock, in microseconds.
\<close>

section \<open>The constructor\<close>

record 's provider_info =
  hostname :: string
  port_of :: "16 word"
  prov_conns :: "'s conn_pool_coro"
  latency :: "32 word"
  connpool_latency :: "32 word"

text \<open>
  The loop of \<open>fill_full\<close> connects \<open>n\<close> times, until a connection fails; the outcomes in order.
\<close>

fun connect_many ::
  "('s, 'p, 'w) net \<Rightarrow> string \<Rightarrow> 16 word \<Rightarrow> nat \<Rightarrow> 'w \<Rightarrow> 's pooled_conn result list \<times> 'w" where
  "connect_many net addr port 0 w = ([], w)"
| "connect_many net addr port (Suc n) w =
     (case pooled_conn_new net addr port w of
        (Inl e, w1) \<Rightarrow> ([Inl e], w1)
      | (Inr c, w1) \<Rightarrow> (let (rs, w2) = connect_many net addr port n w1 in (Inr c # rs, w2)))"

definition provider_info_new ::
  "('s, 'p, 'w) net \<Rightarrow> (nat \<Rightarrow> addr) \<Rightarrow> string \<Rightarrow> 16 word \<Rightarrow> ('s provider_info, 'w) step" where
  "provider_info_new net alloc addr port w =
     (let (rs, w1) = connect_many net addr port AGENT_CONN_POOL_SIZE w;
          (r, p) = fill_full AGENT_CONN_POOL_SIZE (\<lambda>i. construction_of (alloc i) (rs ! i)) empty_pool
      in (bind_result r (\<lambda>_. Inr
            \<lparr>hostname = addr, port_of = port, prov_conns = p, latency = 50000, connpool_latency = 1\<rparr>), w1))"

text \<open>The move constructor: the host and the connections move, the two latencies start again.\<close>

definition provider_info_move :: "'s provider_info \<Rightarrow> 's provider_info" where
  "provider_info_move another = another\<lparr>latency := 50000, connpool_latency := 1\<rparr>"

section \<open>A request\<close>

definition resp_500 :: http_response where
  "resp_500 = (new_response Internal_Server_Error_500 11)
     \<lparr>res_server := Some ''rHttp'', res_content_type := Some ''text/plain'', res_body := ''server error''\<rparr>"

text \<open>
  After the request was sent: the buffer is printed to the log as a C string before the error code is
  looked at, so that is where an unterminated one is overrun. The value is the response and, when an
  answer came, the latency in microseconds as stored in 32 bits.
\<close>

definition read_answer ::
  "('s, 'p, 'w) net \<Rightarrow> ('w \<Rightarrow> int) \<Rightarrow> 's \<Rightarrow> (http_response \<times> 32 word option, 'w) step" where
  "read_answer net now s w =
     (let time_L = now w;
          ((ec, bs), w1) = net_read_some net s buffer_size w
      in case c_string (filled_buffer bs) of
           Inl e \<Rightarrow> (Inl e, w1)
         | Inr answer \<Rightarrow>
             (if ec \<noteq> None then (Inr (resp_500, None), w1)
              else (Inr ((new_response Ok_200 11)\<lparr>res_body := answer\<rparr>,
                         Some (word_of_int (now w1 - time_L))), w1)))"

definition provider_exchange ::
  "rlib \<Rightarrow> ('s, 'p, 'w) net \<Rightarrow> ('w \<Rightarrow> int) \<Rightarrow> string \<Rightarrow> 's \<Rightarrow> (http_response \<times> 32 word option, 'w) step" where
  "provider_exchange R net now body s w =
     (case http_payload_to_dubbo_parameters R body of
        Inl e \<Rightarrow> (Inr (resp_500, None), w)
      | Inr dubbo_args \<Rightarrow>
          (case net_write net s (bytes_of (wire_text R dubbo_args)) w of
             (Some ec, w1) \<Rightarrow> (Inr (resp_500, None), w1)
           | (None, w1) \<Rightarrow> read_answer net now s w1))"

definition provider_async_request ::
  "rlib \<Rightarrow> ('s, 'p, 'w) net \<Rightarrow> ('w \<Rightarrow> int) \<Rightarrow> addr \<Rightarrow> http_request \<Rightarrow> 's provider_info \<Rightarrow> 'w \<Rightarrow>
   (http_response result \<times> 's provider_info \<times> 'w) option" where
  "provider_async_request R net now fresh req prov w =
     (case with_conn AGENT_CONN_POOL_SIZE net (hostname prov) (port_of prov) fresh
             (provider_exchange R net now (req_body req)) (prov_conns prov) w of
        None \<Rightarrow> None
      | Some (Inl e, p, w1) \<Rightarrow> Some (Inl e, prov\<lparr>prov_conns := p\<rparr>, w1)
      | Some (Inr (res, lat), p, w1) \<Rightarrow>
          Some (Inr res,
            prov\<lparr>prov_conns := p, latency := (case lat of None \<Rightarrow> latency prov | Some l \<Rightarrow> l)\<rparr>, w1))"

section \<open>Connecting\<close>

text \<open>Every connection to a listed provider works.\<close>

definition connects :: "('s, 'p, 'w) net \<Rightarrow> bool" where
  "connects net \<longleftrightarrow> (\<forall>addr port w. \<exists>s w1. quick_connect net addr port w = (Inr s, w1))"

lemma memory_net_connects: "connects (memory_net answer)"
  by (simp add: connects_def quick_connect_def memory_net_def and_then_def Let_def)

lemma connect_many_ok:
  assumes "connects net"
  shows "\<exists>cs w1. connect_many net addr port n w = (map Inr cs, w1) \<and> length cs = n"
proof (induction n arbitrary: w)
  case (Suc n)
  obtain s w1 where s: "quick_connect net addr port w = (Inr s, w1)"
    using assms unfolding connects_def by blast
  obtain cs w2 where "connect_many net addr port n w1 = (map Inr cs, w2)" "length cs = n"
    using Suc by blast
  then show ?case
    by (intro exI [of _ "\<lparr>conn = s\<rparr> # cs"] exI [of _ w2])
       (simp add: pooled_conn_new_def and_then_def s)
qed simp

lemma provider_info_connects:
  assumes "connects net" and "inj alloc"
  shows "\<exists>prov w1. provider_info_new net alloc addr port w = (Inr prov, w1) \<and> hostname prov = addr \<and>
    port_of prov = port \<and> connpool_latency prov = 1 \<and> pool_ok AGENT_CONN_POOL_SIZE (prov_conns prov) \<and>
    lent (prov_conns prov) = {} \<and> length (free_list (prov_conns prov)) = AGENT_CONN_POOL_SIZE"
proof -
  let ?n = "AGENT_CONN_POOL_SIZE"
  obtain cs w1 where cs: "connect_many net addr port ?n w = (map Inr cs, w1)" "length cs = ?n"
    using connect_many_ok [OF assms(1)] by blast
  have mk: "construction_of (alloc i) (map Inr cs ! i) = Inr (alloc i, cs ! i)" if "i < ?n" for i
    using that cs(2) by (simp add: construction_of_def)
  obtain p where p: "fill_full ?n (\<lambda>i. construction_of (alloc i) (map Inr cs ! i)) empty_pool = (Inr (), p)"
    "pool_rep ?n p (map (\<lambda>i. (alloc i, cs ! i, True)) [0..<?n])" "free_list p = map alloc [0..<?n]"
    using fill_full_rep [of ?n _ alloc "\<lambda>i. cs ! i", OF mk] assms(2) by (blast intro: inj_on_subset)
  have "lent p = {}" using lent_cases(1) [OF p(2)] by auto
  moreover have "pool_ok ?n p" using p(2) by (auto simp: pool_ok_def)
  ultimately show ?thesis using cs p(1,3) by (simp add: provider_info_new_def)
qed

section \<open>What a request comes to\<close>

lemma agent_pool_size_word: "AGENT_CONN_POOL_SIZE = unat (256 :: 64 word)"
  by (simp add: AGENT_CONN_POOL_SIZE_def)

text \<open>With a free connection: the exchange on it, and the pool as it was.\<close>

lemma provider_request_on_free:
  assumes "pool_ok AGENT_CONN_POOL_SIZE (prov_conns prov)" and "cells (buffer (prov_conns prov)) fresh = None"
    and "free_list (prov_conns prov) = a # rest" and "objects (prov_conns prov) a = Some \<lparr>conn = s\<rparr>"
  shows "\<exists>prov'. provider_async_request R net now fresh req prov w =
      Some (map_sum id fst (fst (provider_exchange R net now (req_body req) s w)), prov',
            snd (provider_exchange R net now (req_body req) s w)) \<and>
    pool_ok AGENT_CONN_POOL_SIZE (prov_conns prov') \<and> lent (prov_conns prov') = lent (prov_conns prov) \<and>
    free_list (prov_conns prov') = free_list (prov_conns prov) \<and>
    objects (prov_conns prov') = objects (prov_conns prov) \<and>
    hostname prov' = hostname prov \<and> connpool_latency prov' = connpool_latency prov"
proof -
  let ?x = "provider_exchange R net now (req_body req) s w"
  obtain p' where p': "with_conn AGENT_CONN_POOL_SIZE net (hostname prov) (port_of prov) fresh
      (provider_exchange R net now (req_body req)) (prov_conns prov) w = Some (fst ?x, p', snd ?x)"
    "pool_ok AGENT_CONN_POOL_SIZE p'" "lent p' = lent (prov_conns prov)"
    "free_list p' = free_list (prov_conns prov)" "objects p' = objects (prov_conns prov)"
    using with_conn_free [of 256 "prov_conns prov" fresh a rest "\<lparr>conn = s\<rparr>" net "hostname prov" "port_of prov"
        "provider_exchange R net now (req_body req)" w] assms
    unfolding agent_pool_size_word by auto
  show ?thesis
  proof (cases "fst ?x")
    case (Inl e)
    with p' show ?thesis by (simp add: provider_async_request_def)
  next
    case (Inr y)
    then show ?thesis using p' by (cases y) (simp add: provider_async_request_def)
  qed
qed

lemma exchange_bad_body:
  "http_payload_to_dubbo_parameters R body = Inl e \<Longrightarrow>
   provider_exchange R net now body s w = (Inr (resp_500, None), w)"
  by (simp add: provider_exchange_def)

lemma exchange_good_body:
  assumes "http_payload_to_dubbo_parameters R body = Inr args"
    and "net_write net s (bytes_of (wire_text R args)) w = (None, w1)"
    and "net_read_some net s buffer_size w1 = ((None, bs), w2)" and "c_string (filled_buffer bs) = Inr answer"
  shows "provider_exchange R net now body s w =
    (Inr ((new_response Ok_200 11)\<lparr>res_body := answer\<rparr>, Some (word_of_int (now w2 - now w1))), w2)"
  using assms by (simp add: provider_exchange_def read_answer_def Let_def)

text \<open>A provider with one free connection, for the witnesses.\<close>

definition sample_provider :: "nat provider_info" where
  "sample_provider =
     \<lparr>hostname = ''provider-small'', port_of = 30000, prov_conns = single_pool 5 \<lparr>conn = 0\<rparr>,
      latency = 50000, connpool_latency = 1\<rparr>"

lemma sample_provider_ready:
  "pool_ok AGENT_CONN_POOL_SIZE (prov_conns sample_provider)"
  "cells (buffer (prov_conns sample_provider)) 9 = None"
  "free_list (prov_conns sample_provider) = [5]" "objects (prov_conns sample_provider) 5 = Some \<lparr>conn = 0\<rparr>"
  by (simp_all add: sample_provider_def single_pool_ok AGENT_CONN_POOL_SIZE_def)

definition post_request :: "string \<Rightarrow> http_request" where
  "post_request body =
     \<lparr>req_method = Post, req_version = 11, req_connection = None, req_user_agent = None, req_host = None,
      req_body = body\<rparr>"

definition sample_request :: http_request where
  "sample_request = post_request ''interface=I&method=m&parameterTypesString=T&parameter=x''"

lemma sample_request_args:
  "http_payload_to_dubbo_parameters plain_rlib (req_body sample_request) = Inr [''I'', ''m'', ''T'', ''x'']"
  by (simp add: parsed_args [OF plain_rlib_laws] form_value_def form_pairs_def map_filter_simps
      cut_at_def sample_request_def post_request_def url_decode_types_def replace_all_absent)

definition one_socket :: memory where
  "one_socket = \<lparr>arrived = (\<lambda>_. []), sent = (\<lambda>_. []), sockets = 1\<rparr>"

section \<open>Properties\<close>

text \<open>
  A request whose body lacks an argument is answered with 500 ``server error'' without a byte sent or
  read, and the connection borrowed before the body was looked at is back in the pool.
\<close>

theorem bad_body_gives_500:
  assumes "rlib_laws R" and "form_value key (req_body req) = []"
    and "key \<in> {''interface'', ''method'', ''parameterTypesString'', ''parameter''}"
    and "pool_ok AGENT_CONN_POOL_SIZE (prov_conns prov)" and "cells (buffer (prov_conns prov)) fresh = None"
    and "free_list (prov_conns prov) = a # rest" and "objects (prov_conns prov) a = Some \<lparr>conn = s\<rparr>"
  shows "\<exists>prov'. provider_async_request R net now fresh req prov w = Some (Inr resp_500, prov', w) \<and>
    lent (prov_conns prov') = lent (prov_conns prov) \<and> res_status resp_500 = Internal_Server_Error_500"
proof -
  have "http_payload_to_dubbo_parameters R (req_body req) =
      Inl (Runtime_Error ''Required http argument not provided.'')"
    unfolding parsed_args [OF assms(1)] using assms(2,3) by (auto simp: url_decode_types_def)
  note bad = exchange_bad_body [OF this, of net now s w]
  have "res_status resp_500 = Internal_Server_Error_500" by (simp add: resp_500_def new_response_def)
  with bad provider_request_on_free [OF assms(4-7), of R net now req w] show ?thesis by auto
qed

theorem bad_body_gives_500_witness:
  "\<exists>prov'. provider_async_request plain_rlib (memory_net (\<lambda>_. [])) (\<lambda>_. 0) 9 (post_request ''interface=I'')
      sample_provider one_socket = Some (Inr resp_500, prov', one_socket) \<and> lent (prov_conns prov') = {}"
proof -
  have "form_value ''method'' (req_body (post_request ''interface=I'')) = []"
    by (simp add: form_value_def form_pairs_def map_filter_simps cut_at_def post_request_def)
  from bad_body_gives_500 [OF plain_rlib_laws this _ sample_provider_ready]
  show ?thesis by (fastforce simp: sample_provider_def)
qed

text \<open>
  A well-formed request is sent as its four arguments, one a line, and what the provider agent sends
  back in one piece of less than 2048 bytes with no zero byte is the body of a 200 response, as it is;
  the time it took is stored, and the connection is back in the pool.
\<close>

theorem good_body_gives_answer:
  assumes "http_payload_to_dubbo_parameters R (req_body req) = Inr args"
    and "pool_ok AGENT_CONN_POOL_SIZE (prov_conns prov)" and "cells (buffer (prov_conns prov)) fresh = None"
    and "free_list (prov_conns prov) = a # rest" and "objects (prov_conns prov) a = Some \<lparr>conn = s\<rparr>"
    and "net_write net s (bytes_of (wire_text R args)) w = (None, w1)"
    and "net_read_some net s buffer_size w1 = ((None, bytes_of answer), w2)"
    and "length answer < buffer_size" and "CHR 0x00 \<notin> set answer"
  shows "\<exists>prov'. provider_async_request R net now fresh req prov w =
      Some (Inr ((new_response Ok_200 11)\<lparr>res_body := answer\<rparr>), prov', w2) \<and>
    lent (prov_conns prov') = lent (prov_conns prov)"
  using exchange_good_body [OF assms(1,6,7) c_string_bytes_of [OF assms(9,8)], of now]
    provider_request_on_free [OF assms(2-5), of R net now req w] by auto

theorem good_body_gives_answer_witness:
  "\<exists>prov' w2. provider_async_request plain_rlib (memory_net (\<lambda>_. bytes_of ''42'')) (\<lambda>_. 0) 9
      sample_request sample_provider one_socket =
    Some (Inr ((new_response Ok_200 11)\<lparr>res_body := ''42''\<rparr>), prov', w2)"
proof -
  let ?net = "memory_net (\<lambda>_. bytes_of ''42'')"
  define w1 where "w1 = memory_write (\<lambda>_. bytes_of ''42'') 0
      (bytes_of (wire_text plain_rlib [''I'', ''m'', ''T'', ''x''])) one_socket"
  have sent: "net_write ?net 0 (bytes_of (wire_text plain_rlib [''I'', ''m'', ''T'', ''x''])) one_socket = (None, w1)"
    by (simp add: memory_net_def w1_def)
  have here: "arrived w1 0 = bytes_of ''42''" by (simp add: w1_def memory_write_def one_socket_def Let_def)
  have "net_read_some ?net 0 buffer_size w1 =
      ((None, bytes_of ''42''), w1\<lparr>arrived := (arrived w1)(0 := [])\<rparr>)"
    by (simp add: memory_net_def here buffer_size_def) (simp add: bytes_of_def)
  from good_body_gives_answer [OF sample_request_args sample_provider_ready sent this, of "\<lambda>_. 0"]
  show ?thesis by (auto simp: buffer_size_def)
qed

text \<open>
  C40: an answer of 2048 bytes with no zero among them fills the buffer to its end, and reading it as a C
  string runs past it: undefined behaviour, on the log line already.
\<close>

theorem long_answer_overruns_buffer:
  assumes "http_payload_to_dubbo_parameters R (req_body req) = Inr args"
    and "pool_ok AGENT_CONN_POOL_SIZE (prov_conns prov)" and "cells (buffer (prov_conns prov)) fresh = None"
    and "free_list (prov_conns prov) = a # rest" and "objects (prov_conns prov) a = Some \<lparr>conn = s\<rparr>"
    and "net_write net s (bytes_of (wire_text R args)) w = (None, w1)"
    and "net_read_some net s buffer_size w1 = ((ec, bs), w2)" and "length bs = buffer_size" and "0 \<notin> set bs"
  shows "\<exists>prov'. provider_async_request R net now fresh req prov w =
      Some (Inl (Undefined Unterminated_Buffer), prov', w2)"
proof -
  have "provider_exchange R net now (req_body req) s w = (Inl (Undefined Unterminated_Buffer), w2)"
    using assms(1,6,7) c_string_full [OF assms(8,9)]
    by (simp add: provider_exchange_def read_answer_def Let_def)
  then show ?thesis using provider_request_on_free [OF assms(2-5), of R net now req w] by auto
qed

definition full_block :: "byte list" where
  "full_block = replicate buffer_size 65"

lemma full_block: "length full_block = buffer_size" "0 \<notin> set full_block" "full_block \<noteq> []"
  by (simp_all add: full_block_def) (simp add: buffer_size_def)

theorem long_answer_overruns_buffer_witness:
  "\<exists>prov' w2. provider_async_request plain_rlib (memory_net (\<lambda>_. full_block)) (\<lambda>_. 0) 9 sample_request
      sample_provider one_socket = Some (Inl (Undefined Unterminated_Buffer), prov', w2)"
proof -
  let ?net = "memory_net (\<lambda>_. full_block)"
  define w1 where "w1 = memory_write (\<lambda>_. full_block) 0
      (bytes_of (wire_text plain_rlib [''I'', ''m'', ''T'', ''x''])) one_socket"
  have sent: "net_write ?net 0 (bytes_of (wire_text plain_rlib [''I'', ''m'', ''T'', ''x''])) one_socket = (None, w1)"
    by (simp add: memory_net_def w1_def)
  have "arrived w1 0 = full_block"
    by (simp add: w1_def memory_write_def one_socket_def Let_def)
  then have "net_read_some ?net 0 buffer_size w1 = ((None, full_block), w1\<lparr>arrived := (arrived w1)(0 := [])\<rparr>)"
    by (simp add: memory_net_def full_block)
  from long_answer_overruns_buffer [OF sample_request_args sample_provider_ready sent this full_block(1,2),
      of "\<lambda>_. 0"]
  show ?thesis by blast
qed

text \<open>What a stream promises of \<open>net_read_some\<close>: the next bytes, any number of those that are there.\<close>

definition some_laws :: "('s, 'p, 'w) net \<Rightarrow> ('s \<Rightarrow> 'w \<Rightarrow> byte list) \<Rightarrow> bool" where
  "some_laws net inbox \<longleftrightarrow>
     (\<forall>s n w bs w1. 0 < n \<longrightarrow> net_read_some net s n w = ((None, bs), w1) \<longrightarrow>
        bs \<noteq> [] \<and> length bs \<le> n \<and> inbox s w = bs @ inbox s w1)"

lemma some_next:
  assumes "some_laws net inbox" and "net_read_some net s buffer_size w = ((None, bs), w1)"
  shows "bs \<noteq> []" and "inbox s w = bs @ inbox s w1"
proof -
  have "0 < buffer_size" by (simp add: buffer_size_def)
  with assms show "bs \<noteq> []" and "inbox s w = bs @ inbox s w1" unfolding some_laws_def by blast+
qed

text \<open>A network in memory that delivers a byte at a time.\<close>

definition drip_net :: "(byte list \<Rightarrow> byte list) \<Rightarrow> (nat, unit, memory) net" where
  "drip_net answer = (memory_net answer)
     \<lparr>net_read_some := (\<lambda>s n w. if arrived w s = [] then ((Some eof_code, []), w)
         else ((None, take (min 1 n) (arrived w s)), w\<lparr>arrived := (arrived w)(s := drop (min 1 n) (arrived w s))\<rparr>))\<rparr>"

lemma drip_net_laws: "some_laws (drip_net answer) (\<lambda>s w. arrived w s)"
  by (auto simp: some_laws_def drip_net_def min_def split: if_splits)

lemma exchange_reads:
  assumes "http_payload_to_dubbo_parameters R body = Inr args"
    and "net_write net s (bytes_of (wire_text R args)) w = (None, w1)"
    and "net_read_some net s buffer_size w1 = ((None, bytes_of piece), w2)"
    and "length piece < buffer_size" and "CHR 0x00 \<notin> set piece"
  obtains lat where "provider_exchange R net now body s w =
    (Inr ((new_response Ok_200 11)\<lparr>res_body := piece\<rparr>, Some lat), w2)"
  using exchange_good_body [OF assms(1-3) c_string_bytes_of [OF assms(5,4)], of now] that by blast

text \<open>
  C35: an answer is taken with one read. When it comes in two pieces, the first request is answered with
  a 200 and the first piece, and the rest stays in the connection, which goes back to the front of the
  pool: the next request is answered, with a 200 as well, by bytes that begin with the rest of the other
  request's answer.
\<close>

theorem split_answer_reaches_next_request:
  assumes "some_laws net inbox" and "http_payload_to_dubbo_parameters R (req_body req) = Inr args"
    and "http_payload_to_dubbo_parameters R (req_body req') = Inr args'"
    and "pool_ok AGENT_CONN_POOL_SIZE (prov_conns prov)"
    and "free_list (prov_conns prov) = a # rest" and "objects (prov_conns prov) a = Some \<lparr>conn = s\<rparr>"
    and "allocates fresh"
    and "net_write net s (bytes_of (wire_text R args)) w = (None, w1)" and "inbox s w1 = bytes_of (p @ q)"
    and "net_read_some net s buffer_size w1 = ((None, bytes_of p), w2)" and "length p < buffer_size"
    and "net_write net s (bytes_of (wire_text R args')) w2 = (None, w3)"
    and "inbox s w3 = inbox s w2 @ bytes_of answer'"
    and "net_read_some net s buffer_size w3 = ((None, bytes_of x), w4)" and "length x < buffer_size"
    and "CHR 0x00 \<notin> set (p @ x)"
  shows "\<exists>prov1 prov2.
    provider_async_request R net now (fresh (prov_conns prov)) req prov w =
      Some (Inr ((new_response Ok_200 11)\<lparr>res_body := p\<rparr>), prov1, w2) \<and>
    provider_async_request R net now (fresh (prov_conns prov1)) req' prov1 w2 =
      Some (Inr ((new_response Ok_200 11)\<lparr>res_body := x\<rparr>), prov2, w4) \<and>
    x \<noteq> [] \<and> bytes_of x = take (length x) (bytes_of (q @ answer'))"
proof -
  have zero: "CHR 0x00 \<notin> set p" "CHR 0x00 \<notin> set x" using assms(16) by auto
  obtain lat where e1: "provider_exchange R net now (req_body req) s w =
      (Inr ((new_response Ok_200 11)\<lparr>res_body := p\<rparr>, Some lat), w2)"
    using exchange_reads [OF assms(2,8,10,11) zero(1)] .
  obtain lat' where e2: "provider_exchange R net now (req_body req') s w2 =
      (Inr ((new_response Ok_200 11)\<lparr>res_body := x\<rparr>, Some lat'), w4)"
    using exchange_reads [OF assms(3,12,14,15) zero(2)] .
  have "cells (buffer (prov_conns prov)) (fresh (prov_conns prov)) = None" 
    using assms(4,7) by (simp add: allocates_def same_pool_size)
  from provider_request_on_free [OF assms(4) this assms(5,6), of R net now req w] e1
  obtain prov1 where p1: "provider_async_request R net now (fresh (prov_conns prov)) req prov w =
      Some (Inr ((new_response Ok_200 11)\<lparr>res_body := p\<rparr>), prov1, w2)"
    "pool_ok AGENT_CONN_POOL_SIZE (prov_conns prov1)" "free_list (prov_conns prov1) = a # rest"
    "objects (prov_conns prov1) a = Some \<lparr>conn = s\<rparr>"
    using assms(5,6) by auto
  have "cells (buffer (prov_conns prov1)) (fresh (prov_conns prov1)) = None" 
    using p1(2) assms(7) by (simp add: allocates_def same_pool_size)
  from provider_request_on_free [OF p1(2) this p1(3,4), of R net now req' w2] e2
  obtain prov2 where p2: "provider_async_request R net now (fresh (prov_conns prov1)) req' prov1 w2 =
      Some (Inr ((new_response Ok_200 11)\<lparr>res_body := x\<rparr>), prov2, w4)"
    by auto
  have "inbox s w1 = bytes_of p @ inbox s w2" by (rule some_next(2) [OF assms(1,10)])
  then have "inbox s w2 = bytes_of q" using assms(9) by (simp add: bytes_of_def)
  moreover have "bytes_of x \<noteq> []" "inbox s w3 = bytes_of x @ inbox s w4"
    using some_next [OF assms(1,14)] by blast+
  ultimately have "bytes_of (q @ answer') = bytes_of x @ inbox s w4" "x \<noteq> []"
    using assms(13) by (auto simp: bytes_of_def)
  then show ?thesis using p1(1) p2 by fastforce
qed

theorem split_answer_reaches_next_request_witness:
  "\<exists>prov1 prov2 w2 w4.
    provider_async_request plain_rlib (drip_net (\<lambda>_. bytes_of ''42'')) (\<lambda>_. 0)
      (above_all (prov_conns sample_provider)) sample_request sample_provider one_socket =
        Some (Inr ((new_response Ok_200 11)\<lparr>res_body := ''4''\<rparr>), prov1, w2) \<and>
    provider_async_request plain_rlib (drip_net (\<lambda>_. bytes_of ''42'')) (\<lambda>_. 0)
      (above_all (prov_conns prov1)) sample_request prov1 w2 =
        Some (Inr ((new_response Ok_200 11)\<lparr>res_body := ''2''\<rparr>), prov2, w4)"
proof -
  let ?net = "drip_net (\<lambda>_. bytes_of ''42'')" and ?line = "bytes_of (wire_text plain_rlib [''I'', ''m'', ''T'', ''x''])"
  define w1 where "w1 = memory_write (\<lambda>_. bytes_of ''42'') 0 ?line one_socket"
  define w2 where "w2 = w1\<lparr>arrived := (arrived w1)(0 := bytes_of ''2'')\<rparr>"
  define w3 where "w3 = memory_write (\<lambda>_. bytes_of ''42'') 0 ?line w2"
  define w4 where "w4 = w3\<lparr>arrived := (arrived w3)(0 := bytes_of ''42'')\<rparr>"
  have b: "bytes_of ''42'' = bytes_of ''4'' @ bytes_of ''2''" "length (bytes_of ''4'') = 1" "length (bytes_of ''2'') = 1"
    by (simp_all add: bytes_of_def)
  have here: "arrived w1 0 = bytes_of ''4'' @ bytes_of ''2''" "arrived w2 0 = bytes_of ''2''"
    "arrived w3 0 = bytes_of ''2'' @ bytes_of ''42''"
    by (simp_all add: w1_def w2_def w3_def memory_write_def one_socket_def Let_def b(1))
  have sent: "net_write ?net 0 ?line one_socket = (None, w1)" "net_write ?net 0 ?line w2 = (None, w3)"
    by (simp_all add: drip_net_def memory_net_def w1_def w3_def)
  have r1: "net_read_some ?net 0 buffer_size w1 = ((None, bytes_of ''4''), w2)"
    by (simp add: drip_net_def here b(2,3) buffer_size_def w2_def) (simp add: bytes_of_def)
  have r2: "net_read_some ?net 0 buffer_size w3 = ((None, bytes_of ''2''), w4)"
    by (simp add: drip_net_def here b(2,3) buffer_size_def w4_def) (simp add: bytes_of_def)
  have i1: "arrived w1 0 = bytes_of (''4'' @ ''2'')" using here(1) by (simp add: bytes_of_def)
  have i2: "arrived w3 0 = arrived w2 0 @ bytes_of ''42''" using here by simp
  have small: "length ''4'' < buffer_size" "length ''2'' < buffer_size" "CHR 0x00 \<notin> set (''4'' @ ''2'')"
    by (simp_all add: buffer_size_def)
  from split_answer_reaches_next_request [OF drip_net_laws sample_request_args sample_request_args sample_provider_ready(1,3,4)
      above_all_allocates sent(1) i1 r1 small(1) sent(2) i2 r2 small(2,3), of "\<lambda>_. 0"]
  show ?thesis by blast
qed

end
