(* ===== verification/Etcd_Service.thy ===== *)
theory Etcd_Service
  imports Rlib
begin

text \<open>
  \<open>etcd_service\<close> of src/etcd_service.hpp and src/etcd_service.cc: one key of etcd holds a list of
  addresses, joined by bars; a provider appends itself with a read and a write, the consumer reads the
  list. The etcd client is a third-party library and enters as a record of its two calls;
  \<open>etcd_laws\<close> states what a connected client promises about the key-value store behind it.
\<close>

section \<open>The client library\<close>

record etcd_response =
  is_ok :: bool
  error_message :: string
  response_value :: string
  prev_value :: string

record 'w etcd_client =
  cli_get :: "string \<Rightarrow> 'w \<Rightarrow> etcd_response \<times> 'w"
  cli_set :: "string \<Rightarrow> string \<Rightarrow> 'w \<Rightarrow> etcd_response \<times> 'w"

section \<open>The operations\<close>

text \<open>The constructor: the address the client connects to.\<close>

definition etcd_url :: "string \<Rightarrow> string" where
  "etcd_url etcd_addr_and_port = ''http://'' @ etcd_addr_and_port"

definition sync_get :: "rlib \<Rightarrow> 'w etcd_client \<Rightarrow> string \<Rightarrow> 'w \<Rightarrow> string result \<times> 'w" where
  "sync_get R cli key w =
     (let (resp, w1) = cli_get cli key w
      in (if \<not> is_ok resp then
            (if error_message resp = ''Key not found'' then Inr []
             else Inl (Runtime_Error (rl_format R ''etcd_cli sync_get failed. {}'' [error_message resp])))
          else Inr (response_value resp), w1))"

definition sync_set :: "rlib \<Rightarrow> 'w etcd_client \<Rightarrow> string \<Rightarrow> string \<Rightarrow> 'w \<Rightarrow> string result \<times> 'w" where
  "sync_set R cli key val w =
     (let (resp, w1) = cli_set cli key val w
      in (if \<not> is_ok resp
          then Inl (Runtime_Error (rl_format R ''etcd_cli sync_set failed. {}'' [error_message resp]))
          else Inr (prev_value resp), w1))"

text \<open>The new value of the key, made of the old one.\<close>

definition appended :: "string \<Rightarrow> string \<Rightarrow> string" where
  "appended origin_val val = (if origin_val \<noteq> [] then origin_val @ ''|'' else origin_val) @ val"

definition etcd_append :: "rlib \<Rightarrow> 'w etcd_client \<Rightarrow> string \<Rightarrow> string \<Rightarrow> 'w \<Rightarrow> unit result \<times> 'w" where
  "etcd_append R cli key val w =
     (case sync_get R cli key w of
        (Inl e, w1) \<Rightarrow> (Inl e, w1)
      | (Inr origin_val, w1) \<Rightarrow>
          (case sync_set R cli key (appended origin_val val) w1 of
             (Inl e, w2) \<Rightarrow> (Inl e, w2)
           | (Inr _, w2) \<Rightarrow> (Inr (), w2)))"

definition get_list :: "rlib \<Rightarrow> 'w etcd_client \<Rightarrow> string \<Rightarrow> 'w \<Rightarrow> string list result \<times> 'w" where
  "get_list R cli key w =
     (case sync_get R cli key w of
        (Inl e, w1) \<Rightarrow> (Inl e, w1)
      | (Inr s, w1) \<Rightarrow> (Inr (rl_split R (CHR ''|'') s), w1))"

text \<open>Several providers register, one after the other.\<close>

fun append_all :: "rlib \<Rightarrow> 'w etcd_client \<Rightarrow> string \<Rightarrow> string list \<Rightarrow> 'w \<Rightarrow> unit result \<times> 'w" where
  "append_all R cli key [] w = (Inr (), w)"
| "append_all R cli key (v # vs) w =
     (case etcd_append R cli key v w of
        (Inl e, w1) \<Rightarrow> (Inl e, w1)
      | (Inr _, w1) \<Rightarrow> append_all R cli key vs w1)"

section \<open>The store behind the client\<close>

text \<open>
  \<open>stored w k\<close> is the value of key \<open>k\<close>, if it has one. A get reports it, or ``Key not found''; a set
  changes it; neither touches another key.
\<close>

definition etcd_laws :: "'w etcd_client \<Rightarrow> ('w \<Rightarrow> string \<Rightarrow> string option) \<Rightarrow> bool" where
  "etcd_laws cli stored \<longleftrightarrow>
     (\<forall>k w. stored (snd (cli_get cli k w)) = stored w \<and>
        (case stored w k of
           None \<Rightarrow> \<not> is_ok (fst (cli_get cli k w)) \<and> error_message (fst (cli_get cli k w)) = ''Key not found''
         | Some v \<Rightarrow> is_ok (fst (cli_get cli k w)) \<and> response_value (fst (cli_get cli k w)) = v)) \<and>
     (\<forall>k v w. stored (snd (cli_set cli k v w)) = (stored w)(k \<mapsto> v) \<and> is_ok (fst (cli_set cli k v w)))"

definition map_etcd :: "(string \<Rightarrow> string option) etcd_client" where
  "map_etcd =
     \<lparr>cli_get = (\<lambda>k m. (case m k of
          None \<Rightarrow> \<lparr>is_ok = False, error_message = ''Key not found'', response_value = [], prev_value = []\<rparr>
        | Some v \<Rightarrow> \<lparr>is_ok = True, error_message = [], response_value = v, prev_value = []\<rparr>, m)),
      cli_set = (\<lambda>k v m.
        (\<lparr>is_ok = True, error_message = [], response_value = v,
          prev_value = (case m k of None \<Rightarrow> [] | Some u \<Rightarrow> u)\<rparr>, m(k \<mapsto> v)))\<rparr>"

lemma map_etcd_laws: "etcd_laws map_etcd (\<lambda>m. m)"
  by (auto simp: etcd_laws_def map_etcd_def split: option.splits)

definition value_or_empty :: "string option \<Rightarrow> string" where
  "value_or_empty v = (case v of None \<Rightarrow> [] | Some s \<Rightarrow> s)"

lemma sync_get_stored:
  assumes "etcd_laws cli stored"
  shows "\<exists>w1. sync_get R cli k w = (Inr (value_or_empty (stored w k)), w1) \<and> stored w1 = stored w"
proof -
  have "stored (snd (cli_get cli k w)) = stored w"
    "case stored w k of
       None \<Rightarrow> \<not> is_ok (fst (cli_get cli k w)) \<and> error_message (fst (cli_get cli k w)) = ''Key not found''
     | Some v \<Rightarrow> is_ok (fst (cli_get cli k w)) \<and> response_value (fst (cli_get cli k w)) = v"
    using assms unfolding etcd_laws_def by blast+
  then show ?thesis
    by (auto simp: sync_get_def value_or_empty_def split: prod.splits option.splits)
qed

lemma sync_set_stored:
  assumes "etcd_laws cli stored"
  shows "\<exists>w1 u. sync_set R cli k v w = (Inr u, w1) \<and> stored w1 = (stored w)(k \<mapsto> v)"
proof -
  have "stored (snd (cli_set cli k v w)) = (stored w)(k \<mapsto> v)" "is_ok (fst (cli_set cli k v w))"
    using assms unfolding etcd_laws_def by blast+
  then show ?thesis by (auto simp: sync_set_def split: prod.splits)
qed

lemma etcd_append_stored:
  assumes "etcd_laws cli stored"
  shows "\<exists>w1. etcd_append R cli k v w = (Inr (), w1) \<and>
    stored w1 = (stored w)(k \<mapsto> appended (value_or_empty (stored w k)) v)"
proof -
  obtain w1 where g: "sync_get R cli k w = (Inr (value_or_empty (stored w k)), w1)" "stored w1 = stored w"
    using sync_get_stored [OF assms] by blast
  let ?new = "appended (value_or_empty (stored w k)) v"
  obtain w2 u where s: "sync_set R cli k ?new w1 = (Inr u, w2)" "stored w2 = (stored w1)(k \<mapsto> ?new)"
    using sync_set_stored [OF assms] by blast
  with g show ?thesis by (simp add: etcd_append_def)
qed

lemma get_list_stored:
  assumes "etcd_laws cli stored" and "rlib_laws R"
  shows "\<exists>w1. get_list R cli k w = (Inr (split_on (CHR ''|'') (value_or_empty (stored w k))), w1) \<and>
    stored w1 = stored w"
  using sync_get_stored [OF assms(1), of R k w] by (auto simp: get_list_def rl_split [OF assms(2)])

lemma appended_intercalate:
  "[] \<notin> set vs \<Longrightarrow> v \<noteq> [] \<Longrightarrow> appended (intercalate ''|'' vs) v = intercalate ''|'' (vs @ [v])"
  by (cases "vs = []") (simp_all add: appended_def intercalate_eq_Nil intercalate_append)

lemma append_all_stored:
  assumes "etcd_laws cli stored" and "[] \<notin> set (us @ vs)"
    and "value_or_empty (stored w k) = intercalate ''|'' us"
  shows "\<exists>w1. append_all R cli k vs w = (Inr (), w1) \<and>
    value_or_empty (stored w1 k) = intercalate ''|'' (us @ vs) \<and>
    (\<forall>j. j \<noteq> k \<longrightarrow> stored w1 j = stored w j)"
  using assms(2,3)
proof (induction vs arbitrary: us w)
  case (Cons v vs)
  obtain w1 where w1: "etcd_append R cli k v w = (Inr (), w1)"
    "stored w1 = (stored w)(k \<mapsto> appended (value_or_empty (stored w k)) v)"
    using etcd_append_stored [OF assms(1)] by blast
  have "value_or_empty (stored w1 k) = intercalate ''|'' (us @ [v])"
    using w1(2) Cons.prems appended_intercalate [of us v] by (auto simp: value_or_empty_def)
  from Cons.IH [OF _ this] Cons.prems(1) obtain w2 where "append_all R cli k vs w1 = (Inr (), w2)"
    "value_or_empty (stored w2 k) = intercalate ''|'' (us @ v # vs)"
    "\<forall>j. j \<noteq> k \<longrightarrow> stored w2 j = stored w1 j" by auto
  with w1 show ?case by auto
qed auto

section \<open>Two providers at once\<close>

text \<open>
  \<open>append\<close> is a get and a set with nothing to keep another provider out in between. Each provider is
  at its get, at its set with the value it read, or done; a schedule names who moves next.
\<close>

datatype append_pc = At_Get | At_Set string | Registered | Append_Failed error

definition append_move :: "rlib \<Rightarrow> 'w etcd_client \<Rightarrow> string \<Rightarrow> string \<Rightarrow> append_pc \<Rightarrow> 'w \<Rightarrow> append_pc \<times> 'w" where
  "append_move R cli key val pc w =
     (case pc of
        At_Get \<Rightarrow>
          (case sync_get R cli key w of
             (Inl e, w1) \<Rightarrow> (Append_Failed e, w1)
           | (Inr origin_val, w1) \<Rightarrow> (At_Set origin_val, w1))
      | At_Set origin_val \<Rightarrow>
          (case sync_set R cli key (appended origin_val val) w of
             (Inl e, w1) \<Rightarrow> (Append_Failed e, w1)
           | (Inr _, w1) \<Rightarrow> (Registered, w1))
      | _ \<Rightarrow> (pc, w))"

fun append_schedule ::
  "rlib \<Rightarrow> 'w etcd_client \<Rightarrow> string \<Rightarrow> (nat \<Rightarrow> string) \<Rightarrow> nat list \<Rightarrow> (nat \<Rightarrow> append_pc) \<Rightarrow> 'w \<Rightarrow>
   (nat \<Rightarrow> append_pc) \<times> 'w" where
  "append_schedule R cli key vals [] pcs w = (pcs, w)"
| "append_schedule R cli key vals (i # is) pcs w =
     (let (pc, w1) = append_move R cli key (vals i) (pcs i) w
      in append_schedule R cli key vals is (pcs(i := pc)) w1)"

text \<open>Run alone, the two moves of a provider are \<open>append\<close>.\<close>

lemma append_moves_alone:
  "etcd_append R cli key val w =
     (case append_move R cli key val At_Get w of
        (Append_Failed e, w1) \<Rightarrow> (Inl e, w1)
      | (pc, w1) \<Rightarrow>
          (case append_move R cli key val pc w1 of
             (Append_Failed e, w2) \<Rightarrow> (Inl e, w2)
           | (_, w2) \<Rightarrow> (Inr (), w2)))"
  by (auto simp: etcd_append_def append_move_def split: prod.splits sum.splits)

section \<open>Properties\<close>

text \<open>
  Providers that register one after the other under a key that has no value yet are listed, in the
  order they registered, each exactly as it registered, and no other key is touched. (An address is
  nonempty and holds no bar.)
\<close>

theorem registrations_are_listed:
  assumes "etcd_laws cli stored" and "rlib_laws R" and "stored w key = None"
    and "vs \<noteq> []" and "[] \<notin> set vs" and "\<forall>v \<in> set vs. CHR ''|'' \<notin> set v"
  shows "\<exists>w1 w2. append_all R cli key vs w = (Inr (), w1) \<and> get_list R cli key w1 = (Inr vs, w2) \<and>
    (\<forall>k. k \<noteq> key \<longrightarrow> stored w2 k = stored w k)"
proof -
  have "value_or_empty (stored w key) = intercalate ''|'' []" by (simp add: assms(3) value_or_empty_def)
  from append_all_stored [OF assms(1) _ this, of vs R] assms(5)
  obtain w1 where w1: "append_all R cli key vs w = (Inr (), w1)"
    "value_or_empty (stored w1 key) = intercalate ''|'' vs" "\<forall>k. k \<noteq> key \<longrightarrow> stored w1 k = stored w k"
    by auto
  obtain w2 where w2: "get_list R cli key w1 =
      (Inr (split_on (CHR ''|'') (value_or_empty (stored w1 key))), w2)" "stored w2 = stored w1"
    using get_list_stored [OF assms(1,2)] by blast
  have "split_on (CHR ''|'') (intercalate ''|'' vs) = vs"
    using assms(4,6) by (intro split_on_intercalate) auto
  with w1 w2 show ?thesis by (metis (no_types))
qed

theorem registrations_are_listed_witness:
  "\<exists>w1 w2. append_all plain_rlib map_etcd ''server'' [''provider-small:30000'', ''provider-large:30001'']
       (\<lambda>_. None) = (Inr (), w1) \<and>
     get_list plain_rlib map_etcd ''server'' w1 = (Inr [''provider-small:30000'', ''provider-large:30001''], w2)"
  using registrations_are_listed [OF map_etcd_laws plain_rlib_laws, of "\<lambda>_. None" "''server''"
      "[''provider-small:30000'', ''provider-large:30001'']"] by auto

text \<open>
  C37: two providers that register at the same time can lose one of the registrations: when both read the
  key before either writes it, both calls return normally and the list holds only the second one.
\<close>

theorem concurrent_append_loses_registration:
  assumes "etcd_laws cli stored" and "rlib_laws R" and "stored w key = None"
    and "u \<noteq> []" and "v \<noteq> []" and "CHR ''|'' \<notin> set u" and "CHR ''|'' \<notin> set v"
  shows "\<exists>pcs w1 w2. append_schedule R cli key (\<lambda>i. if i = 0 then u else v) [0, 1, 0, 1] (\<lambda>_. At_Get) w
      = (pcs, w1) \<and> pcs 0 = Registered \<and> pcs 1 = Registered \<and> get_list R cli key w1 = (Inr [v], w2)"
proof -
  have e: "value_or_empty (stored w key) = []" by (simp add: assms(3) value_or_empty_def)
  obtain a where a: "sync_get R cli key w = (Inr [], a)" "stored a = stored w"
    using sync_get_stored [OF assms(1), of R key w] e by auto
  obtain b where b: "sync_get R cli key a = (Inr [], b)" "stored b = stored w"
    using sync_get_stored [OF assms(1), of R key a] a(2) e by auto
  obtain c x where c: "sync_set R cli key u b = (Inr x, c)"
    using sync_set_stored [OF assms(1)] by blast
  obtain d y where d: "sync_set R cli key v c = (Inr y, d)" "stored d = (stored c)(key \<mapsto> v)"
    using sync_set_stored [OF assms(1)] by blast
  obtain f where f: "get_list R cli key d = (Inr (split_on (CHR ''|'') v), f)"
    using get_list_stored [OF assms(1,2), of key d] d(2) by (auto simp: value_or_empty_def)
  show ?thesis
    using a(1) b(1) c d(1) f split_on_no_divider [OF assms(7)]
    by (simp add: append_move_def appended_def del: One_nat_def)
qed

theorem concurrent_append_loses_registration_witness:
  "\<exists>pcs w1 w2. append_schedule plain_rlib map_etcd ''server'' (\<lambda>i. if i = 0 then ''a:1'' else ''b:2'')
       [0, 1, 0, 1] (\<lambda>_. At_Get) (\<lambda>_. None) = (pcs, w1) \<and> pcs 0 = Registered \<and> pcs 1 = Registered \<and>
     get_list plain_rlib map_etcd ''server'' w1 = (Inr [''b:2''], w2)"
  using concurrent_append_loses_registration [OF map_etcd_laws plain_rlib_laws, of "\<lambda>_. None" "''server''"
      "''a:1''" "''b:2''"] by (auto simp del: One_nat_def)

end
