(* ===== verification/Provider_Selector.thy ===== *)
theory Provider_Selector
  imports Provider_Info Etcd_Service "HOL-Library.Multiset"
begin

text \<open>
  \<open>provider_selector\<close> of src/provider_selector.hpp: the constructor, which reads the list of providers
  from etcd, connects to each and builds the queue of the weighted round robin, and \<open>query_once\<close>, which
  picks the provider of the next request. The queue holds the providers by their number; \<open>curr\<close> is the
  static iterator as a position in it (the length of the queue is \<open>end()\<close>). With the macro
  \<open>PROVIDER_SELECTOR_NO_USE_ETCD\<close> the class is the one of \<open>fake_selector\<close>.
\<close>

section \<open>The classes of providers\<close>

text \<open>The three host names the queue knows, as an enumeration ordered by size, and how often each is queued.\<close>

datatype provider_class = Small | Medium | Large

fun rank :: "provider_class \<Rightarrow> nat" where
  "rank Small = 0" | "rank Medium = 1" | "rank Large = 2"

instantiation provider_class :: linorder
begin

definition less_eq_provider_class :: "provider_class \<Rightarrow> provider_class \<Rightarrow> bool" where
  "a \<le> b \<longleftrightarrow> rank a \<le> rank b"

definition less_provider_class :: "provider_class \<Rightarrow> provider_class \<Rightarrow> bool" where
  "a < b \<longleftrightarrow> rank a < rank b"

instance
proof
  fix a b c :: provider_class
  have inj: "rank a = rank b \<Longrightarrow> a = b" by (cases a; cases b) simp_all
  show "a < b \<longleftrightarrow> a \<le> b \<and> \<not> b \<le> a"
    unfolding less_eq_provider_class_def less_provider_class_def by linarith
  show "a \<le> a" "a \<le> b \<or> b \<le> a"
    unfolding less_eq_provider_class_def by linarith+
  show "a \<le> b \<Longrightarrow> b \<le> c \<Longrightarrow> a \<le> c" by (simp add: less_eq_provider_class_def)
  show "a \<le> b \<Longrightarrow> b \<le> a \<Longrightarrow> a = b" by (intro inj) (simp add: less_eq_provider_class_def)
qed

end

definition class_of_host :: "string \<Rightarrow> provider_class option" where
  "class_of_host host =
     (if host = ''provider-small'' then Some Small else if host = ''provider-medium'' then Some Medium
      else if host = ''provider-large'' then Some Large else None)"

fun robin_weight :: "provider_class \<Rightarrow> nat" where
  "robin_weight Small = 1" | "robin_weight Medium = 2" | "robin_weight Large = 3"

lemma robin_weight_mono: "a < b \<Longrightarrow> robin_weight a < robin_weight b"
  by (cases a; cases b) (simp_all add: less_provider_class_def)

section \<open>State and constructor\<close>

record 's provider_selector =
  providers :: "'s provider_info list"
  robin_queue :: "nat list"
  curr :: nat

text \<open>The first loop of the constructor; \<open>acc\<close> are the providers made so far.\<close>

fun load_providers ::
  "rlib \<Rightarrow> ('s, 'p, 'w) net \<Rightarrow> (nat \<Rightarrow> nat \<Rightarrow> addr) \<Rightarrow> string list \<Rightarrow> 's provider_info list \<Rightarrow>
   ('s provider_info list, 'w) step" where
  "load_providers R net alloc [] acc w = (Inr acc, w)"
| "load_providers R net alloc (addr # rest) acc w =
     (if addr = [] then load_providers R net alloc rest acc w
      else let addr_and_port = rl_split R (CHR '':'') addr
           in if length addr_and_port \<noteq> 2
              then (Inl (Runtime_Error (rl_format R ''Bad server_addr from etcd: `{}`.'' [addr])), w)
              else case rl_as_u16 R (addr_and_port ! 1) of
                  Inl e \<Rightarrow> (Inl e, w)
                | Inr port \<Rightarrow>
                    (case provider_info_new net (alloc (length acc)) (addr_and_port ! 0) port w of
                       (Inl e, w1) \<Rightarrow> (Inl e, w1)
                     | (Inr prov, w1) \<Rightarrow>
                         load_providers R net alloc rest (map provider_info_move acc @ [prov]) w1))"

text \<open>The second loop; \<open>i\<close> is the number of the next provider.\<close>

fun build_queue :: "nat \<Rightarrow> string list \<Rightarrow> nat list \<Rightarrow> nat list result" where
  "build_queue i [] queue = Inr queue"
| "build_queue i (host # hosts) queue =
     (case class_of_host host of
        None \<Rightarrow> Inl (Runtime_Error ''naive robin found unknown provider.'')
      | Some k \<Rightarrow> build_queue (Suc i) hosts (queue @ replicate (robin_weight k) i))"

definition provider_selector_new ::
  "rlib \<Rightarrow> 'w etcd_client \<Rightarrow> ('s, 'p, 'w) net \<Rightarrow> (nat \<Rightarrow> nat \<Rightarrow> addr) \<Rightarrow> ('s provider_selector, 'w) step" where
  "provider_selector_new R cli net alloc =
     and_then (get_list R cli ''server'') (\<lambda>addr_list.
     and_then (load_providers R net alloc addr_list []) (\<lambda>ps.
     if ps = [] then throw (Runtime_Error ''No provider available. Unable to provide service...'')
     else and_then (lift_result (build_queue 0 (map hostname ps) [])) (\<lambda>queue.
     return \<lparr>providers = ps, robin_queue = queue, curr = 0\<rparr>)))"

section \<open>The pick\<close>

text \<open>
  The loop as it is: it counts up to the length of the queue, but every turn looks at the same \<open>curr\<close>,
  which only moves from \<open>end()\<close> to the front. \<open>n\<close> is the number of turns left, \<open>seen\<close> the last latency
  read. A position or a number outside its list is undefined behaviour.
\<close>

fun query_loop ::
  "nat \<Rightarrow> 32 word \<Rightarrow> 's provider_selector \<Rightarrow> nat option result \<times> 's provider_selector" where
  "query_loop 0 seen sel =
     (if curr sel < length (robin_queue sel) \<and> robin_queue sel ! curr sel < length (providers sel) then
        (let i = robin_queue sel ! curr sel;
             slower = (if 51427 < seen then seen - 51427 else 1)
         in (Inr None, sel\<lparr>providers := (providers sel)[i := (providers sel ! i)\<lparr>connpool_latency := slower\<rparr>],
                           curr := curr sel + 1\<rparr>))
      else (Inl (Undefined Out_Of_Range), sel))"
| "query_loop (Suc n) seen sel =
     (let sel = (if curr sel = length (robin_queue sel) then sel\<lparr>curr := 0\<rparr> else sel)
      in if curr sel < length (robin_queue sel) \<and> robin_queue sel ! curr sel < length (providers sel) then
           (let i = robin_queue sel ! curr sel;
                curr_pool_latency = connpool_latency (providers sel ! i)
            in if curr_pool_latency < 10000 then (Inr (Some i), sel\<lparr>curr := curr sel + 1\<rparr>)
               else query_loop n curr_pool_latency sel)
         else (Inl (Undefined Out_Of_Range), sel))"

definition query_once :: "'s provider_selector \<Rightarrow> nat option result \<times> 's provider_selector" where
  "query_once sel = query_loop (length (robin_queue sel)) 1 sel"

text \<open>The picks of \<open>n\<close> requests in a row.\<close>

fun query_many :: "nat \<Rightarrow> 's provider_selector \<Rightarrow> nat option result list \<times> 's provider_selector" where
  "query_many 0 sel = ([], sel)"
| "query_many (Suc n) sel =
     (let (r, sel1) = query_once sel; (rs, sel2) = query_many n sel1 in (r # rs, sel2))"

text \<open>The class built without etcd: one provider, from two macros, picked every time.\<close>

definition fake_selector ::
  "('s, 'p, 'w) net \<Rightarrow> (nat \<Rightarrow> addr) \<Rightarrow> string \<Rightarrow> 16 word \<Rightarrow> ('s provider_info list, 'w) step" where
  "fake_selector net alloc debug_addr debug_port =
     and_then (provider_info_new net alloc debug_addr debug_port) (\<lambda>p. return [p])"

definition fake_query_once :: "'s provider_info list \<Rightarrow> nat result" where
  "fake_query_once ps = (if ps = [] then Inl (Undefined Out_Of_Range) else Inr 0)"

section \<open>The queue\<close>

fun queue_of :: "nat \<Rightarrow> nat list \<Rightarrow> nat list" where
  "queue_of i [] = []"
| "queue_of i (n # ns) = replicate n i @ queue_of (Suc i) ns"

lemma build_queue_known:
  assumes "\<forall>h \<in> set hosts. class_of_host h = Some (cls h)"
  shows "build_queue i hosts queue = Inr (queue @ queue_of i (map (robin_weight \<circ> cls) hosts))"
  using assms by (induction hosts arbitrary: i queue) simp_all

lemma build_queue_unknown:
  "\<exists>h \<in> set hosts. class_of_host h = None \<Longrightarrow>
   build_queue i hosts queue = Inl (Runtime_Error ''naive robin found unknown provider.'')"
  by (induction hosts arbitrary: i queue) (auto split: option.splits)

lemma queue_of_members: "x \<in> set (queue_of i ns) \<Longrightarrow> i \<le> x \<and> x < i + length ns"
  by (induction ns arbitrary: i) (fastforce split: if_splits)+

lemma count_queue_of: "j < length ns \<Longrightarrow> count (mset (queue_of i ns)) (i + j) = ns ! j"
proof (induction ns arbitrary: i j)
  case (Cons n ns)
  show ?case
  proof (cases j)
    case 0
    have "i \<notin> set (queue_of (Suc i) ns)" using queue_of_members [of i "Suc i" ns] by auto
    then have "count (mset (queue_of (Suc i) ns)) i = 0" by (simp add: count_eq_zero_iff)
    then show ?thesis using 0 by simp
  next
    case (Suc j')
    then show ?thesis using Cons.IH [of j' "Suc i"] Cons.prems by simp
  qed
qed simp

lemma robin_weight_pos [simp]: "0 < robin_weight k"
  by (cases k) simp_all

section \<open>Picking\<close>

text \<open>
  What the constructor establishes and every pick keeps: the queue is not empty, it names providers
  there are, the position is in it or at its end, and no provider's pool latency is high. The last holds
  because nothing in the program sets that latency after the constructor.
\<close>

definition selector_ok :: "'s provider_selector \<Rightarrow> bool" where
  "selector_ok sel \<longleftrightarrow>
     robin_queue sel \<noteq> [] \<and> (\<forall>i \<in> set (robin_queue sel). i < length (providers sel)) \<and>
     curr sel \<le> length (robin_queue sel) \<and>
     (\<forall>p \<in> set (providers sel). connpool_latency p < 10000)"

lemma query_once_picks:
  assumes "selector_ok sel"
  shows "query_once sel =
    (Inr (Some (robin_queue sel ! (curr sel mod length (robin_queue sel)))),
     sel\<lparr>curr := curr sel mod length (robin_queue sel) + 1\<rparr>)"
proof -
  let ?q = "robin_queue sel"
  obtain n where n: "length ?q = Suc n" using assms by (cases ?q) (auto simp: selector_ok_def)
  have pos: "curr sel mod length ?q < length ?q" using n by simp
  then have "?q ! (curr sel mod length ?q) < length (providers sel)"
    using assms by (simp add: selector_ok_def)
  moreover from this have "connpool_latency (providers sel ! (?q ! (curr sel mod length ?q))) < 10000"
    using assms by (simp add: selector_ok_def)
  moreover have "(if curr sel = length ?q then sel\<lparr>curr := 0\<rparr> else sel) =
      sel\<lparr>curr := curr sel mod length ?q\<rparr>"
    using assms by (auto simp: selector_ok_def)
  ultimately show ?thesis
    using pos unfolding query_once_def n query_loop.simps(2) by (simp add: Let_def flip: n)
qed

lemma selector_ok_query: "selector_ok sel \<Longrightarrow> selector_ok (sel\<lparr>curr := curr sel mod length (robin_queue sel) + 1\<rparr>)"
  by (auto simp: selector_ok_def Suc_le_eq)

lemma query_many_picks:
  assumes "selector_ok sel"
  shows "fst (query_many n sel) =
    map (\<lambda>j. Inr (Some (robin_queue sel ! ((curr sel + j) mod length (robin_queue sel))))) [0..<n]"
  using assms
proof (induction n arbitrary: sel)
  case (Suc n)
  let ?q = "robin_queue sel"
  define sel1 where "sel1 = sel\<lparr>curr := curr sel mod length ?q + 1\<rparr>"
  have sel1: "robin_queue sel1 = ?q" "curr sel1 = curr sel mod length ?q + 1"
    by (simp_all add: sel1_def)
  have shift: "(curr sel mod length ?q + 1 + j) mod length ?q = (curr sel + Suc j) mod length ?q" for j
    using mod_add_left_eq [of "curr sel" "length ?q" "1 + j"] by (simp add: add.assoc)
  have "fst (query_many n sel1) =
      map (\<lambda>j. Inr (Some (?q ! ((curr sel + Suc j) mod length ?q)))) [0..<n]"
    using Suc.IH [of sel1] selector_ok_query [OF Suc.prems] unfolding sel1 shift
    by (simp add: sel1_def)
  moreover have "query_once sel = (Inr (Some (?q ! (curr sel mod length ?q))), sel1)"
    unfolding sel1_def by (rule query_once_picks [OF Suc.prems])
  ultimately show ?case
    by (simp add: map_upt_Suc split_beta del: upt_Suc)
qed simp

lemma count_tagged:
  "count (image_mset (\<lambda>j. Inr (Some j)) M) (Inr (Some i) :: nat option result) = count M i"
  by (induction M) auto

lemma rotation_mset:
  assumes "q \<noteq> []"
  shows "mset (map (\<lambda>j. q ! ((c + j) mod length q)) [0..<length q]) = mset q"
proof -
  have "map (\<lambda>j. q ! ((c + j) mod length q)) [0..<length q] = rotate c q"
    by (rule nth_equalityI) (simp_all add: nth_rotate)
  moreover have "mset (rotate c q) = mset q"
    by (metis add.commute append_take_drop_id mset_append rotate_drop_take)
  ultimately show ?thesis by simp
qed

section \<open>The constructor\<close>

text \<open>An entry of the list as a provider agent registers it, and the connected providers.\<close>

definition addr_entry :: "string \<times> 16 word \<Rightarrow> string" where
  "addr_entry e = fst e @ '':'' @ decimal (unat (snd e))"

definition connected :: "string \<times> 16 word \<Rightarrow> 's provider_info \<Rightarrow> bool" where
  "connected e prov \<longleftrightarrow>
     hostname prov = fst e \<and> port_of prov = snd e \<and> connpool_latency prov = 1 \<and>
     pool_ok AGENT_CONN_POOL_SIZE (prov_conns prov) \<and> lent (prov_conns prov) = {} \<and>
     length (free_list (prov_conns prov)) = AGENT_CONN_POOL_SIZE"

lemma addr_entry_parts:
  assumes "rlib_laws R" and "CHR '':'' \<notin> set (fst e)"
  shows "rl_split R (CHR '':'') (addr_entry e) = [fst e, decimal (unat (snd e))]"
    and "rl_as_u16 R (decimal (unat (snd e))) = Inr (snd e)"
proof -
  have "CHR '':'' \<notin> set (decimal n)" for n by (rule decimal_no_char) (simp add: is_digit_def)
  then show "rl_split R (CHR '':'') (addr_entry e) = [fst e, decimal (unat (snd e))]"
    unfolding rl_split [OF assms(1)] addr_entry_def
    using assms(2) by (simp add: split_on_append split_on_no_divider)
  have "unat (snd e) < 2 ^ 16" using unsigned_less [of "snd e"] by simp
  then show "rl_as_u16 R (decimal (unat (snd e))) = Inr (snd e)"
    using rl_as_u16 [OF assms(1), of "unat (snd e)"] by simp
qed

lemma connected_move: "connected e prov \<Longrightarrow> connected e (provider_info_move prov)"
  by (simp add: connected_def provider_info_move_def)

lemma load_providers_connects:
  assumes "rlib_laws R" and "connects net" and "\<forall>n. inj (alloc n)"
  shows "list_all2 connected sofar acc \<Longrightarrow> \<forall>e \<in> set es. CHR '':'' \<notin> set (fst e) \<Longrightarrow>
    \<exists>ps w1. load_providers R net alloc (map addr_entry es) acc w = (Inr ps, w1) \<and>
      list_all2 connected (sofar @ es) ps"
proof (induction es arbitrary: sofar acc w)
  case (Cons e es)
  obtain prov w1 where prov: "provider_info_new net (alloc (length acc)) (fst e) (snd e) w = (Inr prov, w1)"
    "connected e prov"
    using provider_info_connects [OF assms(2), of "alloc (length acc)" "fst e" "snd e" w] assms(3)
    by (auto simp: connected_def)
  have "list_all2 connected (sofar @ [e]) (map provider_info_move acc @ [prov])"
  proof -
    have "list_all2 (\<lambda>x y. connected x (provider_info_move y)) sofar acc"
      by (rule list_all2_mono [OF Cons.prems(1)]) (rule connected_move)
    then show ?thesis using prov(2) by (simp add: list_all2_appendI list_all2_map2)
  qed
  from Cons.IH [OF this, of w1] Cons.prems(2)
  obtain ps w2 where ps: "load_providers R net alloc (map addr_entry es) (map provider_info_move acc @ [prov]) w1
      = (Inr ps, w2)" "list_all2 connected (sofar @ e # es) ps" by auto
  have "addr_entry e \<noteq> []" by (simp add: addr_entry_def)
  then show ?case
    using addr_entry_parts [OF assms(1), of e] Cons.prems(2) prov(1) ps by (simp add: Let_def)
qed simp

lemma get_list_registered:
  assumes "etcd_laws cli stored" and "rlib_laws R"
    and "stored w ''server'' = Some (intercalate ''|'' vs)" and "vs \<noteq> []"
    and "\<forall>v \<in> set vs. CHR ''|'' \<notin> set v"
  shows "\<exists>w1. get_list R cli ''server'' w = (Inr vs, w1)"
proof -
  have "split_on (CHR ''|'') (intercalate ''|'' vs) = vs"
    using assms(4,5) by (intro split_on_intercalate) auto
  then show ?thesis
    using get_list_stored [OF assms(1,2), of "''server''" w] by (auto simp: assms(3) value_or_empty_def)
qed

lemma addr_entry_no_bar: "CHR ''|'' \<notin> set (fst e) \<Longrightarrow> CHR ''|'' \<notin> set (addr_entry e)"
  using decimal_no_char [of "CHR ''|''"] by (simp add: addr_entry_def is_digit_def)

text \<open>What etcd holds once the providers \<open>es\<close> have registered, and hosts the lists can hold.\<close>

definition registered ::
  "('w \<Rightarrow> string \<Rightarrow> string option) \<Rightarrow> 'w \<Rightarrow> (string \<times> 16 word) list \<Rightarrow> bool" where
  "registered stored w es \<longleftrightarrow> es \<noteq> [] \<and>
     stored w ''server'' = Some (intercalate ''|'' (map addr_entry es)) \<and>
     (\<forall>e \<in> set es. CHR '':'' \<notin> set (fst e) \<and> CHR ''|'' \<notin> set (fst e))"

lemma providers_loaded:
  assumes "rlib_laws R" and "etcd_laws cli stored" and "connects net" and "\<forall>n. inj (alloc n)"
    and "registered stored w es"
  shows "\<exists>addr_list w1 ps w2. get_list R cli ''server'' w = (Inr addr_list, w1) \<and>
    load_providers R net alloc addr_list [] w1 = (Inr ps, w2) \<and> list_all2 connected es ps"
proof -
  have "\<forall>v \<in> set (map addr_entry es). CHR ''|'' \<notin> set v"
    using assms(5) addr_entry_no_bar by (auto simp: registered_def)
  then obtain w1 where "get_list R cli ''server'' w = (Inr (map addr_entry es), w1)"
    using get_list_registered [OF assms(2,1), of w "map addr_entry es"] assms(5)
    by (auto simp: registered_def)
  moreover obtain ps w2 where "load_providers R net alloc (map addr_entry es) [] w1 = (Inr ps, w2)"
    "list_all2 connected es ps"
    using load_providers_connects [OF assms(1,3,4), of "[]" "[]" es w1] assms(5)
    by (auto simp: registered_def)
  ultimately show ?thesis by blast
qed

lemma connected_hosts: "list_all2 connected es ps \<Longrightarrow> map hostname ps = map fst es"
  by (induction rule: list_all2_induct) (simp_all add: connected_def)

lemma connected_all: "list_all2 connected es ps \<Longrightarrow> p \<in> set ps \<Longrightarrow> connpool_latency p = 1"
  by (induction rule: list_all2_induct) (auto simp: connected_def)

lemma selector_ok_loaded:
  assumes "list_all2 connected es ps" and "es \<noteq> []"
  shows "selector_ok \<lparr>providers = ps, robin_queue = queue_of 0 (map (robin_weight \<circ> cls) (map fst es)), curr = 0\<rparr>"
proof -
  let ?ws = "map (robin_weight \<circ> cls) (map fst es)"
  have "length ps = length es" using assms(1) by (simp add: list_all2_lengthD)
  moreover have "queue_of 0 ?ws \<noteq> []" using assms(2) robin_weight_pos by (cases es) (simp_all add: neq_iff)
  ultimately show ?thesis
    using queue_of_members [of _ 0 ?ws] connected_all [OF assms(1)] by (auto simp: selector_ok_def)
qed

section \<open>Properties\<close>

text \<open>
  With providers registered in etcd, all of them of a known class and reachable, the constructor
  returns: the providers are the registered ones in order, each with all its connections made and free,
  and the queue holds provider \<open>i\<close> once, twice or three times according to its class.
\<close>

theorem selector_is_built:
  assumes "rlib_laws R" and "etcd_laws cli stored" and "connects net" and "\<forall>n. inj (alloc n)"
    and "registered stored w es" and "\<forall>e \<in> set es. class_of_host (fst e) = Some (cls (fst e))"
  shows "\<exists>sel w'. provider_selector_new R cli net alloc w = (Inr sel, w') \<and>
    list_all2 connected es (providers sel) \<and> selector_ok sel \<and> curr sel = 0 \<and>
    robin_queue sel = queue_of 0 (map (robin_weight \<circ> cls \<circ> fst) es)"
proof -
  obtain al w1 ps w2 where l: "get_list R cli ''server'' w = (Inr al, w1)"
    "load_providers R net alloc al [] w1 = (Inr ps, w2)" "list_all2 connected es ps"
    using providers_loaded [OF assms(1-5)] by blast
  have ne: "es \<noteq> []" "ps \<noteq> []" using assms(5) l(3) by (auto simp: registered_def)
  let ?q = "queue_of 0 (map (robin_weight \<circ> cls \<circ> fst) es)"
  have q: "build_queue 0 (map hostname ps) [] = Inr ?q"
    unfolding connected_hosts [OF l(3)]
    using build_queue_known [of "map fst es" cls 0 "[]"] assms(6) by (simp add: comp_assoc)
  have "selector_ok \<lparr>providers = ps, robin_queue = ?q, curr = 0\<rparr>"
    using selector_ok_loaded [OF l(3) ne(1), of cls] by (simp add: comp_assoc)
  with l q ne(2) show ?thesis by (simp add: provider_selector_new_def and_then_def)
qed

definition sample_entries :: "(string \<times> 16 word) list" where
  "sample_entries = [(''provider-small'', 30000), (''provider-large'', 30001)]"

definition sample_store :: "string \<Rightarrow> string option" where
  "sample_store = [''server'' \<mapsto> intercalate ''|'' (map addr_entry sample_entries)]"

text \<open>A network whose world carries the store of etcd along.\<close>

definition always_connected :: "(unit, unit, string \<Rightarrow> string option) net" where
  "always_connected =
     \<lparr>net_socket = (\<lambda>w. ((), w)), net_resolve = (\<lambda>_ _. return ()), net_connect = (\<lambda>_ _. return ()),
      net_async_resolve = (\<lambda>_ _ w. ((None, ()), w)), net_async_connect = (\<lambda>_ _ w. (None, w)),
      net_write = (\<lambda>_ _ w. (None, w)), net_read = (\<lambda>_ _ w. (Inl eof_code, w)),
      net_read_some = (\<lambda>_ _ w. ((Some eof_code, []), w)), net_sync_write = (\<lambda>_ _. return ()),
      net_sync_read = (\<lambda>_ _. throw (boost_fatal eof_code)), net_shutdown_send = (\<lambda>_ w. (None, w)),
      net_shutdown_both = (\<lambda>_ w. (None, w))\<rparr>"

lemma always_connected_connects: "connects always_connected"
  by (simp add: connects_def quick_connect_def always_connected_def and_then_def Let_def)

lemma sample_registered: "registered (\<lambda>m. m) sample_store sample_entries"
  by (simp add: registered_def sample_store_def sample_entries_def)

theorem selector_is_built_witness:
  "\<exists>sel w'. provider_selector_new plain_rlib map_etcd always_connected (\<lambda>_ i. i) sample_store = (Inr sel, w') \<and>
     robin_queue sel = [0, 1, 1, 1]"
proof -
  let ?cls = "\<lambda>h. if h = ''provider-small'' then Small else Large"
  have "\<forall>e \<in> set sample_entries. class_of_host (fst e) = Some (?cls (fst e))"
    by (simp add: sample_entries_def class_of_host_def)
  from selector_is_built [OF plain_rlib_laws map_etcd_laws always_connected_connects _ sample_registered this,
      of "\<lambda>_ i. i"]
  show ?thesis by (auto simp: sample_entries_def numeral_3_eq_3)
qed

text \<open>
  One provider of a class the queue does not know is enough to make the constructor throw, after it
  has connected to every provider; with nothing registered it throws as well.
\<close>

theorem selector_is_refused:
  assumes "rlib_laws R" and "etcd_laws cli stored" and "connects net" and "\<forall>n. inj (alloc n)"
  shows "(registered stored w es \<and> (\<exists>e \<in> set es. class_of_host (fst e) = None) \<longrightarrow>
      fst (provider_selector_new R cli net alloc w) =
        Inl (Runtime_Error ''naive robin found unknown provider.'')) \<and>
    (stored w ''server'' = None \<longrightarrow>
      fst (provider_selector_new R cli net alloc w) =
        Inl (Runtime_Error ''No provider available. Unable to provide service...''))"
proof (intro conjI impI)
  assume a: "registered stored w es \<and> (\<exists>e \<in> set es. class_of_host (fst e) = None)"
  obtain al w1 ps w2 where l: "get_list R cli ''server'' w = (Inr al, w1)"
    "load_providers R net alloc al [] w1 = (Inr ps, w2)" "list_all2 connected es ps"
    using providers_loaded [OF assms] a by blast
  have "ps \<noteq> []" using a l(3) by (auto simp: registered_def)
  moreover have "build_queue 0 (map hostname ps) [] =
      Inl (Runtime_Error ''naive robin found unknown provider.'')"
    unfolding connected_hosts [OF l(3)] using a by (intro build_queue_unknown) auto
  ultimately show "fst (provider_selector_new R cli net alloc w) =
      Inl (Runtime_Error ''naive robin found unknown provider.'')"
    using l(1,2) by (simp add: provider_selector_new_def and_then_def)
next
  assume "stored w ''server'' = None"
  then obtain w1 where "get_list R cli ''server'' w = (Inr [[]], w1)"
    using get_list_stored [OF assms(2,1), of "''server''" w] by (auto simp: value_or_empty_def)
  then show "fst (provider_selector_new R cli net alloc w) =
      Inl (Runtime_Error ''No provider available. Unable to provide service...'')"
    by (simp add: provider_selector_new_def and_then_def)
qed

theorem selector_is_refused_witness:
  "fst (provider_selector_new plain_rlib map_etcd always_connected (\<lambda>_ i. i) (\<lambda>_. None)) =
     Inl (Runtime_Error ''No provider available. Unable to provide service...'') \<and>
   fst (provider_selector_new plain_rlib map_etcd always_connected (\<lambda>_ i. i)
       [''server'' \<mapsto> ''provider-huge:1'']) =
     Inl (Runtime_Error ''naive robin found unknown provider.'')"
proof -
  have e: "addr_entry (''provider-huge'', 1) = ''provider-huge:1''"
    by (simp add: addr_entry_def decimal.simps)
  have "registered (\<lambda>m. m) [''server'' \<mapsto> ''provider-huge:1''] [(''provider-huge'', 1)]"
    by (simp add: registered_def e)
  then show ?thesis
    using selector_is_refused [OF plain_rlib_laws map_etcd_laws always_connected_connects,
        of "\<lambda>_ i. i" "\<lambda>_. None" "[]"]
      selector_is_refused [OF plain_rlib_laws map_etcd_laws always_connected_connects,
        of "\<lambda>_ i. i" "[''server'' \<mapsto> ''provider-huge:1'']" "[(''provider-huge'', 1)]"]
    by (simp add: class_of_host_def)
qed

text \<open>
  C11: the picks are fair in proportion to the classes: among any \<open>length (robin_queue sel)\<close> picks in a row,
  from whatever position, every request gets a provider and each provider is picked exactly once, twice or
  three times, as its class says. The state stays well formed.
\<close>

theorem picks_in_proportion:
  assumes "selector_ok sel" and "build_queue 0 (map hostname (providers sel)) [] = Inr (robin_queue sel)"
    and "i < length (providers sel)" and "\<forall>p \<in> set (providers sel). class_of_host (hostname p) = Some (cls (hostname p))"
  shows "count (mset (fst (query_many (length (robin_queue sel)) sel))) (Inr (Some i)) =
      robin_weight (cls (hostname (providers sel ! i))) \<and>
    length (fst (query_many (length (robin_queue sel)) sel)) =
      (\<Sum>p \<leftarrow> providers sel. robin_weight (cls (hostname p))) \<and>
    selector_ok (snd (query_once sel))"
proof -
  let ?q = "robin_queue sel" and ?ws = "map (robin_weight \<circ> cls \<circ> hostname) (providers sel)"
  have q: "?q = queue_of 0 ?ws"
    using assms(2,4) build_queue_known [of "map hostname (providers sel)" cls 0 "[]"]
    by (simp add: comp_assoc)
  have "?q \<noteq> []" using assms(1) by (simp add: selector_ok_def)
  have picks: "fst (query_many (length ?q) sel) =
      map (\<lambda>j. Inr (Some j)) (map (\<lambda>j. ?q ! ((curr sel + j) mod length ?q)) [0..<length ?q])"
    using query_many_picks [OF assms(1)] by simp
  have "mset (fst (query_many (length ?q) sel)) = image_mset (\<lambda>j. Inr (Some j)) (mset ?q)"
    unfolding picks mset_map [of "\<lambda>j. Inr (Some j)"] rotation_mset [OF \<open>?q \<noteq> []\<close>] ..
  moreover have "count (image_mset (\<lambda>j. Inr (Some j)) (mset ?q)) (Inr (Some i) :: nat option result) =
      count (mset ?q) i"
    by (rule count_tagged)
  moreover have "count (mset ?q) i = ?ws ! i"
    using count_queue_of [of i ?ws 0] assms(3) by (simp add: q)
  moreover have "length (queue_of k ns) = sum_list ns" for k ns
    by (induction ns arbitrary: k) simp_all
  ultimately show ?thesis
    using assms(3) picks q query_once_picks [OF assms(1)] selector_ok_query [OF assms(1)]
    by (simp add: comp_def)
qed

definition sample_selector :: "nat provider_selector" where
  "sample_selector =
     \<lparr>providers = [sample_provider, sample_provider\<lparr>hostname := ''provider-large''\<rparr>],
      robin_queue = [0, 1, 1, 1], curr = 3\<rparr>"

lemma sample_selector_ok: "selector_ok sample_selector"
  by (auto simp: selector_ok_def sample_selector_def sample_provider_def)

theorem picks_in_proportion_witness:
  "count (mset (fst (query_many 4 sample_selector))) (Inr (Some 1)) = 3"
proof -
  let ?cls = "\<lambda>h. if h = ''provider-small'' then Small else Large"
  have "build_queue 0 (map hostname (providers sample_selector)) [] = Inr (robin_queue sample_selector)"
    by (simp add: sample_selector_def sample_provider_def class_of_host_def numeral_3_eq_3)
  moreover have "\<forall>p \<in> set (providers sample_selector). class_of_host (hostname p) = Some (?cls (hostname p))"
    by (auto simp: sample_selector_def sample_provider_def class_of_host_def)
  moreover have "1 < length (providers sample_selector)" by (simp add: sample_selector_def)
  ultimately have "count (mset (fst (query_many (length (robin_queue sample_selector)) sample_selector)))
      (Inr (Some 1)) = robin_weight (?cls (hostname (providers sample_selector ! 1)))"
    using picks_in_proportion [OF sample_selector_ok, of 1 ?cls] by blast
  moreover have "length (robin_queue sample_selector) = 4" "hostname (providers sample_selector ! 1) = ''provider-large''"
    by (simp_all add: sample_selector_def)
  ultimately show ?thesis by simp
qed

text \<open>
  The loop of \<open>query_once\<close> is written to try each provider of the queue and tries only one: when the
  provider whose turn it is has a high pool latency, the request gets no provider, however many others
  are healthy. (The slow one's recorded latency is lowered, so it comes back in time.)
\<close>

theorem slow_provider_costs_the_request:
  assumes "curr sel < length (robin_queue sel)" and "robin_queue sel ! curr sel = i"
    and "i < length (providers sel)" and "10000 \<le> connpool_latency (providers sel ! i)"
  shows "fst (query_once sel) = Inr None \<and> curr (snd (query_once sel)) = curr sel + 1 \<and>
    connpool_latency (providers (snd (query_once sel)) ! i) < connpool_latency (providers sel ! i) \<and>
    (\<forall>j. j \<noteq> i \<longrightarrow> providers (snd (query_once sel)) ! j = providers sel ! j)"
proof -
  let ?l = "connpool_latency (providers sel ! i)"
  let ?low = "if 51427 < ?l then ?l - 51427 else 1"
  let ?sel = "sel\<lparr>providers := (providers sel)[i := (providers sel ! i)\<lparr>connpool_latency := ?low\<rparr>],
                 curr := curr sel + 1\<rparr>"
  have loop: "query_loop n seen sel = (Inr None, ?sel)" if "0 < n \<or> seen = ?l" for n seen
    using that
  proof (induction n arbitrary: seen)
    case 0
    then show ?case using assms(1,2,3) by simp
  next
    case (Suc n)
    then show ?case using assms by (simp add: Let_def not_less)
  qed
  have "?low < ?l" using assms(4)
    by (auto simp: word_less_nat_alt word_le_nat_alt unat_sub_if' not_less)
  moreover have "query_once sel = (Inr None, ?sel)"
    unfolding query_once_def by (rule loop) (use assms(1) in auto)
  ultimately show ?thesis using assms(3) by simp
qed

theorem slow_provider_costs_the_request_witness:
  "fst (query_once (sample_selector\<lparr>curr := 0,
     providers := [sample_provider\<lparr>connpool_latency := 20000\<rparr>, sample_provider]\<rparr>)) = Inr None"
  using slow_provider_costs_the_request [of "sample_selector\<lparr>curr := 0,
     providers := [sample_provider\<lparr>connpool_latency := 20000\<rparr>, sample_provider]\<rparr>" 0]
  by (simp add: sample_selector_def)

end
