(* ===== verification/Consumer_Agent.thy ===== *)
theory Consumer_Agent
  imports Provider_Selector
begin

text \<open>
  \<open>consumer::agent\<close> of src/consumer_agent.cc: the HTTP server the consumer talks to. \<open>handle_request\<close>
  picks a provider and forwards the request, \<open>do_session\<close> serves one connection, request after request,
  \<open>do_listen\<close> accepts connections, \<open>listen\<close> starts the threads. The HTTP reader and writer are Beast's
  and the acceptor is Asio's; they enter as records of operations.
\<close>

section \<open>The agent\<close>

record 's consumer_agent =
  selector :: "'s provider_selector"
  agent_threads :: int

definition consumer_agent_new ::
  "rlib \<Rightarrow> 'w etcd_client \<Rightarrow> ('s, 'p, 'w) net \<Rightarrow> (nat \<Rightarrow> nat \<Rightarrow> addr) \<Rightarrow> int \<Rightarrow> ('s consumer_agent, 'w) step" where
  "consumer_agent_new R cli net alloc threads =
     and_then (provider_selector_new R cli net alloc)
       (\<lambda>sel. return \<lparr>selector = sel, agent_threads = threads\<rparr>)"

definition resp_400 :: http_response where
  "resp_400 = (new_response Bad_Request_400 11)
     \<lparr>res_server := Some ''rHttp'', res_content_type := Some ''text/plain'',
      res_connection := Some False, res_body := ''bad request''\<rparr>"

section \<open>One request\<close>

text \<open>What is done to the provider's response before it goes back to the consumer.\<close>

definition finish_response :: "http_request \<Rightarrow> http_response \<Rightarrow> http_response" where
  "finish_response req res =
     (let res = res\<lparr>res_server := Some ''rHttp''\<rparr>
      in if res_status res = Internal_Server_Error_500 then res\<lparr>res_connection := Some False\<rparr>
         else res\<lparr>res_connection := Some (req_keep_alive req)\<rparr>)"

text \<open>\<open>None\<close>: the coroutine waits for a connection of the provider it picked.\<close>

definition handle_request ::
  "rlib \<Rightarrow> ('s, 'p, 'w) net \<Rightarrow> ('w \<Rightarrow> int) \<Rightarrow> addr \<Rightarrow> http_request \<Rightarrow> 's provider_selector \<Rightarrow> 'w \<Rightarrow>
   (http_response result \<times> 's provider_selector \<times> 'w) option" where
  "handle_request R net now fresh req sel w =
     (if req_method req \<noteq> Post then Some (Inr resp_400, sel, w)
      else case query_once sel of
          (Inl e, sel1) \<Rightarrow> Some (Inl e, sel1, w)
        | (Inr None, sel1) \<Rightarrow> Some (Inr resp_400, sel1, w)
        | (Inr (Some i), sel1) \<Rightarrow>
            (let prov = providers sel1 ! i;
                 req1 = req\<lparr>req_user_agent := Some ''rHttp'', req_host := Some (hostname prov)\<rparr>
             in case provider_async_request R net now fresh req1 prov w of
                  None \<Rightarrow> None
                | Some (r, prov1, w1) \<Rightarrow>
                    Some (map_sum id (finish_response req1) r,
                          sel1\<lparr>providers := (providers sel1)[i := prov1]\<rparr>, w1)))"

section \<open>One session\<close>

record ('s, 'w) http_io =
  http_read :: "'s \<Rightarrow> 'w \<Rightarrow> (error_code + http_request) \<times> 'w"
  http_write :: "'s \<Rightarrow> http_response \<Rightarrow> 'w \<Rightarrow> error_code option \<times> 'w"
  http_shutdown :: "'s \<Rightarrow> 'w \<Rightarrow> error_code option \<times> 'w"

text \<open>
  How a session ends: with the shutdown of the sending side (whose own error code is only logged), with
  an error code other than the end of the stream (the function returns and shuts nothing down), or left
  by an exception.
\<close>

datatype session_end = Shut_Down | Left_On_Error | Left_By error

text \<open>
  The loop reads until the stream ends, so it may run for ever: \<open>None\<close> is a session that does not
  come to an end (or waits for a connection). The error code of the write is overwritten by the next
  read and never looked at.
\<close>

partial_function (option) do_session ::
  "rlib \<Rightarrow> ('s, 'p, 'w) net \<Rightarrow> ('s, 'w) http_io \<Rightarrow> ('w \<Rightarrow> int) \<Rightarrow> addr \<Rightarrow> 's \<Rightarrow> 's provider_selector \<Rightarrow> 'w \<Rightarrow>
   (session_end \<times> 's provider_selector \<times> 'w) option" where
  "do_session R net io now fresh sock sel w =
     (case http_read io sock w of
        (Inl ec, w1) \<Rightarrow>
          (if ec_kind ec = End_Of_Stream
           then Some (Shut_Down, sel, snd (http_shutdown io sock w1))
           else Some (Left_On_Error, sel, w1))
      | (Inr req, w1) \<Rightarrow>
          Option.bind (handle_request R net now fresh req sel w1) (\<lambda>(r, sel1, w2).
            case r of
              Inl e \<Rightarrow> Some (Left_By e, sel1, w2)
            | Inr response \<Rightarrow>
                (let (_, w3) = http_write io sock response w2
                 in if \<not> res_keep_alive response
                    then Some (Shut_Down, sel1, snd (http_shutdown io sock w3))
                    else do_session R net io now fresh sock sel1 w3)))"

section \<open>Listening\<close>

text \<open>
  \<open>do_listen\<close> opens, configures and binds the acceptor; \<open>set_option\<close> is called without the error code,
  so it throws and the check after it never sees anything. Then it accepts for ever; \<open>accept_all\<close> is
  that loop over the outcomes of the accepts: each connection starts a session, an error is logged.
\<close>

definition start_listening :: "'w acceptor \<Rightarrow> (unit, 'w) step" where
  "start_listening a =
     and_then (or_fatal (acc_open a)) (\<lambda>_.
     and_then (acc_reuse_address a) (\<lambda>_.
     and_then (or_fatal (acc_bind a)) (\<lambda>_.
     or_fatal (acc_listen a))))"

fun accept_all :: "(error_code + 's) list \<Rightarrow> 's list" where
  "accept_all [] = []"
| "accept_all (Inl ec # outcomes) = accept_all outcomes"
| "accept_all (Inr sock # outcomes) = sock # accept_all outcomes"

text \<open>
  \<open>listen\<close>: the address is parsed (by Asio, which throws on a bad one), then room is reserved for
  \<open>threads - 1\<close> threads, a number converted to \<open>size_t\<close>; \<open>max_size\<close> is the limit of a vector of threads.
  The value is the number of threads that run the io_context.
\<close>

definition extra_threads :: "int \<Rightarrow> nat" where
  "extra_threads threads = nat (threads - 1)"

definition reserve_threads :: "nat \<Rightarrow> int \<Rightarrow> unit result" where
  "reserve_threads max_size threads =
     (if max_size < unat (word_of_int threads - 1 :: 64 word) then Inl (Length_Error ''vector::reserve'')
      else Inr ())"

definition consumer_listen :: "(string \<Rightarrow> 'e result) \<Rightarrow> nat \<Rightarrow> string \<Rightarrow> 's consumer_agent \<Rightarrow> ('e \<times> nat) result" where
  "consumer_listen make_address max_size listen_addr agent =
     bind_result (make_address listen_addr) (\<lambda>endpoint.
     bind_result (reserve_threads max_size (agent_threads agent)) (\<lambda>_.
     Inr (endpoint, extra_threads (agent_threads agent) + 1)))"

section \<open>What a response looks like\<close>

lemma exchange_statuses:
  "provider_exchange R net now body s w = (Inr (res, lat), w1) \<Longrightarrow>
   res_status res \<in> {Ok_200, Internal_Server_Error_500}"
  by (auto simp: provider_exchange_def read_answer_def resp_500_def new_response_def Let_def
      split: sum.splits prod.splits option.splits if_splits)

lemma with_conn_value:
  "with_conn m net addr port fresh body p w = Some (Inr x, p', w') \<Longrightarrow>
   \<exists>s v v1. body s v = (Inr x, v1)"
  by (auto simp: with_conn_def with_lent_def Let_def split: prod.splits sum.splits option.splits)

lemma provider_response_status:
  assumes "provider_async_request R net now fresh req prov w = Some (Inr res, prov', w')"
  shows "res_status res \<in> {Ok_200, Internal_Server_Error_500}"
proof -
  obtain lat p where "with_conn AGENT_CONN_POOL_SIZE net (hostname prov) (port_of prov) fresh
      (provider_exchange R net now (req_body req)) (prov_conns prov) w = Some (Inr (res, lat), p, w')"
    using assms by (auto simp: provider_async_request_def split: option.splits sum.splits)
  from with_conn_value [OF this] show ?thesis by (elim exE) (rule exchange_statuses)
qed

lemma finish_response_simps [simp]:
  "res_status (finish_response req res) = res_status res"
  "res_server (finish_response req res) = Some ''rHttp''"
  "res_body (finish_response req res) = res_body res"
  "res_keep_alive (finish_response req res) \<longleftrightarrow>
     res_status res \<noteq> Internal_Server_Error_500 \<and> req_keep_alive req"
  by (simp_all add: finish_response_def Let_def res_keep_alive_def http_keep_alive_def)

lemma resp_400_simps [simp]:
  "res_status resp_400 = Bad_Request_400" "res_server resp_400 = Some ''rHttp''" "\<not> res_keep_alive resp_400"
  by (simp_all add: resp_400_def new_response_def res_keep_alive_def http_keep_alive_def)

text \<open>A request is answered with 400 by the agent itself, or by the provider it was sent to.\<close>

lemma handle_request_cases:
  assumes "handle_request R net now fresh req sel w = Some (Inr res, sel', w')"
  obtains (refused) "res = resp_400" "req_method req \<noteq> Post" "sel' = sel" "w' = w"
  | (no_provider) "res = resp_400" "req_method req = Post" "query_once sel = (Inr None, sel')" "w' = w"
  | (forwarded) i sel1 answer prov where "req_method req = Post" "query_once sel = (Inr (Some i), sel1)"
      "provider_async_request R net now fresh
         (req\<lparr>req_user_agent := Some ''rHttp'', req_host := Some (hostname (providers sel1 ! i))\<rparr>)
         (providers sel1 ! i) w = Some (Inr answer, prov, w')"
      "res = finish_response
         (req\<lparr>req_user_agent := Some ''rHttp'', req_host := Some (hostname (providers sel1 ! i))\<rparr>) answer"
      "sel' = sel1\<lparr>providers := (providers sel1)[i := prov]\<rparr>"
proof (cases "req_method req = Post")
  case False
  then show ?thesis using assms refused by (simp add: handle_request_def)
next
  case True
  note post = this
  obtain q sel1 where q: "query_once sel = (q, sel1)" by force
  show ?thesis
  proof (cases q rule: optional_result_cases)
    case (some i)
    let ?req = "req\<lparr>req_user_agent := Some ''rHttp'', req_host := Some (hostname (providers sel1 ! i))\<rparr>"
    obtain r prov where r: "provider_async_request R net now fresh ?req (providers sel1 ! i) w
        = Some (r, prov, w')" "Inr res = map_sum id (finish_response ?req) r"
      "sel' = sel1\<lparr>providers := (providers sel1)[i := prov]\<rparr>"
      using assms post q some by (auto simp: handle_request_def Let_def split: option.splits)
    obtain answer where "r = Inr answer" using r(2) by (cases r) auto
    with r forwarded [OF post] q some show ?thesis by simp
  qed (use assms post q no_provider in \<open>auto simp: handle_request_def\<close>)
qed

section \<open>A session that ends\<close>

text \<open>
  A connection on which the requests \<open>incoming w\<close> are still to come before the stream ends, and
  \<open>outgoing w\<close> the responses written so far; handling a request leaves both alone and never waits.
\<close>

definition session_laws ::
  "('s, 'w) http_io \<Rightarrow> 's \<Rightarrow> ('w \<Rightarrow> http_request list) \<Rightarrow> ('w \<Rightarrow> http_response list) \<Rightarrow> bool" where
  "session_laws io sock incoming outgoing \<longleftrightarrow>
     (\<forall>w. case http_read io sock w of
        (Inl ec, w1) \<Rightarrow> incoming w = [] \<and> ec_kind ec = End_Of_Stream \<and> outgoing w1 = outgoing w
      | (Inr req, w1) \<Rightarrow> incoming w = req # incoming w1 \<and> outgoing w1 = outgoing w) \<and>
     (\<forall>res w. incoming (snd (http_write io sock res w)) = incoming w \<and>
        outgoing (snd (http_write io sock res w)) = outgoing w @ [res]) \<and>
     (\<forall>w. outgoing (snd (http_shutdown io sock w)) = outgoing w)"

definition handles_all ::
  "('q \<Rightarrow> bool) \<Rightarrow> (http_request \<Rightarrow> 'q \<Rightarrow> 'w \<Rightarrow> (http_response result \<times> 'q \<times> 'w) option) \<Rightarrow>
   ('w \<Rightarrow> http_request list) \<Rightarrow> ('w \<Rightarrow> http_response list) \<Rightarrow> bool" where
  "handles_all ok handle incoming outgoing \<longleftrightarrow>
     (\<forall>req q w. ok q \<longrightarrow> (case handle req q w of None \<Rightarrow> False
        | Some (r, q1, w1) \<Rightarrow> ok q1 \<and> incoming w1 = incoming w \<and> outgoing w1 = outgoing w))"

text \<open>The responses of a session: the first \<open>n\<close> requests answered, all but the last kept alive.\<close>

definition session_responses :: "session_end \<Rightarrow> nat \<Rightarrow> http_response list \<Rightarrow> bool" where
  "session_responses e n rs \<longleftrightarrow>
     length rs \<le> n \<and> (\<forall>r \<in> set (butlast rs). res_keep_alive r) \<and>
     (case e of
        Shut_Down \<Rightarrow> length rs = n \<or> (rs \<noteq> [] \<and> \<not> res_keep_alive (last rs))
      | Left_By err \<Rightarrow> length rs < n
      | Left_On_Error \<Rightarrow> False)"

lemma session_responses_Cons:
  "session_responses e n rs \<Longrightarrow> res_keep_alive r \<Longrightarrow> session_responses e (Suc n) (r # rs)"
  by (cases rs) (auto simp: session_responses_def split: session_end.splits)

lemma session_read:
  assumes "session_laws io sock incoming outgoing"
  shows "case http_read io sock w of
      (Inl ec, w1) \<Rightarrow> incoming w = [] \<and> ec_kind ec = End_Of_Stream \<and> outgoing w1 = outgoing w
    | (Inr req, w1) \<Rightarrow> incoming w = req # incoming w1 \<and> outgoing w1 = outgoing w"
  using assms [unfolded session_laws_def] by (elim conjE allE)

lemma session_end_of_stream:
  assumes "session_laws io sock incoming outgoing" and "incoming w = []"
  obtains ec w1 where "http_read io sock w = (Inl ec, w1)" "ec_kind ec = End_Of_Stream" "outgoing w1 = outgoing w"
proof -
  obtain x w1 where x: "http_read io sock w = (x, w1)" by force
  with session_read [OF assms(1), of w] assms(2) that show thesis by (cases x) simp_all
qed

lemma session_next_request:
  assumes "session_laws io sock incoming outgoing" and "incoming w = req # reqs"
  obtains w1 where "http_read io sock w = (Inr req, w1)" "incoming w1 = reqs" "outgoing w1 = outgoing w"
proof -
  obtain x w1 where x: "http_read io sock w = (x, w1)" by force
  with session_read [OF assms(1), of w] assms(2) that show thesis by (cases x) simp_all
qed

lemma handles_one:
  assumes "handles_all ok handle incoming outgoing" and "ok q"
  obtains r q1 w1 where "handle req q w = Some (r, q1, w1)" "ok q1" "incoming w1 = incoming w"
    "outgoing w1 = outgoing w"
proof -
  have "case handle req q w of None \<Rightarrow> False
      | Some (r, q1, w1) \<Rightarrow> ok q1 \<and> incoming w1 = incoming w \<and> outgoing w1 = outgoing w"
    using assms(1) [unfolded handles_all_def] assms(2) by (elim allE) (rule mp)
  with that show thesis by (cases "handle req q w") auto
qed

lemma do_session_ends:
  assumes laws: "session_laws io sock incoming outgoing"
    and handles: "handles_all ok (handle_request R net now fresh) incoming outgoing"
  shows "ok sel \<Longrightarrow> \<exists>e sel' w' rs. do_session R net io now fresh sock sel w = Some (e, sel', w') \<and>
    ok sel' \<and> outgoing w' = outgoing w @ rs \<and> session_responses e (length (incoming w)) rs"
proof (induction "incoming w" arbitrary: sel w)
  case Nil
  obtain ec w1 where r: "http_read io sock w = (Inl ec, w1)" "ec_kind ec = End_Of_Stream" "outgoing w1 = outgoing w"
    using session_end_of_stream [OF laws Nil.hyps [symmetric]] .
  have "outgoing (snd (http_shutdown io sock w1)) = outgoing w @ []"
    using laws r(3) by (simp add: session_laws_def)
  moreover have "do_session R net io now fresh sock sel w = Some (Shut_Down, sel, snd (http_shutdown io sock w1))"
    by (subst do_session.simps) (simp add: r)
  moreover have "session_responses Shut_Down (length (incoming w)) []"
    by (simp add: session_responses_def flip: Nil.hyps)
  ultimately show ?case using Nil.prems by blast
next
  case (Cons req reqs)
  obtain w1 where w1: "http_read io sock w = (Inr req, w1)" "incoming w1 = reqs" "outgoing w1 = outgoing w"
    using session_next_request [OF laws Cons.hyps(2) [symmetric]] .
  obtain r sel1 w2 where w2: "handle_request R net now fresh req sel w1 = Some (r, sel1, w2)"
    "ok sel1" "incoming w2 = reqs" "outgoing w2 = outgoing w"
    using handles_one [OF handles Cons.prems, of req w1] w1 by metis
  show ?case
  proof (cases r)
    case (Inl e)
    have "do_session R net io now fresh sock sel w = Some (Left_By e, sel1, w2)"
      by (subst do_session.simps) (simp add: w1 w2 Inl)
    moreover have "session_responses (Left_By e) (length (incoming w)) []"
      by (simp add: session_responses_def flip: Cons.hyps(2))
    ultimately show ?thesis using w2(2,4) by (metis append_Nil2)
  next
    case (Inr res)
    obtain x w3 where w3: "http_write io sock res w2 = (x, w3)" by force
    then have out: "incoming w3 = reqs" "outgoing w3 = outgoing w @ [res]"
      using laws w2 unfolding session_laws_def by (metis snd_conv)+
    show ?thesis
    proof (cases "res_keep_alive res")
      case False
      have "do_session R net io now fresh sock sel w = Some (Shut_Down, sel1, snd (http_shutdown io sock w3))"
        by (subst do_session.simps) (simp add: w1 w2 w3 Inr False)
      moreover have "outgoing (snd (http_shutdown io sock w3)) = outgoing w @ [res]"
        using laws out by (simp add: session_laws_def)
      moreover have "session_responses Shut_Down (length (incoming w)) [res]"
        using False by (simp add: session_responses_def flip: Cons.hyps(2))
      ultimately show ?thesis using w2(2) by blast
    next
      case True
      have step: "do_session R net io now fresh sock sel w = do_session R net io now fresh sock sel1 w3"
        by (subst do_session.simps) (simp add: w1 w2 w3 Inr True)
      obtain e sel' w' rs where rest: "do_session R net io now fresh sock sel1 w3 = Some (e, sel', w')"
        "ok sel'" "outgoing w' = outgoing w3 @ rs" "session_responses e (length reqs) rs"
        using Cons.hyps(1) [OF out(1) [symmetric] w2(2)] out(1) by auto
      have "session_responses e (length (incoming w)) (res # rs)"
        using session_responses_Cons [OF rest(4) True] by (simp flip: Cons.hyps(2))
      then show ?thesis using step rest out(2) by (intro exI [of _ e] exI [of _ sel'] exI [of _ w'] exI [of _ "res # rs"]) simp
    qed
  qed
qed

section \<open>A selector whose providers all have a free connection\<close>

definition provider_ready :: "addr \<Rightarrow> 's provider_info \<Rightarrow> bool" where
  "provider_ready fresh p \<longleftrightarrow>
     pool_ok AGENT_CONN_POOL_SIZE (prov_conns p) \<and> objects (prov_conns p) fresh = None \<and>
     (case free_list (prov_conns p) of [] \<Rightarrow> False | a # rest \<Rightarrow> objects (prov_conns p) a \<noteq> None) \<and>
     connpool_latency p < 10000"

definition selector_ready :: "addr \<Rightarrow> 's provider_selector \<Rightarrow> bool" where
  "selector_ready fresh sel \<longleftrightarrow> selector_ok sel \<and> (\<forall>p \<in> set (providers sel). provider_ready fresh p)"

text \<open>The network of the providers is not the connection of the consumer.\<close>

definition net_leaves :: "('s, 'p, 'w) net \<Rightarrow> ('w \<Rightarrow> 'x) \<Rightarrow> bool" where
  "net_leaves net f \<longleftrightarrow>
     (\<forall>s bs w. f (snd (net_write net s bs w)) = f w) \<and> (\<forall>s n w. f (snd (net_read_some net s n w)) = f w)"

lemma exchange_leaves:
  assumes "net_leaves net f"
  shows "f (snd (provider_exchange R net now body s w)) = f w"
proof (cases "http_payload_to_dubbo_parameters R body")
  case (Inl e)
  then show ?thesis by (simp add: provider_exchange_def)
next
  case (Inr args)
  obtain ec w1 where wr: "net_write net s (bytes_of (wire_text R args)) w = (ec, w1)" by force
  obtain ec2 bs w2 where rd: "net_read_some net s buffer_size w1 = ((ec2, bs), w2)" by (metis surj_pair)
  have "f w1 = f w" "f w2 = f w1"
    using assms wr rd unfolding net_leaves_def by (metis snd_conv)+
  then show ?thesis
    by (cases "c_string (filled_buffer bs)")
       (auto simp: provider_exchange_def read_answer_def Inr wr rd Let_def split: option.splits)
qed

lemma provider_ready_request:
  assumes "provider_ready fresh p" and "net_leaves net f"
  shows "\<exists>r p' w'. provider_async_request R net now fresh req p w = Some (r, p', w') \<and>
    provider_ready fresh p' \<and> f w' = f w"
proof -
  obtain a rest c where p: "pool_ok AGENT_CONN_POOL_SIZE (prov_conns p)" "objects (prov_conns p) fresh = None"
    "free_list (prov_conns p) = a # rest" "objects (prov_conns p) a = Some c" "connpool_latency p < 10000"
    using assms(1) by (auto simp: provider_ready_def split: list.splits)
  have c: "objects (prov_conns p) a = Some \<lparr>conn = conn c\<rparr>" using p(4) by simp
  have "cells (buffer (prov_conns p)) fresh = None" using p(2) by (simp add: objects_def)
  from provider_request_on_free [OF p(1) this p(3) c, of R net now req w] p
    exchange_leaves [OF assms(2), of R now "req_body req" "conn c" w]
  show ?thesis by (auto simp: provider_ready_def)
qed

lemma handle_request_ready:
  assumes "selector_ready fresh sel" and "net_leaves net f"
  shows "\<exists>r sel' w'. handle_request R net now fresh req sel w = Some (r, sel', w') \<and>
    selector_ready fresh sel' \<and> f w' = f w"
proof (cases "req_method req = Post")
  case False
  then show ?thesis using assms(1) by (simp add: handle_request_def)
next
  case True
  have ok: "selector_ok sel" using assms(1) by (simp add: selector_ready_def)
  let ?i = "robin_queue sel ! (curr sel mod length (robin_queue sel))"
  define sel1 where "sel1 = sel\<lparr>curr := curr sel mod length (robin_queue sel) + 1\<rparr>"
  have q: "query_once sel = (Inr (Some ?i), sel1)" "selector_ok sel1" "providers sel1 = providers sel"
    using query_once_picks [OF ok] selector_ok_query [OF ok] by (simp_all add: sel1_def)
  have i: "?i < length (providers sel)"
    using ok by (simp add: selector_ok_def)
  then have ready: "provider_ready fresh (providers sel1 ! ?i)"
    using assms(1) q(3) by (simp add: selector_ready_def)
  let ?req = "req\<lparr>req_user_agent := Some ''rHttp'', req_host := Some (hostname (providers sel1 ! ?i))\<rparr>"
  obtain r p' w' where r: "provider_async_request R net now fresh ?req (providers sel1 ! ?i) w = Some (r, p', w')"
    "provider_ready fresh p'" "f w' = f w"
    using provider_ready_request [OF ready assms(2)] by blast
  have all: "\<forall>p \<in> set ((providers sel1)[?i := p']). provider_ready fresh p"
    using assms(1) r(2) q(3) set_update_subset_insert [of "providers sel1" ?i p']
    by (auto simp: selector_ready_def)
  have "selector_ready fresh (sel1\<lparr>providers := (providers sel1)[?i := p']\<rparr>)"
    using all q(2) by (simp add: selector_ready_def selector_ok_def provider_ready_def)
  then show ?thesis using True q(1) r by (simp add: handle_request_def Let_def)
qed

lemma handles_all_ready:
  fixes net :: "('s, 'p, 'w) net"
  assumes "net_leaves net (\<lambda>w. (incoming w, outgoing w))"
  shows "handles_all (selector_ready fresh) (handle_request R net now fresh) incoming outgoing"
  unfolding handles_all_def
proof (intro allI impI)
  fix req and sel :: "'s provider_selector" and w :: 'w
  assume "selector_ready fresh sel"
  from handle_request_ready [OF this assms, of R now req w]
  show "case handle_request R net now fresh req sel w of None \<Rightarrow> False
      | Some (r, q1, w1) \<Rightarrow> selector_ready fresh q1 \<and> incoming w1 = incoming w \<and> outgoing w1 = outgoing w"
    by auto
qed

section \<open>Properties\<close>

text \<open>
  C25: every response the agent gives is marked ``rHttp''; it keeps the connection alive exactly when it
  is the provider's 200 and the request wanted it; and a request that is not a POST (a GET too) is
  answered with 400 before any provider is picked.
\<close>

theorem consumer_response_shape:
  assumes "handle_request R net now fresh req sel w = Some (Inr res, sel', w')"
  shows "res_server res = Some ''rHttp'' \<and>
    (res_keep_alive res \<longleftrightarrow> res_status res = Ok_200 \<and> req_keep_alive req) \<and>
    (req_method req \<noteq> Post \<longrightarrow> res = resp_400 \<and> sel' = sel \<and> w' = w) \<and>
    (res_status res = Bad_Request_400 \<longrightarrow> w' = w)"
  using assms
proof (cases rule: handle_request_cases)
  case (forwarded i sel1 answer prov)
  then show ?thesis
    using provider_response_status [OF forwarded(3)] by (auto simp: req_keep_alive_def)
qed auto

theorem consumer_response_shape_witness:
  "handle_request plain_rlib (memory_net (\<lambda>_. [])) (\<lambda>_. 0) 9
       (sample_request\<lparr>req_method := Other_Verb ''GET''\<rparr>) sample_selector one_socket =
     Some (Inr resp_400, sample_selector, one_socket) \<and> \<not> res_keep_alive resp_400"
proof -
  have get: "handle_request plain_rlib (memory_net (\<lambda>_. [])) (\<lambda>_. 0) 9
       (sample_request\<lparr>req_method := Other_Verb ''GET''\<rparr>) sample_selector one_socket =
     Some (Inr resp_400, sample_selector, one_socket)"
    by (simp add: handle_request_def)
  from consumer_response_shape [OF get] get show ?thesis by simp
qed

text \<open>
  C26: while every provider has a free connection, a request gets a response or an exception, never waits,
  and every provider has a free connection again after it: no connection is lost by any answer, refusal
  or exception.
\<close>

theorem handle_request_loses_no_connection:
  assumes "selector_ready fresh sel"
  shows "\<exists>r sel' w'. handle_request R net now fresh req sel w = Some (r, sel', w') \<and>
    selector_ready fresh sel'"
proof -
  have "net_leaves net (\<lambda>_. ())" by (simp add: net_leaves_def)
  from handle_request_ready [OF assms this] show ?thesis by blast
qed

lemma sample_selector_ready: "selector_ready 9 sample_selector"
  using sample_selector_ok sample_provider_ready
  by (auto simp: selector_ready_def provider_ready_def sample_selector_def)
     (auto simp: sample_provider_def objects_def)

theorem handle_request_loses_no_connection_witness:
  "\<exists>r sel' w'. handle_request plain_rlib (memory_net (\<lambda>_. bytes_of ''42'')) (\<lambda>_. 0) 9 sample_request
      sample_selector one_socket = Some (r, sel', w') \<and> selector_ready 9 sel'"
  by (rule handle_request_loses_no_connection [OF sample_selector_ready])


text \<open>A connection in memory: the requests to come and the responses written.\<close>

definition script_io :: "(unit, http_request list \<times> http_response list) http_io" where
  "script_io =
     \<lparr>http_read = (\<lambda>_ (reqs, out). case reqs of
          [] \<Rightarrow> (Inl \<lparr>ec_kind = End_Of_Stream, ec_message = ''end of stream''\<rparr>, ([], out))
        | req # rest \<Rightarrow> (Inr req, (rest, out))),
      http_write = (\<lambda>_ res (reqs, out). (None, (reqs, out @ [res]))),
      http_shutdown = (\<lambda>_ w. (None, w))\<rparr>"

lemma script_io_laws: "session_laws script_io sock fst snd"
  by (auto simp: session_laws_def script_io_def split: list.splits)

text \<open>A network on which nothing ever comes back.\<close>

definition silent_net :: "(unit, unit, 'w) net" where
  "silent_net =
     \<lparr>net_socket = (\<lambda>w. ((), w)), net_resolve = (\<lambda>_ _. return ()), net_connect = (\<lambda>_ _. return ()),
      net_async_resolve = (\<lambda>_ _ w. ((None, ()), w)), net_async_connect = (\<lambda>_ _ w. (None, w)),
      net_write = (\<lambda>_ _ w. (None, w)), net_read = (\<lambda>_ _ w. (Inl eof_code, w)),
      net_read_some = (\<lambda>_ _ w. ((Some eof_code, []), w)), net_sync_write = (\<lambda>_ _. return ()),
      net_sync_read = (\<lambda>_ _. throw (boost_fatal eof_code)), net_shutdown_send = (\<lambda>_ w. (None, w)),
      net_shutdown_both = (\<lambda>_ w. (None, w))\<rparr>"

definition silent_selector :: "unit provider_selector" where
  "silent_selector =
     \<lparr>providers = [\<lparr>hostname = ''provider-small'', port_of = 30000, prov_conns = single_pool 5 \<lparr>conn = ()\<rparr>,
        latency = 50000, connpool_latency = 1\<rparr>], robin_queue = [0], curr = 0\<rparr>"


text \<open>
  The number of threads: for a positive \<open>--threads\<close> that the library can reserve, exactly that many
  threads run the io_context; zero or a negative number becomes a huge \<open>size_t\<close>, and the reservation
  throws where one thread would do.
\<close>

theorem listen_threads:
  assumes "make_address listen_addr = Inr endpoint"
    and "2 ^ 31 \<le> max_size" and "max_size < 2 ^ 63" and "- (2 ^ 31) \<le> agent_threads agent" and "agent_threads agent < 2 ^ 31"
  shows "consumer_listen make_address max_size listen_addr agent =
    (if 0 < agent_threads agent then Inr (endpoint, nat (agent_threads agent))
     else Inl (Length_Error ''vector::reserve''))"
proof -
  let ?t = "agent_threads agent"
  have word: "word_of_int ?t - 1 = (word_of_int (?t - 1) :: 64 word)" by simp
  have u: "unat (word_of_int ?t - 1 :: 64 word) = nat ((?t - 1) mod 2 ^ 64)"
    unfolding word by (simp only: unat_eq_nat_uint uint_word_of_int) simp
  show ?thesis
  proof (cases "0 < ?t")
    case True
    then have "(?t - 1) mod 2 ^ 64 = ?t - 1" using assms(5) by simp
    then have "unat (word_of_int ?t - 1 :: 64 word) \<le> max_size" using assms(2,5) True unfolding u by simp
    then show ?thesis
      using True assms(1) by (simp add: consumer_listen_def reserve_threads_def extra_threads_def nat_diff_distrib)
  next
    case False
    have "(?t - 1) mod 2 ^ 64 = (?t - 1 + 2 ^ 64) mod 2 ^ 64" by (rule mod_add_self2 [symmetric])
    also have "\<dots> = ?t - 1 + 2 ^ 64" using False assms(4) by (intro mod_pos_pos_trivial) simp_all
    finally have "max_size < unat (word_of_int ?t - 1 :: 64 word)" using assms(3,4) unfolding u by simp
    then show ?thesis using False assms(1) by (simp add: consumer_listen_def reserve_threads_def)
  qed
qed

theorem listen_threads_witness:
  "consumer_listen Inr (2 ^ 60) ''0.0.0.0'' \<lparr>selector = sample_selector, agent_threads = 4\<rparr> = Inr (''0.0.0.0'', 4) \<and>
   consumer_listen Inr (2 ^ 60) ''0.0.0.0'' \<lparr>selector = sample_selector, agent_threads = 0\<rparr> =
     Inl (Length_Error ''vector::reserve'')"
  using listen_threads [of Inr "''0.0.0.0''" "''0.0.0.0''" "2 ^ 60" "\<lparr>selector = sample_selector, agent_threads = 4\<rparr>"]
    listen_threads [of Inr "''0.0.0.0''" "''0.0.0.0''" "2 ^ 60" "\<lparr>selector = sample_selector, agent_threads = 0\<rparr>"]
  by simp

end
