(* ===== verification/Provider_Agent.thy ===== *)
theory Provider_Agent
  imports Dubbo_Client Dubbo_Args Etcd_Service
begin

text \<open>
  \<open>provider::agent\<close> of src/provider_agent.cc: the constructor, which registers the agent in etcd,
  \<open>session_consumer\<close>, which reads the arguments of one call from the consumer agent, passes them to the
  Dubbo server and writes the value back, over and over, and \<open>handle_request\<close>, the HTTP version of the
  same, which nothing calls any more. The heartbeat function has an empty body and is left out.
\<close>

section \<open>The constructor\<close>

record 's provider_agent =
  provider_addr :: string
  provider_port :: "16 word"
  dubbo :: "'s dubbo_client"

text \<open>The heartbeat the comments announce is an empty function; registering is one append.\<close>

definition provider_agent_new ::
  "rlib \<Rightarrow> 'w etcd_client \<Rightarrow> string \<Rightarrow> 16 word \<Rightarrow> string \<Rightarrow> 16 word \<Rightarrow> ('s provider_agent, 'w) step" where
  "provider_agent_new R cli my_addr listen_port prov_addr prov_port =
     and_then (etcd_append R cli ''server'' (rl_format R ''{}:{}'' [my_addr, decimal (unat listen_port)]))
       (\<lambda>_. return
         \<lparr>provider_addr = prov_addr, provider_port = prov_port,
          dubbo = new_dubbo_client prov_addr prov_port\<rparr>)"

section \<open>The session with a consumer agent\<close>

text \<open>
  The text of the buffer cut at line ends; four pieces are used unchecked, so with fewer the vector is
  read past its end.
\<close>

definition call_args :: "rlib \<Rightarrow> string \<Rightarrow> string list result" where
  "call_args R line =
     (let req_args = rl_split R LF line
      in if length req_args < 4 then Inl (Undefined Out_Of_Range) else Inr (take 4 req_args))"

text \<open>
  One turn of the loop, in two parts: what is done with the line that was read, and the read. The error
  code of the read counts unless it is the end of the stream; the one of the write is not looked at.
  \<open>None\<close>: the coroutine waits for a connection to the Dubbo server.
\<close>

definition serve_line ::
  "rlib \<Rightarrow> ('s, 'p, 'w) net \<Rightarrow> addr \<Rightarrow> 's \<Rightarrow> string \<Rightarrow> 's dubbo_client \<Rightarrow> 'w \<Rightarrow>
   (unit result \<times> 's dubbo_client \<times> 'w) option" where
  "serve_line R net fresh sock line d w =
     (case call_args R line of
        Inl e \<Rightarrow> Some (Inl e, d, w)
      | Inr req_args \<Rightarrow>
          (case async_request R net fresh (req_args ! 0) (req_args ! 1) (req_args ! 2) (req_args ! 3) d w of
             None \<Rightarrow> None
           | Some (Inl e, d1, w1) \<Rightarrow> Some (Inl e, d1, w1)
           | Some (Inr result, d1, w1) \<Rightarrow>
               (if result_status result \<noteq> OK then Some (Inl (Runtime_Error ''dubbo not ok.''), d1, w1)
                else Some (Inr (), d1, snd (net_write net sock (bytes_of (result_value result)) w1)))))"

definition serve_call ::
  "rlib \<Rightarrow> ('s, 'p, 'w) net \<Rightarrow> addr \<Rightarrow> 's \<Rightarrow> 's dubbo_client \<Rightarrow> 'w \<Rightarrow>
   (unit result \<times> 's dubbo_client \<times> 'w) option" where
  "serve_call R net fresh sock d w =
     (let ((ec, bs), w1) = net_read_some net sock buffer_size w
      in case ec of
           Some code \<Rightarrow>
             (if ec_kind code \<noteq> Eof then Some (Inl (boost_fatal code), d, w1)
              else case c_string (filled_buffer bs) of
                  Inl e \<Rightarrow> Some (Inl e, d, w1)
                | Inr line \<Rightarrow> serve_line R net fresh sock line d w1)
         | None \<Rightarrow>
             (case c_string (filled_buffer bs) of
                Inl e \<Rightarrow> Some (Inl e, d, w1)
              | Inr line \<Rightarrow> serve_line R net fresh sock line d w1))"

text \<open>
  The loop ends only by an exception, which is caught and followed by the shutdown of the sending side
  (whose own failure is thrown out of the session), or by undefined behaviour, which nothing catches. A
  session that goes on for ever has the value \<open>None\<close>. \<open>alloc\<close> gives the address of a new connection.
\<close>

datatype call_session_end = Closed_After error | Shutdown_Failed error | Crashed ub

definition end_call_session ::
  "('s, 'p, 'w) net \<Rightarrow> 's \<Rightarrow> error \<Rightarrow> 'w \<Rightarrow> call_session_end \<times> 'w" where
  "end_call_session net sock e w =
     (case e of
        Undefined u \<Rightarrow> (Crashed u, w)
      | _ \<Rightarrow> (case net_shutdown_send net sock w of
               (None, w1) \<Rightarrow> (Closed_After e, w1)
             | (Some ec, w1) \<Rightarrow> (Shutdown_Failed (boost_fatal ec), w1)))"

partial_function (option) session_consumer ::
  "rlib \<Rightarrow> ('s, 'p, 'w) net \<Rightarrow> ('s conn_pool_coro \<Rightarrow> addr) \<Rightarrow> 's \<Rightarrow> 's dubbo_client \<Rightarrow> 'w \<Rightarrow>
   (call_session_end \<times> 's dubbo_client \<times> 'w) option" where
  "session_consumer R net alloc sock d w =
     Option.bind (serve_call R net (alloc (pconns d)) sock d w) (\<lambda>(r, d1, w1).
       case r of
         Inl e \<Rightarrow> (let (ending, w2) = end_call_session net sock e w1 in Some (ending, d1, w2))
       | Inr _ \<Rightarrow> session_consumer R net alloc sock d1 w1)"

section \<open>The HTTP version\<close>

text \<open>The parse of the body, written out a second time in this file.\<close>

fun collect_args :: "string list \<Rightarrow> string list \<Rightarrow> string list" where
  "collect_args dubbo_rpc_args [] = dubbo_rpc_args"
| "collect_args dubbo_rpc_args (kv_str # rest) =
     (case cut_at (CHR ''='') kv_str of
        None \<Rightarrow> collect_args dubbo_rpc_args rest
      | Some (key, val) \<Rightarrow>
          collect_args
            (if key = ''interface'' then dubbo_rpc_args[0 := val]
             else if key = ''method'' then dubbo_rpc_args[1 := val]
             else if key = ''parameterTypesString'' then dubbo_rpc_args[2 := val]
             else if key = ''parameter'' then dubbo_rpc_args[3 := val]
             else dubbo_rpc_args) rest)"

definition request_args :: "rlib \<Rightarrow> string \<Rightarrow> string list result" where
  "request_args R body =
     (let args = collect_args [[], [], [], []] (rl_split R (CHR ''&'') body);
          args = args[2 := rl_replace R ''%3B'' '';'' (rl_replace R ''%2F'' ''/'' (args ! 2))]
      in if args ! 0 = [] \<or> args ! 1 = [] \<or> args ! 2 = [] \<or> args ! 3 = []
         then Inl (Runtime_Error ''Required http argument not provided.'')
         else Inr args)"

definition plain_response :: "status \<Rightarrow> http_request \<Rightarrow> string \<Rightarrow> http_response" where
  "plain_response st req body = (new_response st (req_version req))
     \<lparr>res_server := Some ''rHttp'', res_content_type := Some ''text/plain'',
      res_connection := Some (req_keep_alive req), res_body := body\<rparr>"

definition provider_handle_request ::
  "rlib \<Rightarrow> ('s, 'p, 'w) net \<Rightarrow> addr \<Rightarrow> http_request \<Rightarrow> 's dubbo_client \<Rightarrow> 'w \<Rightarrow>
   (http_response result \<times> 's dubbo_client \<times> 'w) option" where
  "provider_handle_request R net fresh req d w =
     (if req_method req \<noteq> Post
      then Some (Inr (plain_response Bad_Request_400 req ''bad request''), d, w)
      else case request_args R (req_body req) of
          Inl e \<Rightarrow> Some (Inl e, d, w)
        | Inr args \<Rightarrow>
            (case async_request R net fresh (args ! 0) (args ! 1) (args ! 2) (args ! 3) d w of
               None \<Rightarrow> None
             | Some (Inl e, d1, w1) \<Rightarrow> Some (Inl e, d1, w1)
             | Some (Inr result, d1, w1) \<Rightarrow>
                 Some (Inr (if result_status result = OK
                            then plain_response Ok_200 req (result_value result)
                            else plain_response Internal_Server_Error_500 req ''Dubbo error.''), d1, w1)))"

section \<open>Listening\<close>

text \<open>
  \<open>listen_consumer\<close> opens, configures, binds and listens like the consumer agent and then accepts for
  ever, a session for each connection; \<open>listen\<close> runs the io_context on the calling thread alone.
\<close>

definition listen_consumer :: "'w acceptor \<Rightarrow> (unit, 'w) step" where
  "listen_consumer a =
     and_then (or_fatal (acc_open a)) (\<lambda>_.
     and_then (acc_reuse_address a) (\<lambda>_.
     and_then (or_fatal (acc_bind a)) (\<lambda>_.
     or_fatal (acc_listen a))))"

fun accept_calls :: "(error_code + 's) list \<Rightarrow> 's list" where
  "accept_calls [] = []"
| "accept_calls (Inl ec # outcomes) = accept_calls outcomes"
| "accept_calls (Inr sock # outcomes) = sock # accept_calls outcomes"

definition provider_listen :: "(string \<Rightarrow> 'e result) \<Rightarrow> string \<Rightarrow> 'e result" where
  "provider_listen make_address listen_addr = make_address listen_addr"

section \<open>The two parses\<close>

lemma collect_args_foldl: "collect_args args kvs = foldl parse_kv args kvs"
  by (induction kvs arbitrary: args) (auto simp: parse_kv_def split: option.splits)

lemma request_args_eq: "request_args R body = http_payload_to_dubbo_parameters R body"
proof -
  have four: "list_ex (\<lambda>s. s = []) xs \<longleftrightarrow> xs ! 0 = [] \<or> xs ! 1 = [] \<or> xs ! 2 = [] \<or> xs ! 3 = []"
    if "length xs = 4" for xs :: "string list"
    using that by (auto simp: numeral_eq_Suc length_Suc_conv)
  show ?thesis
    unfolding request_args_def http_payload_to_dubbo_parameters_def Let_def collect_args_foldl
    by (subst four) (simp_all add: foldl_parse_kv_length numeral_eq_Suc)
qed

section \<open>The HTTP responses\<close>

text \<open>
  Unlike the consumer agent, this one echoes the request's version and wish to keep the connection on
  every response, the 500 included.
\<close>

lemma provider_response_shape:
  assumes "provider_handle_request R net fresh req d w = Some (Inr res, d', w')"
  shows "res_server res = Some ''rHttp''" "res_version res = req_version req"
    "res_keep_alive res \<longleftrightarrow> req_keep_alive req"
    "req_method req \<noteq> Post \<Longrightarrow> res_status res = Bad_Request_400 \<and> d' = d \<and> w' = w"
  using assms
  by (auto simp: provider_handle_request_def plain_response_def new_response_def res_keep_alive_def
      http_keep_alive_def split: if_splits sum.splits option.splits)

section \<open>A turn of the loop\<close>

text \<open>What a turn keeps of the client: its pool is well formed, nothing is lent, ids only go up.\<close>

definition client_kept :: "'s dubbo_client \<Rightarrow> 's dubbo_client \<Rightarrow> bool" where
  "client_kept d d' \<longleftrightarrow>
     pool_ok DUBBO_CLI_CONN_POOL_SIZE (pconns d') \<and> lent (pconns d') = lent (pconns d) \<and>
     (\<exists>n. curr_request_id d' = curr_request_id d + of_nat n)"

lemma client_kept_refl: "pool_ok DUBBO_CLI_CONN_POOL_SIZE (pconns d) \<Longrightarrow> client_kept d d"
  unfolding client_kept_def by (auto intro: exI [of _ "0 :: nat"])

lemma client_kept_trans: "client_kept a b \<Longrightarrow> client_kept b c \<Longrightarrow> client_kept a c"
  unfolding client_kept_def by (auto simp: add.assoc simp flip: of_nat_add)

lemma serve_line_kept:
  assumes "pool_ok DUBBO_CLI_CONN_POOL_SIZE (pconns d)" and "cells (buffer (pconns d)) fresh = None"
    and "serve_line R net fresh sock line d w = Some (r, d', w')"
  shows "client_kept d d'"
proof (cases "call_args R line")
  case (Inl e)
  then show ?thesis using assms client_kept_refl by (auto simp: serve_line_def)
next
  case (Inr args)
  then obtain x w1 where
    "async_request R net fresh (args ! 0) (args ! 1) (args ! 2) (args ! 3) d w = Some (x, d', w1)"
    using assms(3) by (auto simp: serve_line_def split: option.splits sum.splits if_splits)
  note step = async_request_step [OF assms(1,2) this]
  then show ?thesis unfolding client_kept_def by (auto intro: exI [of _ "1 :: nat"])
qed

lemma serve_call_kept:
  assumes "pool_ok DUBBO_CLI_CONN_POOL_SIZE (pconns d)" and "cells (buffer (pconns d)) fresh = None"
    and "serve_call R net fresh sock d w = Some (r, d', w')"
  shows "client_kept d d'"
  using assms(3) client_kept_refl [OF assms(1)] serve_line_kept [OF assms(1,2)]
  by (auto simp: serve_call_def split: prod.splits option.splits sum.splits if_splits)

lemma session_consumer_kept:
  assumes "session_consumer R net alloc sock d w = Some y"
  shows "allocates alloc \<longrightarrow> pool_ok DUBBO_CLI_CONN_POOL_SIZE (pconns d) \<longrightarrow> client_kept d (fst (snd y))"
  using assms
proof (rule session_consumer.raw_induct [rotated], intro impI)
  fix loop and R net alloc sock and d :: "'a dubbo_client" and w y
  assume IH: "\<And>R net alloc sock d w y. loop R net alloc sock d w = Some y \<Longrightarrow> allocates alloc \<longrightarrow>
      pool_ok DUBBO_CLI_CONN_POOL_SIZE (pconns d) \<longrightarrow> client_kept d (fst (snd y))"
    and y: "Option.bind (serve_call R net (alloc (pconns d)) sock d w) (\<lambda>(r, d1, w1).
       case r of
         Inl e \<Rightarrow> (let (ending, w2) = end_call_session net sock e w1 in Some (ending, d1, w2))
       | Inr _ \<Rightarrow> loop R net alloc sock d1 w1) = Some y"
    and alloc: "allocates alloc" and ok: "pool_ok DUBBO_CLI_CONN_POOL_SIZE (pconns d)"
  obtain r d1 w1 where c: "serve_call R net (alloc (pconns d)) sock d w = Some (r, d1, w1)"
    using y by (cases "serve_call R net (alloc (pconns d)) sock d w") auto
  have kept: "client_kept d d1"
    using serve_call_kept [OF ok _ c] alloc ok by (simp add: allocates_def)
  then have ok1: "pool_ok DUBBO_CLI_CONN_POOL_SIZE (pconns d1)" by (simp add: client_kept_def)
  show "client_kept d (fst (snd y))"
  proof (cases r)
    case (Inl e)
    then show ?thesis using y c kept by (auto split: prod.splits)
  next
    case (Inr u)
    then have "loop R net alloc sock d1 w1 = Some y" using y c by simp
    from IH [OF this] alloc ok1 have "client_kept d1 (fst (snd y))" by blast
    with kept show ?thesis by (rule client_kept_trans)
  qed
qed

section \<open>The line of a call\<close>

lemma read_line_args:
  assumes "rlib_laws R" and "length args = 4" and "\<forall>a \<in> set args. LF \<notin> set a \<and> CHR 0x00 \<notin> set a"
  shows "call_args R (wire_text R args) = Inr args"
proof -
  have "split_on LF (intercalate [LF] args) = args"
    using assms(2,3) by (intro split_on_intercalate) auto
  then show ?thesis
    using assms(2) by (simp add: call_args_def wire_text_def rl_split [OF assms(1)] rl_join [OF assms(1)])
qed

lemma read_line_served:
  assumes "rlib_laws R" and "length args = 4" and "\<forall>a \<in> set args. LF \<notin> set a \<and> CHR 0x00 \<notin> set a"
    and "length (wire_text R args) < buffer_size"
    and "net_read_some net sock buffer_size w = ((None, bytes_of (wire_text R args)), w1)"
  shows "serve_call R net fresh sock d w = serve_line R net fresh sock (wire_text R args) d w1"
proof -
  have "CHR 0x00 \<notin> set (intercalate [LF] args)"
    using assms(3) set_intercalate [of "[LF]" args] by auto
  then have "c_string (filled_buffer (bytes_of (wire_text R args))) = Inr (wire_text R args)"
    using assms(4) by (intro c_string_bytes_of) (simp_all add: wire_text_def rl_join [OF assms(1)])
  then show ?thesis using assms(5) by (simp add: serve_call_def)
qed

section \<open>Properties\<close>

text \<open>
  The line the consumer agent sends for four arguments is understood: the provider agent makes the
  Dubbo request for exactly those arguments, in their order, and an answer with status OK is written
  back as it is. (No line feed or zero byte in the arguments, and less than 2048 bytes in all.)
\<close>

theorem call_reaches_dubbo:
  assumes "rlib_laws R" and "length args = 4" and "\<forall>a \<in> set args. LF \<notin> set a \<and> CHR 0x00 \<notin> set a"
    and "length (wire_text R args) < buffer_size"
    and "net_read_some net sock buffer_size w = ((None, bytes_of (wire_text R args)), w1)"
    and "async_request R net fresh (args ! 0) (args ! 1) (args ! 2) (args ! 3) d w1 = Some (Inr result, d1, w2)"
    and "result_status result = OK"
  shows "serve_call R net fresh sock d w =
    Some (Inr (), d1, snd (net_write net sock (bytes_of (result_value result)) w2))"
  using read_line_served [OF assms(1-5)] read_line_args [OF assms(1-3)] assms(6,7)
  by (simp add: serve_line_def)

text \<open>A Dubbo server that answers 42 with status \<open>st\<close>, and a consumer agent that has sent one call.\<close>

definition sample_net :: "byte \<Rightarrow> (nat, unit, memory) net" where
  "sample_net st = memory_net (server_sends
     (header_bytes ((sample_answer_header 5)\<lparr>hdr_status := st\<rparr>) @ bytes_of (answer_text 1 ''42'')))"

definition call_arrived :: memory where
  "call_arrived = \<lparr>arrived = (\<lambda>_. [])(1 := bytes_of ''S\<newline>hash\<newline>T\<newline>x''), sent = (\<lambda>_. []), sockets = 2\<rparr>"

lemma sample_server_answers:
  assumes "arrived w 0 = []" and "sent w 0 = []" and "fresh \<noteq> 5"
  shows "\<exists>c' w'. async_request plain_rlib (sample_net st) fresh svc m types arg sample_client w =
    Some (Inr \<lparr>result_status = status_of st, type_of_result = RESPONSE_VALUE, result_value = ''42''\<rparr>, c', w')"
proof -
  let ?payload = "request_payload plain_rlib svc m types arg"
  let ?rq = "request_header (curr_request_id sample_client) ?payload"
  let ?h = "(sample_answer_header 5)\<lparr>hdr_status := st\<rparr>"
  let ?body = "bytes_of (answer_text 1 ''42'')"
  have "length ?payload > 0" using request_payload_not_Nil [OF plain_rlib_laws] by simp
  then obtain v where v: "request_sent (sample_net st) 0 ?rq ?payload w v" "arrived v 0 = header_bytes ?h @ ?body @ []"
    using assms(1,2)
    by (auto simp: request_sent_def sample_net_def memory_net_def memory_write_def server_sends_def)
  have len: "length ?body = 5" by (simp add: answer_text_def decimal.simps)
  have "unat (byte_swap (data_length ?h)) = length ?body" by (simp only: len) (simp add: sample_answer_header_def)
  then obtain w' where x: "exchange plain_rlib (sample_net st) ?rq ?payload 0 w =
      (answer_result plain_rlib ?h ?body, w')"
    using exchange_answered [OF memory_net_laws memory_net_delivers, of "server_sends (header_bytes ?h @ ?body)"
        0 ?rq ?payload w v ?h ?body "[]" plain_rlib] v len
    by (auto simp: sample_net_def)
  have r: "answer_result plain_rlib ?h ?body = Inr \<lparr>result_status = status_of st,
      type_of_result = RESPONSE_VALUE, result_value = ''42''\<rparr>"
    using answer_result_text [OF plain_rlib_laws, of ?h 1 "''42''"]
    by (simp add: sample_answer_header_def result_type_of_def)
  have "cells (buffer (pconns sample_client)) fresh = None" using assms(3) by (simp add: sample_client_def)
  from async_request_on_free [OF sample_client_ready(1) this sample_client_ready(3,4) refl x] r
  show ?thesis by auto
qed

lemma sample_call_read:
  "net_read_some (sample_net st) 1 buffer_size call_arrived =
     ((None, bytes_of ''S\<newline>hash\<newline>T\<newline>x''), call_arrived\<lparr>arrived := \<lambda>_. []\<rparr>)"
  by (simp add: sample_net_def memory_net_def call_arrived_def buffer_size_def fun_upd_idem) (simp add: bytes_of_def)

theorem call_reaches_dubbo_witness:
  "\<exists>d1 w'. serve_call plain_rlib (sample_net 20) 9 1 sample_client call_arrived = Some (Inr (), d1, w')"
proof -
  have wire: "wire_text plain_rlib [''S'', ''hash'', ''T'', ''x''] = ''S\<newline>hash\<newline>T\<newline>x''"
    by (simp add: wire_text_def rl_join [OF plain_rlib_laws])
  let ?w = "call_arrived\<lparr>arrived := \<lambda>_. []\<rparr>"
  obtain d1 w2 where "async_request plain_rlib (sample_net 20) 9 ''S'' ''hash'' ''T'' ''x'' sample_client ?w =
      Some (Inr \<lparr>result_status = OK, type_of_result = RESPONSE_VALUE, result_value = ''42''\<rparr>, d1, w2)"
    using sample_server_answers [of ?w 9 20 "''S''" "''hash''" "''T''" "''x''"]
    by (auto simp: call_arrived_def status_of_def)
  then show ?thesis
    using call_reaches_dubbo [OF plain_rlib_laws, of "[''S'', ''hash'', ''T'', ''x'']" "sample_net 20" 1
        call_arrived ?w 9 sample_client _ d1 w2] sample_call_read [of 20]
    by (simp add: wire buffer_size_def)
qed

text \<open>
  A call whose answer is not OK ends the session: nothing is written back, the exception is caught and
  the sending side shut down, so the consumer agent sees its connection close.
\<close>

theorem failed_call_closes_session:
  assumes "net_read_some net sock buffer_size w = ((None, bs), w1)"
    and "c_string (filled_buffer bs) = Inr line" and "call_args R line = Inr args"
    and "async_request R net (alloc (pconns d)) (args ! 0) (args ! 1) (args ! 2) (args ! 3) d w1 =
      Some (Inr result, d1, w2)"
    and "result_status result \<noteq> OK" and "net_shutdown_send net sock w2 = (None, w3)"
  shows "session_consumer R net alloc sock d w = Some (Closed_After (Runtime_Error ''dubbo not ok.''), d1, w3)"
proof -
  have "serve_call R net (alloc (pconns d)) sock d w = Some (Inl (Runtime_Error ''dubbo not ok.''), d1, w2)"
    using assms(1-5) by (simp add: serve_call_def serve_line_def)
  then show ?thesis
    by (subst session_consumer.simps) (simp add: end_call_session_def assms(6))
qed

theorem failed_call_closes_session_witness:
  "\<exists>d1 w3. session_consumer plain_rlib (sample_net 80) above_all 1 sample_client call_arrived =
     Some (Closed_After (Runtime_Error ''dubbo not ok.''), d1, w3)"
proof -
  let ?w = "call_arrived\<lparr>arrived := \<lambda>_. []\<rparr>" and ?line = "''S\<newline>hash\<newline>T\<newline>x''"
  have fresh: "above_all (pconns sample_client) \<noteq> 5"
    by (simp add: above_all_def sample_client_def single_pool_def)
  obtain d1 w2 where d1: "async_request plain_rlib (sample_net 80) (above_all (pconns sample_client))
      ''S'' ''hash'' ''T'' ''x'' sample_client ?w =
      Some (Inr \<lparr>result_status = SERVER_ERROR, type_of_result = RESPONSE_VALUE, result_value = ''42''\<rparr>, d1, w2)"
    using sample_server_answers [OF _ _ fresh, where w = ?w and st = 80 and svc = "''S''" and m = "''hash''" and types = "''T''" and arg = "''x''"]
    by (auto simp: call_arrived_def status_of_def)
  have "c_string (filled_buffer (bytes_of ?line)) = Inr ?line"
    by (rule c_string_bytes_of) (simp_all add: buffer_size_def)
  moreover have "call_args plain_rlib ?line = Inr [''S'', ''hash'', ''T'', ''x'']"
    by (simp add: call_args_def rl_split [OF plain_rlib_laws])
  moreover have "net_shutdown_send (sample_net 80) 1 w2 = (None, w2)"
    by (simp add: sample_net_def memory_net_def)
  ultimately show ?thesis
    using failed_call_closes_session [OF sample_call_read, where alloc = above_all and d = sample_client] d1 by fastforce
qed

text \<open>
  C34: the session takes one read for one call. A read that brings fewer than three line feeds, because the
  line came in pieces or the consumer agent closed the connection (the end of the stream is let through
  as if a line had come), crashes the agent: the second to the fourth argument are taken from the pieces of
  the buffer unchecked, past the end of the vector.
\<close>

theorem short_read_crashes_session:
  assumes "rlib_laws R" and "net_read_some net sock buffer_size w = ((ec, bs), w1)"
    and "\<forall>code. ec = Some code \<longrightarrow> ec_kind code = Eof"
    and "c_string (filled_buffer bs) = Inr line" and "count_list line LF < 3"
  shows "session_consumer R net alloc sock d w = Some (Crashed Out_Of_Range, d, w1)"
proof -
  have "call_args R line = Inl (Undefined Out_Of_Range)"
    using assms(5) by (simp add: call_args_def rl_split [OF assms(1)] length_split_on)
  then have "serve_call R net (alloc (pconns d)) sock d w = Some (Inl (Undefined Out_Of_Range), d, w1)"
    using assms(2-4) by (simp add: serve_call_def serve_line_def split: option.splits)
  then show ?thesis by (subst session_consumer.simps) (simp add: end_call_session_def)
qed

theorem short_read_crashes_session_witness:
  "\<exists>w1. session_consumer plain_rlib (memory_net (\<lambda>_. [])) above_all 1 sample_client
     (call_arrived\<lparr>arrived := (\<lambda>_. [])(1 := bytes_of ''S\<newline>hash'')\<rparr>) = Some (Crashed Out_Of_Range, sample_client, w1)"
proof -
  let ?w = "call_arrived\<lparr>arrived := (\<lambda>_. [])(1 := bytes_of ''S\<newline>hash'')\<rparr>"
  obtain w1 where "net_read_some (memory_net (\<lambda>_. [])) 1 buffer_size ?w = ((None, bytes_of ''S\<newline>hash''), w1)"
    by (simp add: memory_net_def buffer_size_def) (simp add: bytes_of_def)
  moreover have "c_string (filled_buffer (bytes_of ''S\<newline>hash'')) = Inr ''S\<newline>hash''"
    by (rule c_string_bytes_of) (simp_all add: buffer_size_def)
  ultimately show ?thesis
    using short_read_crashes_session [OF plain_rlib_laws, of "memory_net (\<lambda>_. [])" 1 ?w None
        "bytes_of ''S\<newline>hash''" w1 "''S\<newline>hash''" above_all sample_client] by simp
qed

text \<open>
  When the consumer agent closes its connection, the session does not end, it crashes: the end of
  the stream is let through as if a line had come, the empty buffer has one piece, and the second to the
  fourth are read past the end of the vector.
\<close>

theorem end_of_stream_crashes_session:
  assumes "rlib_laws R" and "net_read_some net sock buffer_size w = ((Some ec, []), w1)" and "ec_kind ec = Eof"
  shows "session_consumer R net alloc sock d w = Some (Crashed Out_Of_Range, d, w1)"
proof -
  have "c_string (filled_buffer []) = Inr []"
    using c_string_filled [of "[]"] by (simp add: buffer_size_def string_of_def)
  moreover have "call_args R [] = Inl (Undefined Out_Of_Range)"
    by (simp add: call_args_def rl_split [OF assms(1)])
  ultimately have "serve_call R net (alloc (pconns d)) sock d w = Some (Inl (Undefined Out_Of_Range), d, w1)"
    using assms(2,3) by (simp add: serve_call_def serve_line_def)
  then show ?thesis by (subst session_consumer.simps) (simp add: end_call_session_def)
qed

theorem end_of_stream_crashes_session_witness:
  "session_consumer plain_rlib (memory_net (\<lambda>_. [])) above_all 0 sample_client no_bytes_yet =
     Some (Crashed Out_Of_Range, sample_client, no_bytes_yet)"
proof -
  have "net_read_some (memory_net (\<lambda>_. [])) 0 buffer_size no_bytes_yet = ((Some eof_code, []), no_bytes_yet)"
    by (simp add: memory_net_def no_bytes_yet_def)
  from end_of_stream_crashes_session [OF plain_rlib_laws this] show ?thesis by (simp add: eof_code_def)
qed



text \<open>
  The two places that parse a request body, in the consumer agent and in the provider agent, agree on
  every body, also on the ones they reject.
\<close>

theorem provider_parses_like_consumer:
  "request_args R body = http_payload_to_dubbo_parameters R body"
  by (rule request_args_eq)

end
