(* ===== verification/Two_Agents.thy ===== *)
theory Two_Agents
  imports Consumer_Agent Provider_Agent
begin

text \<open>
  The two agents put together: a consumer agent whose network leads to a provider agent, which runs
  \<open>session_consumer\<close> (src/provider_agent.cc) on the other end of every pooled connection of
  \<open>provider_info\<close> (src/provider_selector.hpp). A write of the consumer agent is what the session reads
  next, what the session writes is what the consumer agent reads, and a session that ends closes its
  connection. The Dubbo server and the network to it remain parameters.
\<close>

section \<open>The network of a session\<close>

text \<open>
  A session of the provider agent has one socket to the consumer agent, here two lists of bytes, beside
  those to the Dubbo server.
\<close>

datatype 's peer = Consumer_Side | Dubbo_Side 's

record 'v session_world =
  dubbo_world :: 'v
  line_in :: "byte list"
  line_out :: "byte list"

definition on_dubbo :: "('v \<Rightarrow> 'a \<times> 'v) \<Rightarrow> 'v session_world \<Rightarrow> 'a \<times> 'v session_world" where
  "on_dubbo f w = (let (x, v) = f (dubbo_world w) in (x, w\<lparr>dubbo_world := v\<rparr>))"

definition side :: "('v session_world \<Rightarrow> 'a \<times> 'v session_world) \<Rightarrow> ('s \<Rightarrow> 'v \<Rightarrow> 'a \<times> 'v) \<Rightarrow> 's peer \<Rightarrow>
    'v session_world \<Rightarrow> 'a \<times> 'v session_world" where
  "side here there s = (case s of Consumer_Side \<Rightarrow> here | Dubbo_Side t \<Rightarrow> on_dubbo (there t))"

definition line_write :: "byte list \<Rightarrow> 'v session_world \<Rightarrow> 'v session_world" where
  "line_write bs w = w\<lparr>line_out := line_out w @ bs\<rparr>"

definition line_read :: "nat \<Rightarrow> 'v session_world \<Rightarrow> (error_code + byte list) \<times> 'v session_world" where
  "line_read n w =
     (if n \<le> length (line_in w) then (Inr (take n (line_in w)), w\<lparr>line_in := drop n (line_in w)\<rparr>)
      else (Inl eof_code, w))"

definition line_read_some ::
  "nat \<Rightarrow> 'v session_world \<Rightarrow> (error_code option \<times> byte list) \<times> 'v session_world" where
  "line_read_some n w =
     (if line_in w = [] then ((Some eof_code, []), w)
      else ((None, take n (line_in w)), w\<lparr>line_in := drop n (line_in w)\<rparr>))"

definition session_net :: "('s, 'p, 'v) net \<Rightarrow> ('s peer, 'p, 'v session_world) net" where
  "session_net dnet =
     \<lparr>net_socket = (\<lambda>w. let (s, w1) = on_dubbo (net_socket dnet) w in (Dubbo_Side s, w1)),
      net_resolve = (\<lambda>host port. on_dubbo (net_resolve dnet host port)),
      net_connect = (\<lambda>s p. side (return ()) (\<lambda>t. net_connect dnet t p) s),
      net_async_resolve = (\<lambda>host port. on_dubbo (net_async_resolve dnet host port)),
      net_async_connect = (\<lambda>s p. side (Pair None) (\<lambda>t. net_async_connect dnet t p) s),
      net_write = (\<lambda>s bs. side (\<lambda>w. (None, line_write bs w)) (\<lambda>t. net_write dnet t bs) s),
      net_read = (\<lambda>s n. side (line_read n) (\<lambda>t. net_read dnet t n) s),
      net_read_some = (\<lambda>s n. side (line_read_some n) (\<lambda>t. net_read_some dnet t n) s),
      net_sync_write = (\<lambda>s bs. side (\<lambda>w. (Inr (), line_write bs w)) (\<lambda>t. net_sync_write dnet t bs) s),
      net_sync_read = (\<lambda>s n. side (read_or_fatal (line_read n)) (\<lambda>t. net_sync_read dnet t n) s),
      net_shutdown_send = side (Pair None) (net_shutdown_send dnet),
      net_shutdown_both = side (Pair None) (net_shutdown_both dnet)\<rparr>"

section \<open>The network of the consumer agent\<close>

text \<open>
  The far end of the connections of one \<open>provider_info\<close>: the Dubbo client all sessions of the provider
  agent share, the world of its Dubbo server, the connections whose session has ended, and the bytes on
  their way back on each.
\<close>

record ('s, 'v) far_agent =
  far_client :: "'s peer dubbo_client"
  far_world :: 'v
  far_closed :: "nat set"
  far_out :: "nat \<Rightarrow> byte list"
  far_sockets :: nat

text \<open>
  One turn of the session on connection \<open>s\<close> with the bytes \<open>bs\<close> there to read. An exception ends the
  session and closes its connection; undefined behaviour ends the process, and all of them close. A
  session that waits for a connection to the Dubbo server (\<open>None\<close>) has not read yet.
\<close>

definition closed_after :: "unit result \<Rightarrow> nat \<Rightarrow> nat set \<Rightarrow> nat set" where
  "closed_after r s closed =
     (case r of Inr _ \<Rightarrow> closed | Inl (Undefined u) \<Rightarrow> UNIV | Inl e \<Rightarrow> insert s closed)"

definition session_turn ::
  "rlib \<Rightarrow> ('s, 'p, 'v) net \<Rightarrow> ('s peer conn_pool_coro \<Rightarrow> addr) \<Rightarrow> nat \<Rightarrow> byte list \<Rightarrow> ('s, 'v) far_agent \<Rightarrow>
   ('s, 'v) far_agent" where
  "session_turn R dnet alloc s bs far =
     (case serve_call R (session_net dnet) (alloc (pconns (far_client far))) Consumer_Side (far_client far)
             \<lparr>dubbo_world = far_world far, line_in = bs, line_out = []\<rparr> of
        None \<Rightarrow> far
      | Some (r, d, w) \<Rightarrow>
          far\<lparr>far_client := d, far_world := dubbo_world w, far_closed := closed_after r s (far_closed far),
              far_out := (far_out far)(s := far_out far s @ line_out w)\<rparr>)"

definition far_write ::
  "rlib \<Rightarrow> ('s, 'p, 'v) net \<Rightarrow> ('s peer conn_pool_coro \<Rightarrow> addr) \<Rightarrow> nat \<Rightarrow> byte list \<Rightarrow> ('s, 'v) far_agent \<Rightarrow>
   ('s, 'v) far_agent" where
  "far_write R dnet alloc s bs far = (if s \<in> far_closed far then far else session_turn R dnet alloc s bs far)"

definition far_read :: "nat \<Rightarrow> nat \<Rightarrow> ('s, 'v) far_agent \<Rightarrow> (error_code + byte list) \<times> ('s, 'v) far_agent" where
  "far_read s n far =
     (if n \<le> length (far_out far s)
      then (Inr (take n (far_out far s)), far\<lparr>far_out := (far_out far)(s := drop n (far_out far s))\<rparr>)
      else (Inl eof_code, far))"

definition far_read_some ::
  "nat \<Rightarrow> nat \<Rightarrow> ('s, 'v) far_agent \<Rightarrow> (error_code option \<times> byte list) \<times> ('s, 'v) far_agent" where
  "far_read_some s n far =
     (if far_out far s = [] then ((Some eof_code, []), far)
      else ((None, take n (far_out far s)), far\<lparr>far_out := (far_out far)(s := drop n (far_out far s))\<rparr>))"

definition agents_net ::
  "rlib \<Rightarrow> ('s, 'p, 'v) net \<Rightarrow> ('s peer conn_pool_coro \<Rightarrow> addr) \<Rightarrow> (nat, unit, ('s, 'v) far_agent) net" where
  "agents_net R dnet alloc =
     \<lparr>net_socket = (\<lambda>w. (far_sockets w, w\<lparr>far_sockets := far_sockets w + 1\<rparr>)),
      net_resolve = (\<lambda>_ _. return ()), net_connect = (\<lambda>_ _. return ()),
      net_async_resolve = (\<lambda>_ _ w. ((None, ()), w)), net_async_connect = (\<lambda>_ _. Pair None),
      net_write = (\<lambda>s bs w. (None, far_write R dnet alloc s bs w)), net_read = far_read,
      net_read_some = far_read_some,
      net_sync_write = (\<lambda>s bs w. (Inr (), far_write R dnet alloc s bs w)),
      net_sync_read = (\<lambda>s n. read_or_fatal (far_read s n)),
      net_shutdown_send = (\<lambda>_. Pair None), net_shutdown_both = (\<lambda>_. Pair None)\<rparr>"

section \<open>An exchange with the Dubbo server inside a session\<close>

text \<open>It is the exchange on the network to the server; the line to the consumer agent is not touched.\<close>

lemma on_dubbo_steps:
  "or_fatal (on_dubbo f) = on_dubbo (or_fatal f)" "read_or_fatal (on_dubbo g) = on_dubbo (read_or_fatal g)"
  "lift_result r = on_dubbo (lift_result r)"
  by (auto simp: fun_eq_iff or_fatal_def read_or_fatal_def on_dubbo_def split: prod.splits option.splits sum.splits)

lemma on_dubbo_and_then: "and_then (on_dubbo f) (\<lambda>x. on_dubbo (g x)) = on_dubbo (and_then f g)"
  by (auto simp: fun_eq_iff and_then_def on_dubbo_def split: prod.splits sum.splits)

lemma exchange_in_session:
  "exchange R (session_net dnet) rq payload (Dubbo_Side t) = on_dubbo (exchange R dnet rq payload t)"
proof -
  have io: "net_write (session_net dnet) (Dubbo_Side t) bs = on_dubbo (net_write dnet t bs)"
    "net_read (session_net dnet) (Dubbo_Side t) n = on_dubbo (net_read dnet t n)" for bs n
    by (simp_all add: session_net_def side_def)
  show ?thesis
    unfolding exchange_def [abs_def] io on_dubbo_steps(1,2)
    by (simp add: on_dubbo_steps(3) on_dubbo_and_then)
qed

section \<open>A turn of the session\<close>

text \<open>The next connection a pool lends is to \<open>s\<close>.\<close>

definition next_conn :: "nat \<Rightarrow> 's conn_pool_coro \<Rightarrow> 's \<Rightarrow> bool" where
  "next_conn m p s \<longleftrightarrow>
     pool_ok m p \<and> (\<exists>a rest. free_list p = a # rest \<and> objects p a = Some \<lparr>conn = s\<rparr>)"

text \<open>
  The Dubbo server on socket \<open>t\<close> receives the request for four arguments, made with the next id of the
  client, and answers with header \<open>h\<close>, type \<open>ty\<close> and value \<open>val\<close>.
\<close>

definition dubbo_answers ::
  "rlib \<Rightarrow> ('s, 'p, 'v) net \<Rightarrow> ('s \<Rightarrow> 'v \<Rightarrow> byte list) \<Rightarrow> 's \<Rightarrow> string list \<Rightarrow> ('s, 'v) far_agent \<Rightarrow>
   dubbo_header \<Rightarrow> nat \<Rightarrow> string \<Rightarrow> byte list \<Rightarrow> bool" where
  "dubbo_answers R dnet inbox t args far h ty val later \<longleftrightarrow>
     (\<exists>v. let payload = request_payload R (args ! 0) (args ! 1) (args ! 2) (args ! 3);
              rq = request_header (curr_request_id (far_client far)) payload
          in request_sent dnet t rq payload (far_world far) v \<and>
             inbox t v = header_bytes h @ bytes_of (answer_text ty val) @ later) \<and>
     hdr_magic h = dubbo_magic \<and> data_length h = byte_swap (of_nat (length (answer_text ty val))) \<and>
     length (answer_text ty val) \<le> 2 ^ 30 \<and> ty < 2 ^ 31"

text \<open>
  The next call of the agent runs on the connection \<open>t\<close> to its Dubbo server, in the world \<open>v\<close>: the pool lends
  it, or the pool has none free and room for one more (so it is when the agent has just started) and makes it.
\<close>

definition reaches_dubbo :: "('s, 'p, 'v) net \<Rightarrow> ('s, 'v) far_agent \<Rightarrow> 's \<Rightarrow> 'v \<Rightarrow> bool" where
  "reaches_dubbo dnet far t v \<longleftrightarrow>
     next_conn DUBBO_CLI_CONN_POOL_SIZE (pconns (far_client far)) (Dubbo_Side t) \<and> v = far_world far \<or>
     pool_ok DUBBO_CLI_CONN_POOL_SIZE (pconns (far_client far)) \<and>
     borrow_makes_one DUBBO_CLI_CONN_POOL_SIZE (pconns (far_client far)) \<and>
     quick_connect dnet (server_addr (far_client far)) (server_port (far_client far)) (far_world far) = (Inr t, v)"

lemma connect_in_session:
  assumes "quick_connect dnet addr port v = (Inr t, v1)"
  shows "quick_connect (session_net dnet) addr port \<lparr>dubbo_world = v, line_in = i, line_out = out\<rparr> =
    (Inr (Dubbo_Side t), \<lparr>dubbo_world = v1, line_in = i, line_out = out\<rparr>)"
proof -
  obtain s u where s: "net_socket dnet v = (s, u)" by force
  with assms obtain p u1 where p: "net_resolve dnet addr (decimal (unat port)) u = (Inr p, u1)"
    "net_connect dnet s p u1 = (Inr (), v1)" "s = t"
    by (auto simp: quick_connect_def and_then_eq_Inr)
  show ?thesis
    using s p by (simp add: quick_connect_def session_net_def on_dubbo_def and_then_def side_def)
qed

text \<open>The exchange on that connection is the outcome of the call, and the next call runs on it again.\<close>

lemma request_reaches:
  assumes "allocates alloc" and "reaches_dubbo dnet far t v" and "payload = request_payload R svc m types arg"
    and x: "exchange R dnet (request_header (curr_request_id (far_client far)) payload) payload t v = (r, v')"
  obtains d where "async_request R (session_net dnet) (alloc (pconns (far_client far))) svc m types arg (far_client far)
      \<lparr>dubbo_world = far_world far, line_in = [], line_out = []\<rparr> =
      Some (r, d, \<lparr>dubbo_world = v', line_in = [], line_out = []\<rparr>)"
    and "next_conn DUBBO_CLI_CONN_POOL_SIZE (pconns d) (Dubbo_Side t)"
proof -
  let ?d = "far_client far" and ?w = "\<lambda>v. \<lparr>dubbo_world = v, line_in = [], line_out = []\<rparr>"
  let ?rq = "request_header (curr_request_id ?d) payload"
  have ok: "pool_ok DUBBO_CLI_CONN_POOL_SIZE (pconns ?d)"
    using assms(2) by (auto simp: reaches_dubbo_def next_conn_def)
  have fresh: "cells (buffer (pconns ?d)) (alloc (pconns ?d)) = None" using assms(1) ok by (simp add: allocates_def)
  have x': "exchange R (session_net dnet) ?rq payload (Dubbo_Side t) (?w v) = (r, ?w v')"
    using x by (simp add: exchange_in_session on_dubbo_def)
  consider (lent) b rest where "free_list (pconns ?d) = b # rest" "objects (pconns ?d) b = Some \<lparr>conn = Dubbo_Side t\<rparr>"
      "v = far_world far"
    | (made) "borrow_makes_one DUBBO_CLI_CONN_POOL_SIZE (pconns ?d)"
      "quick_connect dnet (server_addr ?d) (server_port ?d) (far_world far) = (Inr t, v)"
    using assms(2) by (auto simp: reaches_dubbo_def next_conn_def)
  then show thesis
  proof cases
    case lent
    from async_request_on_free [OF ok fresh lent(1,2) assms(3) x'] lent that show thesis
      by (fastforce simp: next_conn_def)
  next
    case made
    from async_request_on_made [OF ok fresh made(1) connect_in_session [OF made(2)] assms(3) x'] that show thesis
      by (fastforce simp: next_conn_def)
  qed
qed

text \<open>Four arguments that cross both agents unchanged.\<close>

definition crossing_args :: "string list \<Rightarrow> bool" where
  "crossing_args args \<longleftrightarrow>
     length args = 4 \<and> [] \<notin> set args \<and>
     (\<forall>a \<in> set args. CHR ''&'' \<notin> set a \<and> LF \<notin> set a \<and> CHR 0x00 \<notin> set a) \<and>
     CHR ''%'' \<notin> set (args ! 2) \<and> length (intercalate [LF] args) < buffer_size"

lemma crossing_args_parsed:
  assumes "rlib_laws R" and "crossing_args args"
  shows "http_payload_to_dubbo_parameters R (form_body args) = Inr args"
proof -
  have "\<forall>i < 4. CHR ''&'' \<notin> set (args ! i)" using assms(2) nth_mem [of _ args] by (auto simp: crossing_args_def)
  then show ?thesis using form_body_parsed [OF assms(1), of args] assms(2) by (simp add: crossing_args_def)
qed

lemma line_of_args:
  assumes "rlib_laws R" and "crossing_args args"
  shows "length (wire_text R args) < buffer_size" "wire_text R args \<noteq> []"
    "\<forall>a \<in> set args. LF \<notin> set a \<and> CHR 0x00 \<notin> set a" "length args = 4"
proof -
  show "length (wire_text R args) < buffer_size" "length args = 4"
    "\<forall>a \<in> set args. LF \<notin> set a \<and> CHR 0x00 \<notin> set a"
    using assms by (auto simp: crossing_args_def wire_text_def rl_join)
  have "args \<noteq> []" "[] \<notin> set args" using assms(2) by (auto simp: crossing_args_def)
  then show "wire_text R args \<noteq> []" by (simp add: wire_text_def rl_join [OF assms(1)] intercalate_eq_Nil)
qed

lemma line_read_all:
  "length s < n \<Longrightarrow> s \<noteq> [] \<Longrightarrow>
   net_read_some (session_net dnet) Consumer_Side n \<lparr>dubbo_world = v, line_in = bytes_of s, line_out = out\<rparr> =
     ((None, bytes_of s), \<lparr>dubbo_world = v, line_in = [], line_out = out\<rparr>)"
  by (cases s) (simp_all add: session_net_def side_def line_read_some_def bytes_of_def)

text \<open>The request of a turn, and its outcome in the world of the session.\<close>

lemma session_request_answered:
  fixes far :: "('s, 'v) far_agent"
  assumes "rlib_laws R" and "stream_laws dnet inbox" and "delivers dnet inbox t" and "allocates alloc"
    and ready: "reaches_dubbo dnet far t v0"
    and answer: "dubbo_answers R dnet inbox t args (far\<lparr>far_world := v0\<rparr>) h ty val later" and "LF \<notin> set val"
  obtains d v where "async_request R (session_net dnet) (alloc (pconns (far_client far)))
      (args ! 0) (args ! 1) (args ! 2) (args ! 3) (far_client far) \<lparr>dubbo_world = far_world far, line_in = [], line_out = []\<rparr> =
      Some (Inr \<lparr>result_status = status_of (hdr_status h), type_of_result = result_type_of (of_nat ty),
                  result_value = val\<rparr>, d, \<lparr>dubbo_world = v, line_in = [], line_out = []\<rparr>)"
    and "inbox t v = later" and "next_conn DUBBO_CLI_CONN_POOL_SIZE (pconns d) (Dubbo_Side t)"
proof -
  let ?payload = "request_payload R (args ! 0) (args ! 1) (args ! 2) (args ! 3)"
  let ?rq = "request_header (curr_request_id (far_client far)) ?payload"
  obtain v where v: "request_sent dnet t ?rq ?payload v0 v"
    "inbox t v = header_bytes h @ bytes_of (answer_text ty val) @ later"
    and h: "hdr_magic h = dubbo_magic" "data_length h = byte_swap (of_nat (length (answer_text ty val)))"
    "length (answer_text ty val) \<le> 2 ^ 30" "ty < 2 ^ 31"
    using answer by (auto simp: dubbo_answers_def Let_def)
  have "unat (byte_swap (data_length h)) = length (bytes_of (answer_text ty val))"
    using h(2,3) by (simp add: unat_of_nat)
  then obtain v' where v': "exchange R dnet ?rq ?payload t v0 =
      (answer_result R h (bytes_of (answer_text ty val)), v')" "inbox t v' = later"
    using exchange_answered [OF assms(2,3) v, of R] h(3) by auto
  from request_reaches [OF assms(4) ready refl v'(1)] that v'(2) show thesis
    by (metis answer_result_text [OF assms(1) h(1,4) assms(7)])
qed

lemma session_turn_answered:
  fixes far :: "('s, 'v) far_agent"
  assumes "rlib_laws R" and "stream_laws dnet inbox" and "delivers dnet inbox t" and "allocates alloc"
    and ready: "reaches_dubbo dnet far t v0"
    and answer: "dubbo_answers R dnet inbox t args (far\<lparr>far_world := v0\<rparr>) h ty val later" and "LF \<notin> set val"
    and args: "crossing_args args"
  shows "\<exists>d v. session_turn R dnet alloc s (bytes_of (wire_text R args)) far =
      (if status_of (hdr_status h) = OK
       then far\<lparr>far_client := d, far_world := v, far_out := (far_out far)(s := far_out far s @ bytes_of val)\<rparr>
       else far\<lparr>far_client := d, far_world := v, far_closed := insert s (far_closed far)\<rparr>) \<and>
    inbox t v = later \<and> next_conn DUBBO_CLI_CONN_POOL_SIZE (pconns d) (Dubbo_Side t)"
proof -
  let ?w = "\<lparr>dubbo_world = far_world far, line_in = bytes_of (wire_text R args), line_out = []\<rparr>"
  note line = line_of_args [OF assms(1) args]
  obtain d v where r: "async_request R (session_net dnet) (alloc (pconns (far_client far)))
      (args ! 0) (args ! 1) (args ! 2) (args ! 3) (far_client far) \<lparr>dubbo_world = far_world far, line_in = [], line_out = []\<rparr> =
      Some (Inr \<lparr>result_status = status_of (hdr_status h), type_of_result = result_type_of (of_nat ty),
                  result_value = val\<rparr>, d, \<lparr>dubbo_world = v, line_in = [], line_out = []\<rparr>)"
    "inbox t v = later" "next_conn DUBBO_CLI_CONN_POOL_SIZE (pconns d) (Dubbo_Side t)"
    using session_request_answered [OF assms(1-7)] .
  have w: "net_write (session_net dnet) Consumer_Side bs \<lparr>dubbo_world = v, line_in = [], line_out = []\<rparr> =
      (None, \<lparr>dubbo_world = v, line_in = [], line_out = bs\<rparr>)" for bs
    by (simp add: session_net_def side_def line_write_def)
  note served = read_line_served [OF assms(1) line(4,3,1) line_read_all [OF line(1,2)]]
  have c: "call_args R (wire_text R args) = Inr args" by (rule read_line_args [OF assms(1) line(4,3)])
  show ?thesis
    by (intro exI [of _ d] exI [of _ v] conjI r(2,3))
       (simp add: session_turn_def served serve_line_def c r(1) w closed_after_def del: One_nat_def)
qed

section \<open>A request over a connection\<close>

lemma agents_net_simps [simp]:
  "net_write (agents_net R dnet alloc) s bs far = (None, far_write R dnet alloc s bs far)"
  "net_read_some (agents_net R dnet alloc) s n far = far_read_some s n far"
  by (simp_all add: agents_net_def)

lemma answered_exchange:
  fixes far :: "('s, 'v) far_agent"
  assumes "rlib_laws R" and "stream_laws dnet inbox" and "delivers dnet inbox t" and "allocates alloc"
    and "reaches_dubbo dnet far t v0"
    and "dubbo_answers R dnet inbox t args (far\<lparr>far_world := v0\<rparr>) h ty val later" and "LF \<notin> set val" and args: "crossing_args args"
    and far: "s \<notin> far_closed far" "far_out far s = []" and ok: "status_of (hdr_status h) = OK"
    and val: "val \<noteq> []" "CHR 0x00 \<notin> set val" "length val < buffer_size"
  obtains far' lat where "provider_exchange R (agents_net R dnet alloc) now (form_body args) s far =
      (Inr ((new_response Ok_200 11)\<lparr>res_body := val\<rparr>, Some lat), far')"
    and "far_closed far' = far_closed far" and "far_out far' = far_out far" and "inbox t (far_world far') = later"
    and "next_conn DUBBO_CLI_CONN_POOL_SIZE (pconns (far_client far')) (Dubbo_Side t)"
proof -
  let ?net = "agents_net R dnet alloc"
  obtain d v where turn: "session_turn R dnet alloc s (bytes_of (wire_text R args)) far =
      far\<lparr>far_client := d, far_world := v, far_out := (far_out far)(s := bytes_of val)\<rparr>"
    and after: "inbox t v = later" "next_conn DUBBO_CLI_CONN_POOL_SIZE (pconns d) (Dubbo_Side t)"
    using session_turn_answered [OF assms(1-8), of s] ok far(2) by auto
  let ?far1 = "far\<lparr>far_client := d, far_world := v, far_out := (far_out far)(s := bytes_of val)\<rparr>"
  let ?far2 = "far\<lparr>far_client := d, far_world := v, far_out := far_out far\<rparr>"
  have "net_write ?net s (bytes_of (wire_text R args)) far = (None, ?far1)"
    using turn far(1) by (simp add: far_write_def)
  moreover have "net_read_some ?net s buffer_size ?far1 = ((None, bytes_of val), ?far2)"
    using val(1,3) far(2) by (cases val) (simp_all add: far_read_some_def bytes_of_def fun_upd_idem)
  ultimately have "provider_exchange R ?net now (form_body args) s far =
      (Inr ((new_response Ok_200 11)\<lparr>res_body := val\<rparr>, Some (word_of_int (now ?far2 - now ?far1))), ?far2)"
    by (rule exchange_good_body [OF crossing_args_parsed [OF assms(1) args] _ _ c_string_bytes_of [OF val(2,3)]])
  from that [OF this] after show thesis by simp
qed

text \<open>On a connection whose session has ended, any request fails, and nothing changes.\<close>

lemma closed_exchange:
  assumes "s \<in> far_closed far" and "far_out far s = []"
  shows "provider_exchange R (agents_net R dnet alloc) now body s far = (Inr (resp_500, None), far)"
proof -
  have "c_string (filled_buffer []) = Inr []"
    using c_string_filled [of "[]"] by (simp add: buffer_size_def string_of_def)
  then show ?thesis
    using assms by (simp add: provider_exchange_def read_answer_def far_write_def far_read_some_def Let_def
        split: sum.splits)
qed

text \<open>Requests to one provider, one after the other.\<close>

fun provider_requests ::
  "rlib \<Rightarrow> ('s, 'p, 'w) net \<Rightarrow> ('w \<Rightarrow> int) \<Rightarrow> ('s conn_pool_coro \<Rightarrow> addr) \<Rightarrow> http_request list \<Rightarrow>
   's provider_info \<Rightarrow> 'w \<Rightarrow> (http_response result list \<times> 's provider_info \<times> 'w) option" where
  "provider_requests R net now fresh [] prov w = Some ([], prov, w)"
| "provider_requests R net now fresh (req # reqs) prov w =
     Option.bind (provider_async_request R net now (fresh (prov_conns prov)) req prov w) (\<lambda>(r, prov1, w1).
     map_option (\<lambda>(rs, y). (r # rs, y)) (provider_requests R net now fresh reqs prov1 w1))"

lemma request_on_next_conn:
  assumes "allocates fresh" and "next_conn AGENT_CONN_POOL_SIZE (prov_conns prov) s"
    and "provider_exchange R net now (req_body req) s w = (Inr (res, lat), w1)"
  shows "\<exists>prov'. provider_async_request R net now (fresh (prov_conns prov)) req prov w = Some (Inr res, prov', w1) \<and>
    next_conn AGENT_CONN_POOL_SIZE (prov_conns prov') s \<and> connpool_latency prov' = connpool_latency prov"
proof -
  obtain a rest where a: "free_list (prov_conns prov) = a # rest" "objects (prov_conns prov) a = Some \<lparr>conn = s\<rparr>"
    and ok: "pool_ok AGENT_CONN_POOL_SIZE (prov_conns prov)" using assms(2) by (auto simp: next_conn_def)
  have "cells (buffer (prov_conns prov)) (fresh (prov_conns prov)) = None"
    using assms(1) ok by (simp add: allocates_def same_pool_size)
  from provider_request_on_free [OF ok this a, of R net now req w] assms(3) a show ?thesis
    by (fastforce simp: next_conn_def)
qed

lemma closed_requests:
  assumes "allocates fresh" and "next_conn AGENT_CONN_POOL_SIZE (prov_conns prov) s"
    and "s \<in> far_closed far" and "far_out far s = []"
  shows "\<exists>prov'. provider_requests R (agents_net R dnet alloc) now fresh reqs prov far =
    Some (replicate (length reqs) (Inr resp_500), prov', far)"
  using assms(2)
proof (induction reqs arbitrary: prov)
  case (Cons req reqs)
  obtain p where p: "provider_async_request R (agents_net R dnet alloc) now (fresh (prov_conns prov)) req prov far =
      Some (Inr resp_500, p, far)" "next_conn AGENT_CONN_POOL_SIZE (prov_conns p) s"
    using request_on_next_conn [OF assms(1) Cons.prems closed_exchange [OF assms(3,4)]] by blast
  from Cons.IH [OF p(2)] p(1) show ?case by auto
qed simp

lemma failed_exchange:
  fixes far :: "('s, 'v) far_agent"
  assumes "rlib_laws R" and "stream_laws dnet inbox" and "delivers dnet inbox t" and "allocates alloc"
    and "reaches_dubbo dnet far t v0"
    and "dubbo_answers R dnet inbox t args (far\<lparr>far_world := v0\<rparr>) h ty val later" and "LF \<notin> set val" and args: "crossing_args args"
    and far: "s \<notin> far_closed far" "far_out far s = []" and bad: "status_of (hdr_status h) \<noteq> OK"
  obtains far' where "provider_exchange R (agents_net R dnet alloc) now (form_body args) s far =
      (Inr (resp_500, None), far')"
    and "s \<in> far_closed far'" and "far_out far' s = []"
proof -
  obtain d v where turn: "session_turn R dnet alloc s (bytes_of (wire_text R args)) far =
      far\<lparr>far_client := d, far_world := v, far_closed := insert s (far_closed far)\<rparr>"
    using session_turn_answered [OF assms(1-8), of s] bad by auto
  let ?far1 = "far\<lparr>far_client := d, far_world := v, far_closed := insert s (far_closed far)\<rparr>"
  have "c_string (filled_buffer []) = Inr []"
    using c_string_filled [of "[]"] by (simp add: buffer_size_def string_of_def)
  then have "provider_exchange R (agents_net R dnet alloc) now (form_body args) s far = (Inr (resp_500, None), ?far1)"
    using turn far crossing_args_parsed [OF assms(1) args]
    by (simp add: provider_exchange_def read_answer_def far_write_def far_read_some_def Let_def)
  from that [OF this] far(2) show thesis by simp
qed

text \<open>A Dubbo server that answers 42 with status \<open>st\<close>, and both agents with one connection each.\<close>

definition sample_far :: "(nat, memory) far_agent" where
  "sample_far =
     \<lparr>far_client = \<lparr>server_addr = ''localhost'', server_port = 20880, curr_request_id = 0x1998427,
                    pconns = single_pool 5 \<lparr>conn = Dubbo_Side 0\<rparr>\<rparr>,
      far_world = no_bytes_yet, far_closed = {}, far_out = (\<lambda>_. []), far_sockets = 1\<rparr>"

definition sample_selector :: "nat provider_selector" where
  "sample_selector = \<lparr>providers = [sample_provider], robin_queue = [0], curr = 0\<rparr>"

lemma sample_far_ready:
  "next_conn DUBBO_CLI_CONN_POOL_SIZE (pconns (far_client sample_far)) (Dubbo_Side 0)"
  "next_conn AGENT_CONN_POOL_SIZE (prov_conns sample_provider) 0"
  by (simp_all add: next_conn_def sample_far_def sample_provider_def single_pool_ok DUBBO_CLI_CONN_POOL_SIZE_def
      AGENT_CONN_POOL_SIZE_def)

lemma sample_reaches: "reaches_dubbo dnet sample_far 0 no_bytes_yet"
  using sample_far_ready(1) by (simp add: reaches_dubbo_def sample_far_def)

lemma sample_answers:
  "dubbo_answers plain_rlib (sample_net st) (\<lambda>s w. arrived w s) 0 args (sample_far\<lparr>far_world := no_bytes_yet\<rparr>)
     ((sample_answer_header 5)\<lparr>hdr_status := st\<rparr>) 1 ''42'' []"
proof -
  have len: "length (answer_text 1 ''42'') = 5" by (simp add: answer_text_def decimal.simps)
  show ?thesis
    using sample_request_sent [OF request_payload_not_Nil [OF plain_rlib_laws]]
    unfolding dubbo_answers_def Let_def sample_net_def len
    by (simp add: sample_far_def sample_answer_header_def del: One_nat_def)
qed

lemma sample_crossing: "crossing_args [''S'', ''hash'', ''T'', ''x'']"
  by (auto simp: crossing_args_def buffer_size_def)

lemma sample_net_laws:
  "stream_laws (sample_net st) (\<lambda>s w. arrived w s)" "delivers (sample_net st) (\<lambda>s w. arrived w s) s"
  by (simp_all add: sample_net_def memory_net_laws memory_net_delivers)

section \<open>Properties\<close>



text \<open>
  C20: one failed call spoils a provider. After a Dubbo answer whose status is not OK the session of the
  provider agent ends and closes its connection; the consumer agent puts that connection back at the front of
  its pool and never replaces it. The request gets a 500, and so does every later one that comes when no
  other is under way, although 255 other connections may be good.
\<close>

theorem one_failed_call_spoils_provider:
  fixes far :: "('s, 'v) far_agent"
  assumes "rlib_laws R" and "stream_laws dnet inbox" and "delivers dnet inbox t" and "allocates alloc"
    and "reaches_dubbo dnet far t v0"
    and "dubbo_answers R dnet inbox t args (far\<lparr>far_world := v0\<rparr>) h ty val later" and "LF \<notin> set val" and "crossing_args args"
    and "s \<notin> far_closed far" and "far_out far s = []" and "status_of (hdr_status h) \<noteq> OK"
    and "allocates fresh" and "next_conn AGENT_CONN_POOL_SIZE (prov_conns prov) s"
    and "req_body req = form_body args"
  shows "\<exists>prov' far'. provider_requests R (agents_net R dnet alloc) now fresh (req # reqs) prov far =
    Some (replicate (Suc (length reqs)) (Inr resp_500), prov', far')"
proof -
  obtain far' where x: "provider_exchange R (agents_net R dnet alloc) now (req_body req) s far =
      (Inr (resp_500, None), far')" and far': "s \<in> far_closed far'" "far_out far' s = []"
    using failed_exchange [OF assms(1-11), of now] unfolding assms(14) .
  obtain p where p: "provider_async_request R (agents_net R dnet alloc) now (fresh (prov_conns prov)) req prov far =
      Some (Inr resp_500, p, far')" "next_conn AGENT_CONN_POOL_SIZE (prov_conns p) s"
    using request_on_next_conn [OF assms(12,13) x] by blast
  from closed_requests [OF assms(12) p(2) far'] p(1) show ?thesis by fastforce
qed

theorem one_failed_call_spoils_provider_witness:
  "\<exists>prov' far'. provider_requests plain_rlib (agents_net plain_rlib (sample_net 80) above_all) (\<lambda>_. 0) above_all
       [post_request (form_body [''S'', ''hash'', ''T'', ''x'']), sample_request, sample_request] sample_provider
       sample_far = Some ([Inr resp_500, Inr resp_500, Inr resp_500], prov', far')"
proof -
  have far: "0 \<notin> far_closed sample_far" "far_out sample_far 0 = []" by (simp_all add: sample_far_def)
  have st: "status_of (hdr_status ((sample_answer_header 5)\<lparr>hdr_status := 80\<rparr>)) \<noteq> OK"
    by (simp add: status_of_def)
  have val: "LF \<notin> set ''42''" by simp
  let ?req = "post_request (form_body [''S'', ''hash'', ''T'', ''x''])"
  have req: "req_body ?req = form_body [''S'', ''hash'', ''T'', ''x'']" by (simp add: post_request_def)
  from one_failed_call_spoils_provider [OF plain_rlib_laws sample_net_laws above_all_allocates sample_reaches
      sample_answers val sample_crossing far st above_all_allocates sample_far_ready(2) req, of "\<lambda>_. 0"
      "[sample_request, sample_request]"]
  show ?thesis by (simp add: numeral_eq_Suc del: provider_requests.simps)
qed

text \<open>
  C36: line feeds in an argument are neither refused nor escaped. With one in the method the line between
  the agents has a line more: the provider agent calls the first part of the method with the second part
  for its types and the types for its argument, and the argument is lost.
\<close>

theorem line_feed_shifts_arguments:
  assumes "rlib_laws R" and "\<forall>a \<in> set [svc, m1, m2, types]. LF \<notin> set a" and "[] \<notin> set [svc, m1, types, arg]"
    and "\<forall>a \<in> set [svc, m1, m2, types, arg]. CHR ''&'' \<notin> set a" and "CHR ''%'' \<notin> set types"
  shows "\<exists>args. http_payload_to_dubbo_parameters R (form_body [svc, m1 @ [LF] @ m2, types, arg]) = Inr args \<and>
    call_args R (wire_text R args) = Inr [svc, m1, m2, types]"
proof -
  let ?args = "[svc, m1 @ [LF] @ m2, types, arg]"
  have "\<forall>i < 4. CHR ''&'' \<notin> set (?args ! i)"
    using assms(4) by (auto simp: less_Suc_eq numeral_eq_Suc)
  then have "http_payload_to_dubbo_parameters R (form_body ?args) = Inr ?args"
    using form_body_parsed [OF assms(1), of ?args] assms(3,5) by simp
  moreover have "split_on LF (intercalate [LF] ?args) = [svc, m1, m2, types] @ split_on LF arg"
    using assms(2) by (simp add: split_on_append)
  ultimately show ?thesis
    by (simp add: call_args_def wire_text_def rl_split [OF assms(1)] rl_join [OF assms(1)] length_split_on)
qed

theorem line_feed_shifts_arguments_witness:
  "\<exists>args. http_payload_to_dubbo_parameters plain_rlib
       (form_body [''S'', ''deposit\<newline>withdraw'', ''T'', ''x'']) = Inr args \<and>
     call_args plain_rlib (wire_text plain_rlib args) = Inr [''S'', ''deposit'', ''withdraw'', ''T'']"
  using line_feed_shifts_arguments [OF plain_rlib_laws, of "''S''" "''deposit''" "''withdraw''" "''T''" "''x''"]
  by simp

end
