(* ===== verification/Agent_Cluster.thy ===== *)
theory Agent_Cluster
  imports Two_Agents
begin

text \<open>
  One consumer agent and any number of provider agents, and requests of the consumer one after the other: the
  consumer agent's network leads, socket by socket, to the sessions of the provider agents
  (src/provider_agent.cc), each with its own connections to its Dubbo server, and the round robin of
  src/provider_selector.hpp spreads the requests over them.
\<close>

section \<open>The network\<close>

text \<open>
  \<open>links w s\<close> is the provider agent socket \<open>s\<close> is connected to; the resolver gives the number of an agent for
  its host name and port, \<open>directory\<close>. \<open>etcd_world\<close> is the world of the etcd client, which is beside the rest.
\<close>

record ('s, 'v, 'e) cluster =
  agents :: "nat \<Rightarrow> ('s, 'v) far_agent"
  links :: "nat \<Rightarrow> nat option"
  next_socket :: nat
  etcd_world :: 'e

definition not_connected :: error_code where
  "not_connected = \<lparr>ec_kind = Other_Ec, ec_message = ''Transport endpoint is not connected''\<rparr>"

definition host_not_found :: error_code where
  "host_not_found = \<lparr>ec_kind = Other_Ec, ec_message = ''Host not found (authoritative)''\<rparr>"

definition on_agent ::
  "nat \<Rightarrow> (('s, 'v) far_agent \<Rightarrow> 'a \<times> ('s, 'v) far_agent) \<Rightarrow> ('s, 'v, 'e) cluster \<Rightarrow> 'a \<times> ('s, 'v, 'e) cluster" where
  "on_agent k f w = (let (x, far) = f (agents w k) in (x, w\<lparr>agents := (agents w)(k := far)\<rparr>))"

definition on_link ::
  "nat \<Rightarrow> 'a \<Rightarrow> (('s, 'v) far_agent \<Rightarrow> 'a \<times> ('s, 'v) far_agent) \<Rightarrow> ('s, 'v, 'e) cluster \<Rightarrow> 'a \<times> ('s, 'v, 'e) cluster" where
  "on_link s refused f w = (case links w s of None \<Rightarrow> (refused, w) | Some k \<Rightarrow> on_agent k f w)"

definition cluster_net ::
  "rlib \<Rightarrow> ('s, 'p, 'v) net \<Rightarrow> ('s peer conn_pool_coro \<Rightarrow> addr) \<Rightarrow> (string \<Rightarrow> string \<Rightarrow> nat option) \<Rightarrow>
   (nat, nat option, ('s, 'v, 'e) cluster) net" where
  "cluster_net R dnet alloc directory =
     (let net = agents_net R dnet alloc
      in \<lparr>net_socket = (\<lambda>w. (next_socket w, w\<lparr>next_socket := next_socket w + 1\<rparr>)),
          net_resolve = (\<lambda>host port. lift_result (case directory host port of
             None \<Rightarrow> Inl (boost_fatal host_not_found) | Some k \<Rightarrow> Inr (Some k))),
          net_connect = (\<lambda>s p w. case p of None \<Rightarrow> (Inl (boost_fatal not_connected), w)
             | Some k \<Rightarrow> (Inr (), w\<lparr>links := (links w)(s \<mapsto> k)\<rparr>)),
          net_async_resolve = (\<lambda>host port w.
             ((case directory host port of None \<Rightarrow> (Some host_not_found, None) | Some k \<Rightarrow> (None, Some k)), w)),
          net_async_connect = (\<lambda>s p w. case p of None \<Rightarrow> (Some not_connected, w)
             | Some k \<Rightarrow> (None, w\<lparr>links := (links w)(s \<mapsto> k)\<rparr>)),
          net_write = (\<lambda>s bs. on_link s (Some not_connected) (net_write net s bs)),
          net_read = (\<lambda>s n. on_link s (Inl not_connected) (net_read net s n)),
          net_read_some = (\<lambda>s n. on_link s (Some not_connected, []) (net_read_some net s n)),
          net_sync_write = (\<lambda>s bs. on_link s (Inl (boost_fatal not_connected)) (net_sync_write net s bs)),
          net_sync_read = (\<lambda>s n. on_link s (Inl (boost_fatal not_connected)) (net_sync_read net s n)),
          net_shutdown_send = (\<lambda>s. on_link s (Some not_connected) (net_shutdown_send net s)),
          net_shutdown_both = (\<lambda>s. on_link s (Some not_connected) (net_shutdown_both net s))\<rparr>)"

text \<open>An exchange on a connected socket is the exchange with that agent; the others do not change.\<close>

lemma exchange_on_agent:
  assumes "links w s = Some k"
  shows "provider_exchange R (cluster_net R dnet alloc directory) now body s w =
    on_agent k (provider_exchange R (agents_net R dnet alloc)
      (\<lambda>far. now (w\<lparr>agents := (agents w)(k := far)\<rparr>)) body s) w"
  using assms
  by (simp add: provider_exchange_def read_answer_def cluster_net_def on_link_def on_agent_def Let_def
      split: sum.split prod.split option.split)

section \<open>A cluster that is ready\<close>

text \<open>
  The agent has a connection to its Dubbo server, nothing left to read on it; the first free connection of every
  provider leads to the session of such an agent, which has not ended, with nothing left to read.
\<close>

definition far_ready ::
  "('s, 'p, 'v) net \<Rightarrow> ('s \<Rightarrow> 'v \<Rightarrow> byte list) \<Rightarrow> ('s, 'v) far_agent \<Rightarrow> bool" where
  "far_ready dnet inbox far \<longleftrightarrow> (\<exists>t v. reaches_dubbo dnet far t v \<and> inbox t v = [])"

definition linked_ready ::
  "('s, 'p, 'v) net \<Rightarrow> ('s \<Rightarrow> 'v \<Rightarrow> byte list) \<Rightarrow> ('s, 'v, 'e) cluster \<Rightarrow> nat provider_info \<Rightarrow> bool" where
  "linked_ready dnet inbox w prov \<longleftrightarrow>
     (\<exists>s k. next_conn AGENT_CONN_POOL_SIZE (prov_conns prov) s \<and> links w s = Some k \<and>
        s \<notin> far_closed (agents w k) \<and> far_out (agents w k) s = [] \<and> far_ready dnet inbox (agents w k))"

definition cluster_ready ::
  "('s, 'p, 'v) net \<Rightarrow> ('s \<Rightarrow> 'v \<Rightarrow> byte list) \<Rightarrow> nat provider_selector \<Rightarrow> ('s, 'v, 'e) cluster \<Rightarrow> bool" where
  "cluster_ready dnet inbox sel w \<longleftrightarrow> selector_ok sel \<and> (\<forall>p \<in> set (providers sel). linked_ready dnet inbox w p)"

text \<open>An agent that has served a call is as ready as before, for all its connections.\<close>

lemma linked_ready_update:
  assumes "linked_ready dnet inbox w prov" and "far_closed far = far_closed (agents w k)"
    and "far_out far = far_out (agents w k)" and "far_ready dnet inbox far"
  shows "linked_ready dnet inbox (w\<lparr>agents := (agents w)(k := far)\<rparr>) prov"
  using assms unfolding linked_ready_def by force

section \<open>The service\<close>

text \<open>
  The Dubbo servers of the agents answer every call, \<open>service\<close> giving the value for its arguments; values that cross
  the agents unchanged are of one line, not empty, and fit into the buffers.
\<close>

definition dubbo_serves ::
  "rlib \<Rightarrow> ('s, 'p, 'v) net \<Rightarrow> ('s \<Rightarrow> 'v \<Rightarrow> byte list) \<Rightarrow> (string list \<Rightarrow> string) \<Rightarrow> bool" where
  "dubbo_serves R dnet inbox service \<longleftrightarrow>
     (\<forall>t far args. crossing_args args \<longrightarrow> inbox t (far_world far) = [] \<longrightarrow>
        (\<exists>h ty. dubbo_answers R dnet inbox t args far h ty (service args) [] \<and> status_of (hdr_status h) = OK))"

definition crossing_value :: "string \<Rightarrow> bool" where
  "crossing_value val \<longleftrightarrow> val \<noteq> [] \<and> LF \<notin> set val \<and> CHR 0x00 \<notin> set val \<and> length val < buffer_size"

section \<open>Requests one after the other\<close>

definition picked :: "'s provider_selector \<Rightarrow> nat" where
  "picked sel = robin_queue sel ! (curr sel mod length (robin_queue sel))"

fun agent_requests ::
  "rlib \<Rightarrow> ('s, 'p, 'w) net \<Rightarrow> ('w \<Rightarrow> int) \<Rightarrow> ('s conn_pool_coro \<Rightarrow> addr) \<Rightarrow> http_request list \<Rightarrow>
   's provider_selector \<Rightarrow> 'w \<Rightarrow> (http_response result list \<times> 's provider_selector \<times> 'w) option" where
  "agent_requests R net now fresh [] sel w = Some ([], sel, w)"
| "agent_requests R net now fresh (req # reqs) sel w =
     Option.bind (handle_request R net now (fresh (prov_conns (providers sel ! picked sel))) req sel w) (\<lambda>(r, sel1, w1).
     map_option (\<lambda>(rs, y). (r # rs, y)) (agent_requests R net now fresh reqs sel1 w1))"

lemma exchange_in_cluster:
  fixes w :: "('s, 'v, 'e) cluster"
  assumes "rlib_laws R" and "stream_laws dnet inbox" and "\<forall>t. delivers dnet inbox t" and "allocates alloc"
    and serves: "dubbo_serves R dnet inbox service" and args: "crossing_args args" "crossing_value (service args)"
    and link: "links w s = Some k" "s \<notin> far_closed (agents w k)" "far_out (agents w k) s = []"
    and ready: "far_ready dnet inbox (agents w k)"
  obtains far lat where "provider_exchange R (cluster_net R dnet alloc directory) now (form_body args) s w =
      (Inr ((new_response Ok_200 11)\<lparr>res_body := service args\<rparr>, Some lat), w\<lparr>agents := (agents w)(k := far)\<rparr>)"
    and "far_closed far = far_closed (agents w k)" and "far_out far = far_out (agents w k)" and "far_ready dnet inbox far"
proof -
  obtain t v where t: "reaches_dubbo dnet (agents w k) t v" "inbox t v = []" using ready by (auto simp: far_ready_def)
  then have "inbox t (far_world ((agents w k)\<lparr>far_world := v\<rparr>)) = []" by simp
  then obtain h ty where h: "dubbo_answers R dnet inbox t args ((agents w k)\<lparr>far_world := v\<rparr>) h ty (service args) []"
    "status_of (hdr_status h) = OK"
    using serves args(1) unfolding dubbo_serves_def by blast
  have d: "delivers dnet inbox t" using assms(3) by blast
  have v: "LF \<notin> set (service args)" "service args \<noteq> []" "CHR 0x00 \<notin> set (service args)"
    "length (service args) < buffer_size" using args(2) by (simp_all add: crossing_value_def)
  obtain far lat where x: "provider_exchange R (agents_net R dnet alloc)
      (\<lambda>far. now (w\<lparr>agents := (agents w)(k := far)\<rparr>)) (form_body args) s (agents w k) =
      (Inr ((new_response Ok_200 11)\<lparr>res_body := service args\<rparr>, Some lat), far)"
    and far: "far_closed far = far_closed (agents w k)" "far_out far = far_out (agents w k)"
      "inbox t (far_world far) = []" "next_conn DUBBO_CLI_CONN_POOL_SIZE (pconns (far_client far)) (Dubbo_Side t)"
    by (rule answered_exchange [OF assms(1,2) d assms(4) t(1) h(1) v(1) args(1) link(2,3) h(2) v(2-4)])
  have "far_ready dnet inbox far" using far(3,4) by (auto simp: far_ready_def reaches_dubbo_def)
  with that x far(1,2) show thesis by (simp add: exchange_on_agent [OF link(1)] on_agent_def)
qed

lemma request_in_cluster:
  fixes w :: "('s, 'v, 'e) cluster"
  assumes laws: "rlib_laws R" "stream_laws dnet inbox" "\<forall>t. delivers dnet inbox t" "allocates alloc" "allocates fresh"
    and serves: "dubbo_serves R dnet inbox service" and args: "crossing_args args" "crossing_value (service args)"
    and ready: "cluster_ready dnet inbox sel w" and req: "req_method req = Post" "req_body req = form_body args"
  obtains res sel' w' where "handle_request R (cluster_net R dnet alloc directory) now
      (fresh (prov_conns (providers sel ! picked sel))) req sel w = Some (Inr res, sel', w')"
    and "res_status res = Ok_200" and "res_body res = service args" and "cluster_ready dnet inbox sel' w'"
proof -
  let ?net = "cluster_net R dnet alloc directory" and ?i = "picked sel"
  let ?prov = "providers sel ! ?i"
  let ?req = "req\<lparr>req_user_agent := Some ''rHttp'', req_host := Some (hostname ?prov)\<rparr>"
  have ok: "selector_ok sel" using ready by (simp add: cluster_ready_def)
  then have i: "?i < length (providers sel)" by (auto simp: selector_ok_def picked_def)
  then have "linked_ready dnet inbox w ?prov" using ready by (simp add: cluster_ready_def)
  then obtain s k where s: "next_conn AGENT_CONN_POOL_SIZE (prov_conns ?prov) s"
    "links w s = Some k" "s \<notin> far_closed (agents w k)" "far_out (agents w k) s = []" "far_ready dnet inbox (agents w k)"
    by (auto simp: linked_ready_def)
  obtain far lat where x: "provider_exchange R ?net now (form_body args) s w =
      (Inr ((new_response Ok_200 11)\<lparr>res_body := service args\<rparr>, Some lat), w\<lparr>agents := (agents w)(k := far)\<rparr>)"
    and far: "far_closed far = far_closed (agents w k)" "far_out far = far_out (agents w k)" "far_ready dnet inbox far"
    by (rule exchange_in_cluster [OF laws(1-4) serves args s(2-5)])
  let ?w = "w\<lparr>agents := (agents w)(k := far)\<rparr>"
  have x': "provider_exchange R ?net now (req_body ?req) s w =
      (Inr ((new_response Ok_200 11)\<lparr>res_body := service args\<rparr>, Some lat), ?w)"
    using x req(2) by simp
  obtain prov' where p: "provider_async_request R ?net now (fresh (prov_conns ?prov)) ?req ?prov w =
      Some (Inr ((new_response Ok_200 11)\<lparr>res_body := service args\<rparr>), prov', ?w)"
    "next_conn AGENT_CONN_POOL_SIZE (prov_conns prov') s" "connpool_latency prov' = connpool_latency ?prov"
    using request_on_next_conn [OF laws(5) s(1) x'] by blast
  let ?sel = "sel\<lparr>curr := curr sel mod length (robin_queue sel) + 1, providers := (providers sel)[?i := prov']\<rparr>"
  let ?res = "finish_response ?req ((new_response Ok_200 11)\<lparr>res_body := service args\<rparr>)"
  have h: "handle_request R ?net now (fresh (prov_conns ?prov)) req sel w = Some (Inr ?res, ?sel, ?w)"
    using query_once_picks [OF ok] p(1) req(1) by (simp add: handle_request_def Let_def picked_def)
  have "connpool_latency ?prov < 10000" using ok i by (simp add: selector_ok_def)
  then have low: "\<forall>p \<in> set ((providers sel)[?i := prov']). connpool_latency p < 10000"
    using ok p(3) by (auto simp: selector_ok_def dest!: set_update_subset_insert [THEN subsetD])
  have "selector_ok ?sel"
    using selector_ok_query [OF ok] low by (auto simp: selector_ok_def)
  moreover have "\<forall>p \<in> set (providers ?sel). linked_ready dnet inbox ?w p"
  proof
    fix p
    assume "p \<in> set (providers ?sel)"
    then consider "p = prov'" | "p \<in> set (providers sel)"
      by (auto dest!: set_update_subset_insert [THEN subsetD])
    then show "linked_ready dnet inbox ?w p"
    proof cases
      case 1
      then show ?thesis using p(2) s far by (auto simp: linked_ready_def)
    next
      case 2
      then show ?thesis using ready linked_ready_update [OF _ far] by (simp add: cluster_ready_def)
    qed
  qed
  ultimately have "cluster_ready dnet inbox ?sel ?w" by (simp add: cluster_ready_def)
  from that [OF h _ _ this] show thesis by (simp add: finish_response_def new_response_def Let_def)
qed

lemma requests_in_cluster:
  fixes w :: "('s, 'v, 'e) cluster"
  assumes "rlib_laws R" and "stream_laws dnet inbox" and "\<forall>t. delivers dnet inbox t" and "allocates alloc"
    and "allocates fresh" and "dubbo_serves R dnet inbox service" and "cluster_ready dnet inbox sel w"
    and "\<forall>args \<in> set calls. crossing_args args \<and> crossing_value (service args)"
    and "map req_body reqs = map form_body calls" and "\<forall>req \<in> set reqs. req_method req = Post"
  shows "\<exists>ress sel' w'. agent_requests R (cluster_net R dnet alloc directory) now fresh reqs sel w =
      Some (map Inr ress, sel', w') \<and>
    map res_body ress = map service calls \<and> (\<forall>res \<in> set ress. res_status res = Ok_200) \<and> cluster_ready dnet inbox sel' w'"
  using assms(7-10)
proof (induction reqs arbitrary: calls sel w)
  case Nil
  then show ?case by simp
next
  case (Cons req reqs)
  then obtain args rest where calls: "calls = args # rest" "req_body req = form_body args"
    "map req_body reqs = map form_body rest" by (cases calls) auto
  have args: "crossing_args args" "crossing_value (service args)" "req_method req = Post"
    using Cons.prems(2,4) calls(1) by simp_all
  obtain res sel1 w1 where one: "handle_request R (cluster_net R dnet alloc directory) now
      (fresh (prov_conns (providers sel ! picked sel))) req sel w = Some (Inr res, sel1, w1)"
    "res_status res = Ok_200" "res_body res = service args" "cluster_ready dnet inbox sel1 w1"
    by (rule request_in_cluster [OF assms(1-6) args(1,2) Cons.prems(1) args(3) calls(2)])
  obtain ress sel' w' where all: "agent_requests R (cluster_net R dnet alloc directory) now fresh reqs sel1 w1 =
      Some (map Inr ress, sel', w')" "map res_body ress = map service rest"
    "\<forall>res \<in> set ress. res_status res = Ok_200" "cluster_ready dnet inbox sel' w'"
    using Cons.IH [OF one(4) _ calls(3)] Cons.prems(2,4) calls(1) by auto
  show ?case
    by (intro exI [of _ "res # ress"] exI [of _ sel'] exI [of _ w'])
       (use one all calls(1) in \<open>simp add: picked_def\<close>)
qed

section \<open>A cluster for the witness\<close>

text \<open>
  A Dubbo server that answers every payload, whatever was sent before, with a value that depends on the
  payload; a write that starts like a header is not answered. And two provider agents connected to it, one of
  them large.
\<close>

definition parity_of :: "byte list \<Rightarrow> string" where
  "parity_of bs = (if even (length bs) then ''ev'' else ''od'')"

definition parity_answer :: "byte list \<Rightarrow> byte list" where
  "parity_answer bs =
     (if take 1 bs = [0xda] then [] else header_bytes (sample_answer_header 5) @ bytes_of (answer_text 1 (parity_of bs)))"

definition parity_net :: "(nat, unit, memory) net" where
  "parity_net = (memory_net (\<lambda>_. []))\<lparr>net_write :=
     (\<lambda>s bs w. (None, w\<lparr>arrived := (arrived w)(s := arrived w s @ parity_answer bs)\<rparr>))\<rparr>"

definition parity_service :: "string list \<Rightarrow> string" where
  "parity_service args = parity_of (bytes_of (request_payload plain_rlib (args ! 0) (args ! 1) (args ! 2) (args ! 3)))"

lemma parity_net_laws: "stream_laws parity_net (\<lambda>s w. arrived w s)" "delivers parity_net (\<lambda>s w. arrived w s) t"
  using memory_net_laws [of "\<lambda>_. []"] memory_net_delivers [of "\<lambda>_. []" t]
  by (simp_all add: stream_laws_def delivers_def parity_net_def)

lemma parity_net_write:
  "net_write parity_net s bs w = (None, w\<lparr>arrived := (arrived w)(s := arrived w s @ parity_answer bs)\<rparr>)"
  by (simp add: parity_net_def)

lemma request_starts_header: "take 1 (header_bytes (request_header n q)) = [0xda]"
proof -
  have "le_bytes 2 x = [of_nat x, of_nat (x div 256)]" for x by (simp add: numeral_2_eq_2)
  then show ?thesis by (simp add: header_bytes_def request_header_def dubbo_magic_def)
qed

lemma payload_starts: "take 1 (bytes_of (request_payload plain_rlib svc m types arg)) \<noteq> [0xda]"
  by (simp add: request_payload_lines [OF plain_rlib_laws] request_lines_def bytes_of_def)

lemma parity_answers:
  assumes "arrived (far_world far) t = []"
  shows "dubbo_answers plain_rlib parity_net (\<lambda>s w. arrived w s) t args far (sample_answer_header 5) 1
    (parity_service args) []"
proof -
  have len: "length (answer_text 1 (parity_service args)) = 5"
    by (simp add: answer_text_def decimal.simps parity_service_def parity_of_def)
  show ?thesis
    unfolding dubbo_answers_def Let_def request_sent_def parity_net_write len
    using assms request_starts_header payload_starts
    by (simp add: parity_answer_def parity_service_def sample_answer_header_def del: One_nat_def)
qed

lemma parity_serves: "dubbo_serves plain_rlib parity_net (\<lambda>s w. arrived w s) parity_service"
  unfolding dubbo_serves_def
  by (intro allI impI exI conjI, erule parity_answers) (simp add: sample_answer_header_def status_of_def)

lemma parity_crosses: "crossing_value (parity_service args)"
  by (simp add: crossing_value_def parity_service_def parity_of_def buffer_size_def)

definition sample_cluster :: "(nat, memory, string \<Rightarrow> string option) cluster" where
  "sample_cluster = \<lparr>agents = (\<lambda>_. sample_far), links = [0 \<mapsto> 0, 1 \<mapsto> 1], next_socket = 2, etcd_world = (\<lambda>_. None)\<rparr>"

definition two_providers :: "nat provider_selector" where
  "two_providers =
     \<lparr>providers = [sample_provider, sample_provider\<lparr>hostname := ''provider-large'', prov_conns := single_pool 5 \<lparr>conn = 1\<rparr>\<rparr>],
      robin_queue = [0, 1, 1, 1], curr = 0\<rparr>"

lemma sample_cluster_ready: "cluster_ready parity_net (\<lambda>s w. arrived w s) two_providers sample_cluster"
proof -
  have far: "far_ready parity_net (\<lambda>s w. arrived w s) sample_far"
    using sample_reaches unfolding far_ready_def by (fastforce simp: no_bytes_yet_def)
  have "next_conn AGENT_CONN_POOL_SIZE (single_pool 5 \<lparr>conn = 1\<rparr>) (1 :: nat)"
    by (simp add: next_conn_def single_pool_ok AGENT_CONN_POOL_SIZE_def)
  then show ?thesis
    using sample_far_ready(2) far
    by (auto simp: cluster_ready_def selector_ok_def two_providers_def linked_ready_def sample_cluster_def sample_far_def
        sample_provider_def)
qed

definition sample_args :: "string list list" where
  "sample_args = [[''S'', ''hash'', ''T'', ''x''], [''S'', ''hash'', ''T'', ''xy'']]"

definition sample_posts :: "http_request list" where
  "sample_posts = map (\<lambda>args. post_request (form_body args)) sample_args"

lemma sample_calls:
  "\<forall>args \<in> set sample_args. crossing_args args \<and> crossing_value (parity_service args)"
  "map req_body sample_posts = map form_body sample_args" "\<forall>req \<in> set sample_posts. req_method req = Post"
  "map parity_service sample_args = [''od'', ''ev'']"
proof -
  show "\<forall>args \<in> set sample_args. crossing_args args \<and> crossing_value (parity_service args)"
    using parity_crosses by (auto simp: sample_args_def crossing_args_def buffer_size_def)
  show "map req_body sample_posts = map form_body sample_args" "\<forall>req \<in> set sample_posts. req_method req = Post"
    by (auto simp: sample_posts_def post_request_def)
  show "map parity_service sample_args = [''od'', ''ev'']"
    by (simp add: sample_args_def parity_service_def parity_of_def request_payload_lines [OF plain_rlib_laws]
        request_lines_def)
qed

section \<open>Properties\<close>



end
