(* ===== verification/Start_Up.thy ===== *)
theory Start_Up
  imports Agent_Cluster
begin

text \<open>
  The system from its start: provider agents (src/provider_agent.cc) start one after the other and register in etcd
  (src/etcd_service.cc), then the consumer agent (src/consumer_agent.cc, src/provider_selector.hpp) starts, finds
  them there and connects; and what the consumer then asks is answered.
\<close>

section \<open>Agents that start one after the other\<close>

text \<open>Provider agents start in turn, each with its host name and the port it listens on.\<close>

fun start_providers ::
  "rlib \<Rightarrow> 'w etcd_client \<Rightarrow> string \<Rightarrow> 16 word \<Rightarrow> (string \<times> 16 word) list \<Rightarrow> ('s provider_agent list, 'w) step" where
  "start_providers R cli prov_addr prov_port [] w = (Inr [], w)"
| "start_providers R cli prov_addr prov_port (e # es) w =
     and_then (provider_agent_new R cli (fst e) (snd e) prov_addr prov_port)
       (\<lambda>a. and_then (start_providers R cli prov_addr prov_port es) (\<lambda>rest. return (a # rest))) w"

lemma provider_registers:
  assumes "rlib_laws R"
  shows "provider_agent_new R cli (fst e) (snd e) pa pp w =
    (case etcd_append R cli ''server'' (addr_entry e) w of
       (Inl x, w1) \<Rightarrow> (Inl x, w1)
     | (Inr _, w1) \<Rightarrow> (Inr \<lparr>provider_addr = pa, provider_port = pp, dubbo = new_dubbo_client pa pp\<rparr>, w1))"
proof -
  have "rl_format R ''{}:{}'' [fst e, decimal (unat (snd e))] = addr_entry e"
    by (subst rl_format [OF assms]) (simp_all add: addr_entry_def)
  then show ?thesis by (simp add: provider_agent_new_def and_then_def split: prod.splits sum.splits)
qed

lemma start_providers_appends:
  fixes R :: rlib
  assumes "rlib_laws R" and "append_all R cli ''server'' (map addr_entry es) w = (Inr (), w1)"
  shows "\<exists>agents. start_providers R cli pa pp es w = (Inr (agents :: 's provider_agent list), w1) \<and>
    length agents = length es"
  using assms(2)
proof (induction es arbitrary: w)
  case (Cons e es)
  obtain w2 where w2: "etcd_append R cli ''server'' (addr_entry e) w = (Inr (), w2)"
    "append_all R cli ''server'' (map addr_entry es) w2 = (Inr (), w1)"
    using Cons.prems by (auto split: prod.splits sum.splits)
  obtain agents :: "'s provider_agent list" where
    "start_providers R cli pa pp es w2 = (Inr agents, w1)" "length agents = length es"
    using Cons.IH [OF w2(2)] by blast
  then show ?case using w2(1) by (simp add: provider_registers [OF assms(1)] and_then_def)
qed simp

text \<open>Once they have started, etcd holds them.\<close>

lemma providers_registered:
  fixes R :: rlib
  assumes "rlib_laws R" and "etcd_laws cli stored" and "stored w ''server'' = None" and "es \<noteq> []"
    and "\<forall>e \<in> set es. CHR '':'' \<notin> set (fst e) \<and> CHR ''|'' \<notin> set (fst e)"
  shows "\<exists>agents w1. start_providers R cli pa pp es w = (Inr (agents :: 's provider_agent list), w1) \<and>
    length agents = length es \<and> registered stored w1 es"
proof -
  let ?vs = "map addr_entry es"
  have ne: "[] \<notin> set ?vs" by (auto simp: addr_entry_def)
  have "value_or_empty (stored w ''server'') = intercalate ''|'' []" by (simp add: assms(3) value_or_empty_def)
  then have "\<exists>w1. append_all R cli ''server'' ?vs w = (Inr (), w1) \<and>
      value_or_empty (stored w1 ''server'') = intercalate ''|'' ([] @ ?vs) \<and>
      (\<forall>j. j \<noteq> ''server'' \<longrightarrow> stored w1 j = stored w j)"
    using ne by (intro append_all_stored [where us = "[]"] assms(2)) simp_all
  then obtain w1 where
    w1: "append_all R cli ''server'' ?vs w = (Inr (), w1)"
    "value_or_empty (stored w1 ''server'') = intercalate ''|'' ?vs" by auto
  have "intercalate ''|'' ?vs \<noteq> []" using ne assms(4) by (simp add: intercalate_eq_Nil)
  with w1(2) have "stored w1 ''server'' = Some (intercalate ''|'' ?vs)"
    by (cases "stored w1 ''server''") (simp_all add: value_or_empty_def)
  then have "registered stored w1 es" using assms(4,5) by (simp add: registered_def)
  with start_providers_appends [OF assms(1) w1(1)] show ?thesis by blast
qed

section \<open>Etcd beside the network\<close>

definition on_etcd :: "('e \<Rightarrow> 'a \<times> 'e) \<Rightarrow> ('s, 'v, 'e) cluster \<Rightarrow> 'a \<times> ('s, 'v, 'e) cluster" where
  "on_etcd f w = (let (x, e) = f (etcd_world w) in (x, w\<lparr>etcd_world := e\<rparr>))"

definition cluster_etcd :: "'e etcd_client \<Rightarrow> ('s, 'v, 'e) cluster etcd_client" where
  "cluster_etcd cli = \<lparr>cli_get = (\<lambda>k. on_etcd (cli_get cli k)), cli_set = (\<lambda>k v. on_etcd (cli_set cli k v))\<rparr>"

lemma sync_on_etcd:
  "sync_get R (cluster_etcd cli) k = on_etcd (sync_get R cli k)"
  "sync_set R (cluster_etcd cli) k v = on_etcd (sync_set R cli k v)"
  by (auto simp: fun_eq_iff sync_get_def sync_set_def cluster_etcd_def on_etcd_def split: prod.splits)

lemma etcd_append_on_etcd: "etcd_append R (cluster_etcd cli) k v = on_etcd (etcd_append R cli k v)"
  by (auto simp: fun_eq_iff etcd_append_def sync_on_etcd on_etcd_def split: prod.splits sum.splits)

lemma get_list_on_etcd: "get_list R (cluster_etcd cli) k = on_etcd (get_list R cli k)"
  by (auto simp: fun_eq_iff get_list_def sync_on_etcd on_etcd_def split: prod.splits sum.splits)

lemma start_providers_on_etcd:
  "start_providers R (cluster_etcd cli) pa pp es w = on_etcd (start_providers R cli pa pp es) w"
proof (induction es arbitrary: w)
  case (Cons e es)
  then show ?case
    by (auto simp: on_etcd_def and_then_def provider_agent_new_def etcd_append_on_etcd split: prod.splits sum.splits)
qed (simp add: on_etcd_def)

section \<open>The connections of a provider\<close>

definition linked :: "nat \<Rightarrow> nat \<Rightarrow> nat \<Rightarrow> ('s, 'v, 'e) cluster \<Rightarrow> ('s, 'v, 'e) cluster" where
  "linked k first n w =
     w\<lparr>next_socket := first + n, links := (\<lambda>s. if first \<le> s \<and> s < first + n then Some k else links w s)\<rparr>"

lemma linked_simps [simp]:
  "next_socket (linked k first n w) = first + n" "agents (linked k first n w) = agents w"
  by (simp_all add: linked_def)

lemma cluster_connect:
  assumes "directory host (decimal (unat port)) = Some k"
  shows "quick_connect (cluster_net R dnet alloc directory) host port w =
    (Inr (next_socket w), linked k (next_socket w) (Suc 0) w)"
  using assms
  by (simp add: quick_connect_def cluster_net_def Let_def and_then_def linked_def fun_eq_iff)

lemma cluster_connect_many:
  assumes "directory host (decimal (unat port)) = Some k"
  shows "connect_many (cluster_net R dnet alloc directory) host port n w =
    (map (\<lambda>i. Inr \<lparr>conn = next_socket w + i\<rparr>) [0..<n], linked k (next_socket w) n w)"
proof (induction n arbitrary: w)
  case 0
  have "(\<lambda>s. if next_socket w \<le> s \<and> s < next_socket w then Some k else links w s) = links w" by (rule ext) auto
  then show ?case by (simp add: linked_def)
next
  case (Suc n)
  let ?w = "linked k (next_socket w) (Suc 0) w"
  note connect = cluster_connect [of directory host port k R dnet alloc w, OF assms]
  have "linked k (Suc (next_socket w)) n ?w = linked k (next_socket w) (Suc n) w"
    by (auto simp: linked_def fun_eq_iff)
  moreover have "map (\<lambda>i. Inr \<lparr>conn = Suc (next_socket w) + i\<rparr>) [0..<n] =
      map (\<lambda>i. Inr \<lparr>conn = next_socket w + i\<rparr>) [1..<Suc n]"
    by (simp add: map_Suc_upt [symmetric] del: map_Suc_upt upt_Suc)
  ultimately show ?case
    using Suc [of ?w] by (simp add: pooled_conn_new_def and_then_def connect upt_conv_Cons
        del: upt_Suc)
qed

text \<open>A provider that was connected: its first free connection is linked to agent \<open>k\<close>.\<close>

definition first_linked :: "('s, 'v, 'e) cluster \<Rightarrow> nat provider_info \<Rightarrow> nat \<Rightarrow> bool" where
  "first_linked w prov k \<longleftrightarrow>
     (\<exists>s. next_conn AGENT_CONN_POOL_SIZE (prov_conns prov) s \<and> links w s = Some k \<and> s < next_socket w)"

lemma first_linked_later:
  assumes "first_linked w prov k"
  shows "first_linked (linked j (next_socket w) n w) prov k"
proof -
  obtain s where "next_conn AGENT_CONN_POOL_SIZE (prov_conns prov) s" "links w s = Some k" "s < next_socket w"
    using assms by (auto simp: first_linked_def)
  then show ?thesis unfolding first_linked_def by (intro exI [of _ s]) (simp add: linked_def)
qed

lemma cluster_provider_new:
  fixes w :: "('s, 'v, 'e) cluster"
  assumes "directory (fst e) (decimal (unat (snd e))) = Some k" and "inj heap"
  shows "\<exists>prov. provider_info_new (cluster_net R dnet alloc directory) heap (fst e) (snd e) w =
      (Inr prov, linked k (next_socket w) AGENT_CONN_POOL_SIZE w) \<and> connected e prov \<and>
    first_linked (linked k (next_socket w) AGENT_CONN_POOL_SIZE w) prov k"
proof -
  let ?n = "AGENT_CONN_POOL_SIZE" and ?c = "\<lambda>i. \<lparr>conn = next_socket w + i\<rparr>"
  have mk: "construction_of (heap i) (map (\<lambda>i. Inr (?c i)) [0..<?n] ! i) = Inr (heap i, ?c i)" if "i < ?n" for i
    using that by (simp add: construction_of_def)
  obtain p where p: "fill_full ?n (\<lambda>i. construction_of (heap i) (map (\<lambda>i. Inr (?c i)) [0..<?n] ! i)) empty_pool = (Inr (), p)"
    "pool_rep ?n p (map (\<lambda>i. (heap i, ?c i, True)) [0..<?n])" "free_list p = map heap [0..<?n]"
    using fill_full_rep [of ?n _ heap ?c, OF mk] assms(2) by (blast intro: inj_on_subset)
  have pos: "0 < ?n" by (simp add: AGENT_CONN_POOL_SIZE_def)
  have ok: "pool_ok ?n p" "lent p = {}" using p(2) lent_cases(1) [OF p(2)] by (auto simp: pool_ok_def)
  have "objects p (heap 0) = Some \<lparr>conn = next_socket w\<rparr>"
    using objects_rep [OF pool_rep_buffer [OF p(2)]] pos by force
  moreover have "free_list p = heap 0 # map heap [1..<?n]" using p(3) pos by (simp add: upt_conv_Cons)
  ultimately have "next_conn ?n p (next_socket w)" using ok(1) by (simp add: next_conn_def)
  moreover define prov where
    "prov = \<lparr>hostname = fst e, port_of = snd e, prov_conns = p, latency = 50000, connpool_latency = 1\<rparr>"
  ultimately have "first_linked (linked k (next_socket w) ?n w) prov k"
    using pos unfolding first_linked_def by (intro exI [of _ "next_socket w"]) (simp add: linked_def)
  moreover have "provider_info_new (cluster_net R dnet alloc directory) heap (fst e) (snd e) w =
      (Inr prov, linked k (next_socket w) ?n w)"
    using p(1) cluster_connect_many [of directory "fst e" "snd e" k R dnet alloc ?n w, OF assms(1)]
    by (simp add: provider_info_new_def prov_def)
  moreover have "connected e prov" using ok p(3) by (simp add: connected_def prov_def)
  ultimately show ?thesis by blast
qed

section \<open>The consumer agent starts\<close>

text \<open>What the loop of the constructor keeps: the providers so far are connected, and linked to agents below \<open>n\<close>.\<close>

definition up :: "nat \<Rightarrow> ('s, 'v, 'e) cluster \<Rightarrow> string \<times> 16 word \<Rightarrow> nat provider_info \<Rightarrow> bool" where
  "up n w e prov \<longleftrightarrow> connected e prov \<and> (\<exists>k < n. first_linked w prov k)"

lemma up_later: "up n w e prov \<Longrightarrow> up n (linked j (next_socket w) i w) e (provider_info_move prov)"
  using first_linked_later connected_move by (fastforce simp: up_def first_linked_def provider_info_move_def)

lemma providers_come_up:
  fixes w :: "('s, 'v, 'e) cluster"
  assumes "rlib_laws R" and "\<forall>i. inj (heap i)"
  shows "list_all2 (up n w) sofar acc \<Longrightarrow>
    \<forall>e \<in> set es. CHR '':'' \<notin> set (fst e) \<and> (\<exists>k < n. directory (fst e) (decimal (unat (snd e))) = Some k) \<Longrightarrow>
    \<exists>ps w1. load_providers R (cluster_net R dnet alloc directory) heap (map addr_entry es) acc w = (Inr ps, w1) \<and>
      list_all2 (up n w1) (sofar @ es) ps \<and> agents w1 = agents w"
proof (induction es arbitrary: sofar acc w)
  case (Cons e es)
  obtain k where k: "k < n" "directory (fst e) (decimal (unat (snd e))) = Some k" using Cons.prems(2) by auto
  let ?w = "linked k (next_socket w) AGENT_CONN_POOL_SIZE w"
  obtain prov where prov: "provider_info_new (cluster_net R dnet alloc directory) (heap (length acc)) (fst e) (snd e) w =
      (Inr prov, ?w)" "connected e prov" "first_linked ?w prov k"
    using cluster_provider_new [of directory e k "heap (length acc)" R dnet alloc w] k(2) assms(2) by auto
  have "up n ?w e prov" using prov(2,3) k(1) by (auto simp: up_def)
  moreover have "list_all2 (\<lambda>x y. up n ?w x (provider_info_move y)) sofar acc"
    by (rule list_all2_mono [OF Cons.prems(1)]) (rule up_later)
  ultimately have "list_all2 (up n ?w) (sofar @ [e]) (map provider_info_move acc @ [prov])"
    by (simp add: list_all2_appendI list_all2_map2)
  from Cons.IH [OF this] Cons.prems(2) obtain ps w1 where
    ps: "load_providers R (cluster_net R dnet alloc directory) heap (map addr_entry es) (map provider_info_move acc @ [prov]) ?w
      = (Inr ps, w1)" "list_all2 (up n w1) (sofar @ e # es) ps" "agents w1 = agents w" by (auto simp: linked_def)
  have "addr_entry e \<noteq> []" by (simp add: addr_entry_def)
  then show ?case
    using addr_entry_parts [OF assms(1), of e] Cons.prems(2) prov(1) ps by (simp add: Let_def)
qed auto

lemma consumer_comes_up:
  fixes w :: "('s, 'v, 'e) cluster"
  assumes "rlib_laws R" and "etcd_laws cli stored" and "\<forall>i. inj (heap i)" and "registered stored (etcd_world w) es"
    and known: "\<forall>e \<in> set es. fst e \<in> {''provider-small'', ''provider-medium'', ''provider-large''}"
    and dir: "\<forall>e \<in> set es. \<exists>k < n. directory (fst e) (decimal (unat (snd e))) = Some k"
  obtains agent w2 where "consumer_agent_new R (cluster_etcd cli) (cluster_net R dnet alloc directory) heap threads w =
      (Inr agent, w2)"
    and "list_all2 (up n w2) es (providers (selector agent))" and "selector_ok (selector agent)" and "agents w2 = agents w"
proof -
  have ne: "es \<noteq> []" and noc: "\<forall>e \<in> set es. CHR '':'' \<notin> set (fst e) \<and> CHR ''|'' \<notin> set (fst e)"
    using assms(4) by (auto simp: registered_def)
  then have "\<forall>v \<in> set (map addr_entry es). CHR ''|'' \<notin> set v" using addr_entry_no_bar by auto
  then obtain x where "get_list R cli ''server'' (etcd_world w) = (Inr (map addr_entry es), x)"
    using get_list_registered [OF assms(2,1), of "etcd_world w" "map addr_entry es"] assms(4) by (auto simp: registered_def)
  then have l: "get_list R (cluster_etcd cli) ''server'' w = (Inr (map addr_entry es), w\<lparr>etcd_world := x\<rparr>)"
    by (simp add: get_list_on_etcd on_etcd_def)
  obtain ps w2 where ps: "load_providers R (cluster_net R dnet alloc directory) heap (map addr_entry es) []
      (w\<lparr>etcd_world := x\<rparr>) = (Inr ps, w2)" "list_all2 (up n w2) es ps" "agents w2 = agents w"
    using providers_come_up [OF assms(1,3), where n = n and w = "w\<lparr>etcd_world := x\<rparr>" and sofar = "[]" and acc = "[]"
        and es = es and directory = directory and dnet = dnet and alloc = alloc] noc dir by auto
  have conn: "list_all2 connected es ps" by (rule list_all2_mono [OF ps(2)]) (simp add: up_def)
  define cls where "cls h = the (class_of_host h)" for h
  have "\<forall>h \<in> set (map fst es). class_of_host h = Some (cls h)"
    using known by (auto simp: cls_def class_of_host_def)
  from build_queue_known [OF this, of 0 "[]"]
  have q: "build_queue 0 (map hostname ps) [] = Inr (queue_of 0 (map (robin_weight \<circ> cls) (map fst es)))"
    unfolding connected_hosts [OF conn] by simp
  have "ps \<noteq> []" using ne conn by auto
  with l ps(1) q have "consumer_agent_new R (cluster_etcd cli) (cluster_net R dnet alloc directory) heap threads w =
      (Inr \<lparr>selector = \<lparr>providers = ps, robin_queue = queue_of 0 (map (robin_weight \<circ> cls) (map fst es)), curr = 0\<rparr>,
        agent_threads = threads\<rparr>, w2)"
    by (simp add: consumer_agent_new_def provider_selector_new_def and_then_def)
  from that [OF this] ps(2,3) selector_ok_loaded [OF conn ne, of cls] show thesis by simp
qed

section \<open>The provider agents run\<close>

text \<open>
  A provider agent that has started: its Dubbo client as the constructor made it, without a connection yet, in
  the world \<open>v\<close> of its Dubbo server, and no session so far.
\<close>

definition started_agent :: "'s peer provider_agent \<Rightarrow> 'v \<Rightarrow> ('s, 'v) far_agent" where
  "started_agent a v = \<lparr>far_client = dubbo a, far_world = v, far_closed = {}, far_out = (\<lambda>_. []), far_sockets = 0\<rparr>"

definition server_up :: "('s, 'p, 'v) net \<Rightarrow> ('s \<Rightarrow> 'v \<Rightarrow> byte list) \<Rightarrow> string \<Rightarrow> 16 word \<Rightarrow> 'v \<Rightarrow> bool" where
  "server_up dnet inbox addr port v \<longleftrightarrow> (\<exists>t v1. quick_connect dnet addr port v = (Inr t, v1) \<and> inbox t v1 = [])"

lemma started_ready:
  assumes "server_up dnet inbox pa pp v" and "dubbo a = new_dubbo_client pa pp"
  shows "far_ready dnet inbox (started_agent a v)"
proof -
  have "borrow_makes_one DUBBO_CLI_CONN_POOL_SIZE (empty_pool :: 's peer conn_pool_coro)"
    by (simp add: borrow_makes_one_def empty_pool_def empty_list_def tlist_size_def DUBBO_CLI_CONN_POOL_SIZE_def)
  then show ?thesis
    using assms empty_pool_ok
    by (auto simp: far_ready_def server_up_def reaches_dubbo_def started_agent_def new_dubbo_client_def)
qed

lemma start_providers_clients:
  assumes "rlib_laws R"
  shows "start_providers R cli pa pp es w = (Inr as, w1) \<Longrightarrow> \<forall>a \<in> set as. dubbo a = new_dubbo_client pa pp"
proof (induction es arbitrary: w as)
  case (Cons e es)
  then show ?case
    by (auto simp: provider_registers [OF assms] and_then_def split: prod.splits sum.splits)
qed simp

section \<open>Properties\<close>


definition two_hosts :: "string \<Rightarrow> string \<Rightarrow> nat option" where
  "two_hosts host port = (if host = ''provider-small'' then Some 0 else if host = ''provider-large'' then Some 1 else None)"

definition before_start :: "(nat, memory, string \<Rightarrow> string option) cluster" where
  "before_start = \<lparr>agents = (\<lambda>_. sample_far), links = (\<lambda>_. None), next_socket = 0, etcd_world = (\<lambda>_. None)\<rparr>"

lemma parity_server_up: "server_up parity_net (\<lambda>s w. arrived w s) addr port no_bytes_yet"
  by (simp add: server_up_def quick_connect_def parity_net_def memory_net_def no_bytes_yet_def Let_def and_then_def)


end
