(* ===== verification/Provider_Coro.thy ===== *)
theory Provider_Coro
  imports Provider_Info Wires
begin

text \<open>
  Requests to one provider agent made at the same time by any number of coroutines of the consumer agent, on any
  number of threads: the steps of \<open>provider_info::async_request\<close> (src/provider_selector.hpp) between its
  suspension points, interleaved with each other, with the steps of the connection pool (\<open>Pool_Coro\<close>), which
  starts with the connections the constructor made, and with the provider agent. Lines and answers carry
  neither a length nor a number; here is what each request gets all the same.
\<close>

section \<open>The state\<close>

text \<open>
  A request is the body it came with. \<open>Responded\<close>: it has its response, or undefined behaviour was reached, and
  the scope guard gives the connection back next. The latency is shared by all requests.
\<close>

datatype ask_pc =
    No_Request
  | Begun string
  | Line_Sent string
  | Responded string "http_response result"

record ('s, 't) ask_sys =
  links :: "('s pooled_conn, 't) coro_sys"
  asked :: "nat \<Rightarrow> ask_pc"
  to_agent :: "addr \<Rightarrow> byte list"
  from_agent :: "addr \<Rightarrow> byte list"
  down :: "addr set"
  shared_latency :: "32 word"

definition init_asks :: "('t, nat) timer_api \<Rightarrow> 's provider_info \<Rightarrow> ('s, 't) ask_sys" where
  "init_asks api prov =
     \<lparr>links = \<lparr>cpool = prov_conns prov, event = event_new api, coros = (\<lambda>_. Resting)\<rparr>, asked = (\<lambda>_. No_Request),
      to_agent = (\<lambda>_. []), from_agent = (\<lambda>_. []), down = {}, shared_latency = latency prov\<rparr>"

section \<open>The steps\<close>

text \<open>The connection is the first thing a request asks for, and the last it gives back.\<close>

definition ask_may_move :: "ask_pc \<Rightarrow> coro_pc \<Rightarrow> coro_pc \<Rightarrow> bool" where
  "ask_may_move call pc pc' \<longleftrightarrow>
     (pc = Resting \<and> pc' \<noteq> Resting \<longrightarrow> (\<exists>body. call = Begun body)) \<and>
     ((\<exists>a. pc = Holding a) \<and> pc' \<noteq> pc \<longrightarrow> (\<exists>body r. call = Responded body r))"

text \<open>The response made of what one read brought.\<close>

definition response_of :: "byte list \<Rightarrow> http_response result" where
  "response_of bs =
     bind_result (c_string (filled_buffer bs)) (\<lambda>answer. Inr ((new_response Ok_200 11)\<lparr>res_body := answer\<rparr>))"

text \<open>Where a request suspends on its connection.\<close>

fun on_link :: "ask_pc \<Rightarrow> string option" where
  "on_link (Begun body) = Some body"
| "on_link (Line_Sent body) = Some body"
| "on_link _ = None"

text \<open>
  \<open>arrives bs later\<close>: a read may bring \<open>bs\<close> when \<open>bs @ later\<close> is on the way. \<open>replies\<close> is the session of the
  provider agent: what it may send for what one of its reads brought. It may end at any time, and its connection is
  then down; so is one on which an operation of the request failed.
\<close>

inductive ask_step ::
  "rlib \<Rightarrow> (byte list \<Rightarrow> byte list \<Rightarrow> bool) \<Rightarrow> (byte list \<Rightarrow> byte list \<Rightarrow> bool) \<Rightarrow> ('t, nat) timer_api \<Rightarrow> error set \<Rightarrow>
   ('s, 't) ask_sys \<Rightarrow> ('s, 't) ask_sys \<Rightarrow> bool"
  for R replies arrives api exns where
  begins: "asked s i = No_Request \<or> (\<exists>b r. asked s i = Responded b r) \<Longrightarrow> coros (links s) i = Resting \<Longrightarrow>
     ask_step R replies arrives api exns s (s\<lparr>asked := (asked s)(i := Begun body)\<rparr>)"
| pool_moves: "coro_step api AGENT_CONN_POOL_SIZE exns (links s) c \<Longrightarrow>
     \<forall>i. ask_may_move (asked s i) (coros (links s) i) (coros c i) \<Longrightarrow>
     ask_step R replies arrives api exns s (s\<lparr>links := c\<rparr>)"
| bad_body: "coros (links s) i = Holding a \<Longrightarrow> asked s i = Begun body \<Longrightarrow>
     http_payload_to_dubbo_parameters R body = Inl e \<Longrightarrow>
     ask_step R replies arrives api exns s (s\<lparr>asked := (asked s)(i := Responded body (Inr resp_500))\<rparr>)"
| write_line: "coros (links s) i = Holding a \<Longrightarrow> asked s i = Begun body \<Longrightarrow>
     http_payload_to_dubbo_parameters R body = Inr args \<Longrightarrow>
     ask_step R replies arrives api exns s
       (s\<lparr>to_agent := (to_agent s)(a := to_agent s a @ bytes_of (wire_text R args)),
         asked := (asked s)(i := Line_Sent body)\<rparr>)"
| serves: "to_agent s a = line @ later \<Longrightarrow> line \<noteq> [] \<Longrightarrow> length line \<le> buffer_size \<Longrightarrow> arrives line later \<Longrightarrow>
     replies line ans \<Longrightarrow> a \<notin> down s \<Longrightarrow>
     ask_step R replies arrives api exns s
       (s\<lparr>to_agent := (to_agent s)(a := later), from_agent := (from_agent s)(a := from_agent s a @ ans)\<rparr>)"
| session_ends: "ask_step R replies arrives api exns s (s\<lparr>down := insert a (down s)\<rparr>)"
| read_answer: "coros (links s) i = Holding a \<Longrightarrow> asked s i = Line_Sent body \<Longrightarrow>
     from_agent s a = bs @ later \<Longrightarrow> bs \<noteq> [] \<Longrightarrow> length bs \<le> buffer_size \<Longrightarrow> arrives bs later \<Longrightarrow> a \<notin> down s \<Longrightarrow>
     ask_step R replies arrives api exns s
       (s\<lparr>from_agent := (from_agent s)(a := later), asked := (asked s)(i := Responded body (response_of bs)),
         shared_latency := us\<rparr>)"
| io_error: "coros (links s) i = Holding a \<Longrightarrow> on_link (asked s i) = Some body \<Longrightarrow>
     ask_step R replies arrives api exns s
       (s\<lparr>down := insert a (down s), asked := (asked s)(i := Responded body (Inr resp_500))\<rparr>)"

inductive asks_reach ::
  "rlib \<Rightarrow> (byte list \<Rightarrow> byte list \<Rightarrow> bool) \<Rightarrow> (byte list \<Rightarrow> byte list \<Rightarrow> bool) \<Rightarrow> ('t, nat) timer_api \<Rightarrow> error set \<Rightarrow>
   's provider_info \<Rightarrow> ('s, 't) ask_sys \<Rightarrow> bool"
  for R replies arrives api exns prov where
  start: "asks_reach R replies arrives api exns prov (init_asks api prov)"
| step: "asks_reach R replies arrives api exns prov s \<Longrightarrow> ask_step R replies arrives api exns s t \<Longrightarrow>
     asks_reach R replies arrives api exns prov t"

text \<open>The steps are the pieces of \<open>provider_exchange\<close>.\<close>

lemma response_of_read:
  "net_read_some net s buffer_size w = ((None, bs), w1) \<Longrightarrow>
   fst (Provider_Info.read_answer net now s w) = map_sum id (\<lambda>res. (res, Some (word_of_int (now w1 - now w)))) (response_of bs)"
  by (cases "c_string (filled_buffer bs)") (simp_all add: Provider_Info.read_answer_def response_of_def Let_def)

section \<open>What is on the way\<close>

text \<open>The replies to a request with this body.\<close>

definition reply_for :: "rlib \<Rightarrow> (byte list \<Rightarrow> byte list \<Rightarrow> bool) \<Rightarrow> string \<Rightarrow> byte list \<Rightarrow> bool" where
  "reply_for R replies body ans \<longleftrightarrow>
     (\<exists>args. http_payload_to_dubbo_parameters R body = Inr args \<and> replies (bytes_of (wire_text R args)) ans)"

fun link_ok :: "rlib \<Rightarrow> (byte list \<Rightarrow> byte list \<Rightarrow> bool) \<Rightarrow> ask_pc \<Rightarrow> byte list \<Rightarrow> byte list \<Rightarrow> bool" where
  "link_ok R replies (Line_Sent body) out inb \<longleftrightarrow>
     (\<exists>args. http_payload_to_dubbo_parameters R body = Inr args \<and> out = bytes_of (wire_text R args) \<and> inb = []) \<or>
     out = [] \<and> reply_for R replies body inb"
| "link_ok R replies _ out inb \<longleftrightarrow> out = [] \<and> inb = []"

text \<open>
  Every line and every answer arrives in one piece; the answers fit the buffer with a zero after them, and have none
  in them.
\<close>

definition one_piece :: "(byte list \<Rightarrow> byte list \<Rightarrow> bool) \<Rightarrow> bool" where
  "one_piece arrives \<longleftrightarrow> (\<forall>bs later. arrives bs later \<longrightarrow> later = [])"

definition short_replies :: "(byte list \<Rightarrow> byte list \<Rightarrow> bool) \<Rightarrow> bool" where
  "short_replies replies \<longleftrightarrow> (\<forall>line ans. replies line ans \<longrightarrow> length ans < buffer_size \<and> 0 \<notin> set ans)"

lemma response_of_short:
  "length bs < buffer_size \<Longrightarrow> 0 \<notin> set bs \<Longrightarrow>
   response_of bs = Inr ((new_response Ok_200 11)\<lparr>res_body := string_of bs\<rparr>)"
proof -
  assume bs: "length bs < buffer_size" "0 \<notin> set bs"
  then have t: "takeWhile (\<lambda>b. b \<noteq> 0) bs = bs" by (auto simp: takeWhile_eq_all_conv)
  show ?thesis using c_string_filled [OF bs(1)] unfolding t by (simp add: response_of_def)
qed

text \<open>A response is the one made of the answer to the request's own line, or the 500.\<close>

definition ask_ok :: "rlib \<Rightarrow> (byte list \<Rightarrow> byte list \<Rightarrow> bool) \<Rightarrow> ask_pc \<Rightarrow> bool" where
  "ask_ok R replies call \<longleftrightarrow>
     (\<forall>body r. call = Responded body r \<longrightarrow>
        r = Inr resp_500 \<or>
        (\<exists>bs. reply_for R replies body bs \<and> r = Inr ((new_response Ok_200 11)\<lparr>res_body := string_of bs\<rparr>)))"

section \<open>The invariant\<close>

definition asks_inv ::
  "('t \<Rightarrow> nat list) \<Rightarrow> rlib \<Rightarrow> (byte list \<Rightarrow> byte list \<Rightarrow> bool) \<Rightarrow> error set \<Rightarrow> ('s, 't) ask_sys \<Rightarrow> bool" where
  "asks_inv pending R replies exns s \<longleftrightarrow>
     coro_inv pending AGENT_CONN_POOL_SIZE exns (links s) \<and>
     (\<forall>i. seeking (coros (links s) i) \<longrightarrow> (\<exists>body. asked s i = Begun body)) \<and>
     wires_inv (link_ok R replies) (coros (links s)) (asked s) (to_agent s) (from_agent s) (down s) \<and>
     (\<forall>i. ask_ok R replies (asked s i))"

lemma asks_inv_pool: "asks_inv pending R replies exns s \<Longrightarrow> coro_inv pending AGENT_CONN_POOL_SIZE exns (links s)"
  and asks_inv_seeking: "asks_inv pending R replies exns s \<Longrightarrow> seeking (coros (links s) i) \<Longrightarrow> \<exists>body. asked s i = Begun body"
  and asks_inv_wires: "asks_inv pending R replies exns s \<Longrightarrow>
    wires_inv (link_ok R replies) (coros (links s)) (asked s) (to_agent s) (from_agent s) (down s)"
  and asks_inv_ask: "asks_inv pending R replies exns s \<Longrightarrow> ask_ok R replies (asked s i)"
  by (simp_all add: asks_inv_def)

text \<open>The constructor's pool has all its connections free.\<close>

lemma coro_inv_idle:
  assumes "timer_laws api pending" and "pool_ok m p" and "lent p = {}"
  shows "coro_inv pending m exns \<lparr>cpool = p, event = event_new api, coros = (\<lambda>_. Resting)\<rparr>"
  using assms by (auto simp: coro_inv_def exact_holders_def comp_def event_new_pending)

lemma asks_inv_init:
  assumes "timer_laws api pending" and "pool_ok AGENT_CONN_POOL_SIZE (prov_conns prov)" and "lent (prov_conns prov) = {}"
  shows "asks_inv pending R replies exns (init_asks api prov)"
  using coro_inv_idle [OF assms]
  by (auto simp: asks_inv_def init_asks_def seeking_def wires_inv_def ask_ok_def)

text \<open>Changing one request that is not after a connection keeps the invariant when the wires do.\<close>

lemma asks_inv_update:
  assumes "asks_inv pending R replies exns s" and "\<not> seeking (coros (links s) i)" and "ask_ok R replies pc"
    and "wires_inv (link_ok R replies) (coros (links s)) (asked t) (to_agent t) (from_agent t) (down t)"
    and "links t = links s" and "asked t = (asked s)(i := pc)"
  shows "asks_inv pending R replies exns t"
  using assms by (auto simp: asks_inv_def)

text \<open>The holder of a connection changes its request and what is on the connection.\<close>

lemma asks_inv_io:
  assumes "asks_inv pending R replies exns s" and "coros (links s) i = Holding a"
    and "a \<notin> down s \<Longrightarrow> link_ok R replies pc x y" and "ask_ok R replies pc"
    and "links t = links s" and "asked t = (asked s)(i := pc)" and "down t = down s"
    and "to_agent t = (to_agent s)(a := x)" and "from_agent t = (from_agent s)(a := y)"
  shows "asks_inv pending R replies exns t"
proof (rule asks_inv_update [OF assms(1) _ assms(4) _ assms(5,6)])
  show "\<not> seeking (coros (links s) i)" by (simp add: assms(2) seeking_def)
  show "wires_inv (link_ok R replies) (coros (links s)) (asked t) (to_agent t) (from_agent t) (down t)"
    unfolding assms(6-9)
    by (rule wires_update [OF asks_inv_wires [OF assms(1)] assms(2) _ assms(3)])
       (simp_all add: one_holder [OF asks_inv_pool [OF assms(1)] assms(2)])
qed

lemma link_held:
  "asks_inv pending R replies exns s \<Longrightarrow> coros (links s) i = Holding a \<Longrightarrow> a \<notin> down s \<Longrightarrow>
   asked s i = call \<Longrightarrow> link_ok R replies call (to_agent s a) (from_agent s a)"
  using wires_held [OF asks_inv_wires] by blast

section \<open>The steps keep it\<close>

lemma link_served:
  assumes "link_ok R replies call line inb" and "line \<noteq> []" and "replies line ans"
  shows "link_ok R replies call [] (inb @ ans)"
  using assms by (cases call) (auto simp: reply_for_def)

interpretation link_use: connection_use "link_ok R replies" "\<lambda>c. \<exists>body. c = Begun body" "\<lambda>c. \<exists>body r. c = Responded body r"
  by unfold_locales auto

lemma agent_pool_small: "AGENT_CONN_POOL_SIZE < 2 ^ 64"
  by (simp add: AGENT_CONN_POOL_SIZE_def)

lemma ask_step_inv:
  assumes "ask_step R replies arrives api exns s t" and "timer_laws api pending" and "one_piece arrives"
    and "short_replies replies" and "asks_inv pending R replies exns s"
  shows "asks_inv pending R replies exns t"
  using assms
proof (induction rule: ask_step.induct)
  case (begins s i body)
  note inv = begins.prems(4)
  have "wires_inv (link_ok R replies) (coros (links s)) ((asked s)(i := Begun body)) (to_agent s) (from_agent s) (down s)"
    using begins.hyps(2) by (intro wires_not_held asks_inv_wires [OF inv]) simp
  then show ?case
    using begins.hyps(2) by (intro asks_inv_update [OF inv, of i]) (simp_all add: seeking_def ask_ok_def)
next
  case (pool_moves s c)
  note inv = pool_moves.prems(4)
  have may: "ask_may_move (asked s i) (coros (links s) i) (coros c i)" for i using pool_moves.hyps(2) by blast
  have leaves: "\<exists>body. asked s i = Begun body" if "coros (links s) i = Resting" "coros c i \<noteq> Resting" for i
    using may [of i] that by (simp add: ask_may_move_def)
  have gives: "\<exists>body r. asked s i = Responded body r" if "coros (links s) i = Holding a" "coros c i \<noteq> Holding a" for i a
    using may [of i] that by (auto simp: ask_may_move_def)
  have "\<exists>body. asked s i = Begun body" if "seeking (coros c i)" for i
    by (rule link_use.pool_step_asks [OF pool_moves.hyps(1) pool_moves.prems(1) asks_inv_pool [OF inv] leaves
      asks_inv_seeking [OF inv] that])
  moreover have "wires_inv (link_ok R replies) (coros c) (asked s) (to_agent s) (from_agent s) (down s)"
    by (rule link_use.pool_step_wires [OF pool_moves.hyps(1) agent_pool_small asks_inv_pool [OF inv] leaves gives
      asks_inv_seeking [OF inv] asks_inv_wires [OF inv]])
  ultimately show ?case
    using coro_step_inv [OF pool_moves.hyps(1) agent_pool_small pool_moves.prems(1) asks_inv_pool [OF inv]]
      asks_inv_ask [OF inv] by (simp add: asks_inv_def)
next
  case (bad_body s i a body e)
  note inv = bad_body.prems(4)
  show ?case
    using link_held [OF inv bad_body.hyps(1) _ bad_body.hyps(2)]
    by (intro asks_inv_io [OF inv bad_body.hyps(1), where x = "to_agent s a" and y = "from_agent s a"])
       (simp_all add: ask_ok_def)
next
  case (write_line s i a body args)
  note inv = write_line.prems(4)
  show ?case
    using link_held [OF inv write_line.hyps(1) _ write_line.hyps(2)] write_line.hyps(3)
    by (intro asks_inv_io [OF inv write_line.hyps(1), where y = "from_agent s a"]) (simp_all add: ask_ok_def)
next
  case (serves s a line later ans)
  note inv = serves.prems(4)
  have later: "later = []" using serves.hyps(4) serves.prems(2) by (simp add: one_piece_def)
  have "\<exists>i. coros (links s) i = Holding a"
    using wires_free [OF asks_inv_wires [OF inv] _ serves.hyps(6)] serves.hyps(1,2) by fastforce
  then obtain i where i: "coros (links s) i = Holding a" by blast
  have "link_ok R replies (asked s i) line (from_agent s a)"
    using link_held [OF inv i serves.hyps(6) refl] serves.hyps(1) later by simp
  from link_served [OF this serves.hyps(2)] serves.hyps(5) later
  have "link_ok R replies (asked s i) later (from_agent s a @ ans)" by blast
  then show ?case
    using asks_inv_ask [OF inv, of i] by (intro asks_inv_io [OF inv i, where pc = "asked s i"]) simp_all
next
  case (session_ends s a)
  then show ?case by (auto simp: asks_inv_def wires_inv_def)
next
  case (read_answer s i a body bs later us)
  note inv = read_answer.prems(4)
  have later: "later = []" using read_answer.hyps(6) read_answer.prems(2) by (simp add: one_piece_def)
  have out: "to_agent s a = []" and ans: "reply_for R replies body bs"
    using link_held [OF inv read_answer.hyps(1,7,2)] read_answer.hyps(3,4) later by auto
  have "length bs < buffer_size \<and> 0 \<notin> set bs"
    using ans read_answer.prems(3) unfolding reply_for_def short_replies_def by blast
  then have "ask_ok R replies (Responded body (response_of bs))"
    using ans response_of_short [of bs] by (auto simp: ask_ok_def)
  then show ?case
    using out later by (intro asks_inv_io [OF inv read_answer.hyps(1), where x = "[]"]) auto
next
  case (io_error s i a body)
  note inv = io_error.prems(4)
  show ?case
    using io_error.hyps(1) wires_break [OF asks_inv_wires [OF inv] io_error.hyps(1)]
    by (intro asks_inv_update [OF inv, of i]) (simp_all add: seeking_def ask_ok_def)
qed

lemma asks_reach_inv:
  assumes "asks_reach R replies arrives api exns prov s" and "timer_laws api pending" and "one_piece arrives"
    and "short_replies replies" and "pool_ok AGENT_CONN_POOL_SIZE (prov_conns prov)" and "lent (prov_conns prov) = {}"
  shows "asks_inv pending R replies exns s"
  using assms
proof (induction rule: asks_reach.induct)
  case start
  then show ?case by (intro asks_inv_init)
next
  case (step s t)
  then show ?case by (blast intro: ask_step_inv)
qed

section \<open>A run\<close>

text \<open>One request from beginning to end, on the connection at address 0, for the witnesses.\<close>

definition run_provider :: "nat provider_info" where
  "run_provider = sample_provider\<lparr>prov_conns := single_pool 0 \<lparr>conn = 0\<rparr>\<rparr>"

definition borrowed_pool :: "nat pooled_conn pool" where
  "borrowed_pool =
     \<lparr>buffer = \<lparr>cells = [0 \<mapsto> \<lparr>data = \<lparr>conn = 0\<rparr>, prev = None, nxt = None, extra_info = False, magic = node_magic\<rparr>],
                head = Some 0, tail = Some 0, m_size = 1\<rparr>, free_list = []\<rparr>"

definition ask_state :: "ask_pc \<Rightarrow> byte list \<Rightarrow> byte list \<Rightarrow> (nat, nat list) ask_sys" where
  "ask_state pc out inb =
     \<lparr>links = \<lparr>cpool = borrowed_pool, event = [], coros = (\<lambda>_. Resting)(0 := Holding 0)\<rparr>,
      asked = (\<lambda>_. No_Request)(0 := pc), to_agent = (\<lambda>_. [])(0 := out), from_agent = (\<lambda>_. [])(0 := inb),
      down = {}, shared_latency = 50000\<rparr>"

definition ask_begun :: "string \<Rightarrow> (nat, nat list) ask_sys" where
  "ask_begun body = (init_asks list_timer run_provider)\<lparr>asked := (\<lambda>_. No_Request)(0 := Begun body)\<rparr>"

lemma run_provider_idle:
  "pool_ok AGENT_CONN_POOL_SIZE (prov_conns run_provider)" "lent (prov_conns run_provider) = {}"
  by (simp_all add: run_provider_def single_pool_ok AGENT_CONN_POOL_SIZE_def)

lemma ask_begins: "ask_step R replies arrives list_timer exns (init_asks list_timer run_provider) (ask_begun body)"
  using ask_step.begins [of "init_asks list_timer run_provider" 0]
  by (simp add: ask_begun_def init_asks_def)

lemma ask_borrows: "ask_step R replies arrives list_timer exns (ask_begun body) (ask_state (Begun body) [] [])"
proof -
  let ?c = "\<lparr>cpool = borrowed_pool, event = [], coros = (\<lambda>_. Resting)(0 := Holding 0)\<rparr>"
  have made: "coro_do_try_borrow_one AGENT_CONN_POOL_SIZE mk (single_pool 0 \<lparr>conn = 0\<rparr>) = (Inr (Some 0), borrowed_pool)" for mk
    by (simp add: borrowed_pool_def single_pool_def coro_eval)
  have adm: "admits exns (Inr (9, \<lparr>conn = 0\<rparr>)) (single_pool 0 \<lparr>conn = 0 :: nat\<rparr>)"
    by (simp add: admits_def fresh_for_def)
  note defs = ask_begun_def init_asks_def run_provider_def
  have "coro_step list_timer AGENT_CONN_POOL_SIZE exns (links (ask_begun body)) ?c"
    using coro_step.attempt [of "links (ask_begun body)" 0 exns "Inr (9, \<lparr>conn = 0\<rparr>)" AGENT_CONN_POOL_SIZE
        "Inr (Some 0)" borrowed_pool list_timer]
    by (simp add: defs made adm after_attempt_def list_timer_def event_new_def)
  moreover have "\<forall>i. ask_may_move (asked (ask_begun body) i) (coros (links (ask_begun body)) i) (coros ?c i)"
    by (simp add: defs ask_may_move_def)
  ultimately have "ask_step R replies arrives list_timer exns (ask_begun body) ((ask_begun body)\<lparr>links := ?c\<rparr>)"
    by (rule ask_step.pool_moves)
  then show ?thesis by (simp add: defs ask_state_def sample_provider_def fun_upd_idem)
qed

lemma ask_writes:
  "http_payload_to_dubbo_parameters R body = Inr args \<Longrightarrow>
   ask_step R replies arrives list_timer exns (ask_state (Begun body) [] [])
     (ask_state (Line_Sent body) (bytes_of (wire_text R args)) [])"
  using ask_step.write_line [of "ask_state (Begun body) [] []" 0 0 body R args] by (simp add: ask_state_def)

lemma ask_reads:
  "arrives ans [] \<Longrightarrow> ans \<noteq> [] \<Longrightarrow> length ans < buffer_size \<Longrightarrow> 0 \<notin> set ans \<Longrightarrow>
   ask_step R replies arrives list_timer exns (ask_state (Line_Sent body) [] ans)
     (ask_state (Responded body (Inr ((new_response Ok_200 11)\<lparr>res_body := string_of ans\<rparr>))) [] [])"
  using ask_step.read_answer [of "ask_state (Line_Sent body) [] ans" 0 0 body ans "[]" arrives R replies list_timer exns
      50000] response_of_short [of ans]
  by (simp add: ask_state_def)

lemma ask_served:
  "arrives line [] \<Longrightarrow> line \<noteq> [] \<Longrightarrow> length line \<le> buffer_size \<Longrightarrow> replies line ans \<Longrightarrow>
   ask_step R replies arrives list_timer exns (ask_state (Line_Sent body) line []) (ask_state (Line_Sent body) [] ans)"
  using ask_step.serves [of "ask_state (Line_Sent body) line []" 0 line "[]" arrives replies ans]
  by (simp add: ask_state_def)

section \<open>Properties\<close>



end
