(* ===== verification/Concurrent_Agents.thy ===== *)
theory Concurrent_Agents
  imports Provider_Coro Dubbo_Coro Two_Agents
begin

text \<open>
  Both agents at once: any number of requests under way in the consumer agent (\<open>Provider_Coro\<close>), a session of the
  provider agent (src/provider_agent.cc) for each connection between them, and the Dubbo calls of these sessions
  (\<open>Dubbo_Coro\<close>), all interleaved.
\<close>

section \<open>The state\<close>

text \<open>
  The session of a connection has the number of the connection, its coroutine too. \<open>serving\<close>: the line a session is
  busy with, from the read to the write of the answer.
\<close>

record ('s, 'u, 't) both_agents =
  consumer_side :: "('s, 't) ask_sys"
  provider_side :: "('u, 't) call_sys"
  serving :: "addr \<Rightarrow> byte list option"

definition init_both :: "('t, nat) timer_api \<Rightarrow> 's provider_info \<Rightarrow> ('s, 'u, 't) both_agents" where
  "init_both api prov =
     \<lparr>consumer_side = init_asks api prov, provider_side = init_calls api, serving = (\<lambda>_. None)\<rparr>"

section \<open>The steps\<close>

definition payload_of_args :: "rlib \<Rightarrow> string list \<Rightarrow> string" where
  "payload_of_args R args = request_payload R (args ! 0) (args ! 1) (args ! 2) (args ! 3)"

text \<open>Nothing else than a session begins a call.\<close>

definition begins_none :: "('u, 't) call_sys \<Rightarrow> ('u, 't) call_sys \<Rightarrow> bool" where
  "begins_none d d' \<longleftrightarrow>
     (\<forall>i. calls d i = Idle \<or> (\<exists>q n r. calls d i = Finished q n r) \<longrightarrow> calls d' i = calls d i)"

text \<open>
  The consumer's steps are those of \<open>ask_step\<close>, where no reply comes by itself. A session reads a line and makes the
  call, writes the value when the call has it and gave its connection back, or is ended by the exception. A line that
  does not split into four crashes the provider agent (\<open>Provider_Agent\<close>), and the run ends there; a
  session whose consumer closed the connection is one of those that are down.
\<close>

inductive both_step ::
  "rlib \<Rightarrow> (dubbo_header \<Rightarrow> byte list \<Rightarrow> dubbo_header \<times> byte list) \<Rightarrow> (byte list \<Rightarrow> byte list \<Rightarrow> bool) \<Rightarrow>
   ('t, nat) timer_api \<Rightarrow> error set \<Rightarrow> ('s, 'u, 't) both_agents \<Rightarrow> ('s, 'u, 't) both_agents \<Rightarrow> bool"
  for R reply arrives api exns where
  consumer: "ask_step R (\<lambda>_ _. False) arrives api exns (consumer_side s) c \<Longrightarrow>
     both_step R reply arrives api exns s (s\<lparr>consumer_side := c\<rparr>)"
| reads_line: "consumer_side s = c \<Longrightarrow> provider_side s = d \<Longrightarrow> serving s a = None \<Longrightarrow> a \<notin> down c \<Longrightarrow>
     to_agent c a = line @ later \<Longrightarrow> line \<noteq> [] \<Longrightarrow> length line \<le> buffer_size \<Longrightarrow> arrives line later \<Longrightarrow>
     c_string (filled_buffer line) = Inr text \<Longrightarrow> call_args R text = Inr args \<Longrightarrow>
     d' = d\<lparr>calls := (calls d)(a := Id_Loaded (payload_of_args R args) (next_id d))\<rparr> \<Longrightarrow>
     call_step R reply api DUBBO_CLI_CONN_POOL_SIZE exns d d' \<Longrightarrow>
     both_step R reply arrives api exns s
       (s\<lparr>consumer_side := c\<lparr>to_agent := (to_agent c)(a := later)\<rparr>, provider_side := d',
         serving := (serving s)(a := Some line)\<rparr>)"
| calls_move: "call_step R reply api DUBBO_CLI_CONN_POOL_SIZE exns (provider_side s) d \<Longrightarrow>
     begins_none (provider_side s) d \<Longrightarrow>
     both_step R reply arrives api exns s (s\<lparr>provider_side := d\<rparr>)"
| writes_value: "consumer_side s = c \<Longrightarrow> provider_side s = d \<Longrightarrow> serving s a = Some line \<Longrightarrow>
     calls d a = Finished q n (Inr res) \<Longrightarrow> coros (conns d) a = Resting \<Longrightarrow> result_status res = OK \<Longrightarrow>
     both_step R reply arrives api exns s
       (s\<lparr>consumer_side := c\<lparr>from_agent := (from_agent c)(a := from_agent c a @ bytes_of (result_value res))\<rparr>,
         serving := (serving s)(a := None)\<rparr>)"
| call_failed: "consumer_side s = c \<Longrightarrow> provider_side s = d \<Longrightarrow> serving s a = Some line \<Longrightarrow>
     calls d a = Finished q n r \<Longrightarrow> coros (conns d) a = Resting \<Longrightarrow> \<forall>res. r = Inr res \<longrightarrow> result_status res \<noteq> OK \<Longrightarrow>
     both_step R reply arrives api exns s
       (s\<lparr>consumer_side := c\<lparr>down := insert a (down c)\<rparr>, serving := (serving s)(a := None)\<rparr>)"

inductive both_reach ::
  "rlib \<Rightarrow> (dubbo_header \<Rightarrow> byte list \<Rightarrow> dubbo_header \<times> byte list) \<Rightarrow> (byte list \<Rightarrow> byte list \<Rightarrow> bool) \<Rightarrow>
   ('t, nat) timer_api \<Rightarrow> error set \<Rightarrow> 's provider_info \<Rightarrow> ('s, 'u, 't) both_agents \<Rightarrow> bool"
  for R reply arrives api exns prov where
  start: "both_reach R reply arrives api exns prov (init_both api prov)"
| step: "both_reach R reply arrives api exns prov s \<Longrightarrow> both_step R reply arrives api exns s t \<Longrightarrow>
     both_reach R reply arrives api exns prov t"

section \<open>What the consumer sees of the sessions\<close>

text \<open>A session answers a line with the value of the call whose arguments it finds in it.\<close>

definition session_replies ::
  "rlib \<Rightarrow> (dubbo_header \<Rightarrow> byte list \<Rightarrow> dubbo_header \<times> byte list) \<Rightarrow> byte list \<Rightarrow> byte list \<Rightarrow> bool" where
  "session_replies R reply line ans \<longleftrightarrow>
     (\<exists>text args n res. c_string (filled_buffer line) = Inr text \<and> call_args R text = Inr args \<and>
        result_for R reply (payload_of_args R args) n = Inr res \<and> result_status res = OK \<and>
        ans = bytes_of (result_value res))"

text \<open>A line a session is busy with counts as still on its way.\<close>

definition behind :: "(addr \<Rightarrow> byte list) \<Rightarrow> ('s, 't) ask_sys \<Rightarrow> ('s, 't) ask_sys" where
  "behind pre c = c\<lparr>to_agent := (\<lambda>a. pre a @ to_agent c a)\<rparr>"

definition seen_by_consumer :: "('s, 'u, 't) both_agents \<Rightarrow> ('s, 't) ask_sys" where
  "seen_by_consumer s = behind (\<lambda>a. case serving s a of None \<Rightarrow> [] | Some line \<Rightarrow> line) (consumer_side s)"

lemma behind_simps [simp]:
  "links (behind pre c) = links c" "asked (behind pre c) = asked c" "from_agent (behind pre c) = from_agent c"
  "down (behind pre c) = down c" "shared_latency (behind pre c) = shared_latency c" "to_agent (behind pre c) a = pre a @ to_agent c a"
  "behind pre (c\<lparr>links := l\<rparr>) = (behind pre c)\<lparr>links := l\<rparr>"
  "behind pre (c\<lparr>asked := f\<rparr>) = (behind pre c)\<lparr>asked := f\<rparr>"
  "behind pre (c\<lparr>from_agent := g\<rparr>) = (behind pre c)\<lparr>from_agent := g\<rparr>"
  "behind pre (c\<lparr>down := D\<rparr>) = (behind pre c)\<lparr>down := D\<rparr>"
  "behind pre (c\<lparr>shared_latency := us\<rparr>) = (behind pre c)\<lparr>shared_latency := us\<rparr>"
  by (simp_all add: behind_def)

lemma behind_write:
  "behind pre (c\<lparr>to_agent := (to_agent c)(a := to_agent c a @ x)\<rparr>) =
   (behind pre c)\<lparr>to_agent := (to_agent (behind pre c))(a := to_agent (behind pre c) a @ x)\<rparr>"
  by (rule ask_sys.equality) (auto simp: behind_def)

lemma behind_nothing [simp]: "behind (\<lambda>_. []) c = c"
  by (simp add: behind_def)

lemma seen_by_consumer_simps [simp]:
  "links (seen_by_consumer s) = links (consumer_side s)" "asked (seen_by_consumer s) = asked (consumer_side s)"
  "from_agent (seen_by_consumer s) = from_agent (consumer_side s)" "down (seen_by_consumer s) = down (consumer_side s)"
  "shared_latency (seen_by_consumer s) = shared_latency (consumer_side s)"
  "to_agent (seen_by_consumer s) a =
    (case serving s a of None \<Rightarrow> [] | Some line \<Rightarrow> line) @ to_agent (consumer_side s) a"
  by (simp_all add: seen_by_consumer_def)

text \<open>The consumer's steps do not depend on what is in front of what it writes.\<close>

lemma ask_step_behind:
  assumes "ask_step R (\<lambda>_ _. False) arrives api exns c c'"
  shows "ask_step R replies arrives api exns (behind pre c) (behind pre c')"
  using assms
proof (induction rule: ask_step.induct)
  case (begins s i body)
  then show ?case using ask_step.begins [of "behind pre s" i] by simp
next
  case (pool_moves s c)
  then show ?case using ask_step.pool_moves [of api exns "behind pre s" c] by simp
next
  case (bad_body s i a body e)
  then show ?case using ask_step.bad_body [of "behind pre s" i a body] by simp
next
  case (write_line s i a body args)
  then show ?case
    using ask_step.write_line [of "behind pre s" i a body R args] by (simp add: behind_write)
next
  case (session_ends s a)
  then show ?case using ask_step.session_ends [of _ _ _ _ _ "behind pre s" a] by simp
next
  case (read_answer s i a body bs later us)
  then show ?case
    using ask_step.read_answer [of "behind pre s" i a body bs later arrives R replies api exns us] by simp
next
  case (io_error s i a body)
  then show ?case using ask_step.io_error [of "behind pre s" i a body] by simp
qed simp

text \<open>What is on the way to and from a connection that is down does not matter.\<close>

lemma asks_inv_lost:
  assumes "asks_inv pending R replies exns s" and "links t = links s" and "asked t = asked s" and "down s \<subseteq> down t"
    and "\<And>a. a \<notin> down t \<Longrightarrow> to_agent t a = to_agent s a \<and> from_agent t a = from_agent s a"
  shows "asks_inv pending R replies exns t"
  using assms unfolding asks_inv_def wires_inv_def by (simp add: subset_iff) blast

section \<open>The invariant\<close>

text \<open>A busy session serves the one line there is, and its call is the one for it.\<close>

definition serves_line ::
  "rlib \<Rightarrow> (byte list \<Rightarrow> byte list \<Rightarrow> bool) \<Rightarrow> call_pc \<Rightarrow> byte list \<Rightarrow> bool" where
  "serves_line R arrives call line \<longleftrightarrow>
     line \<noteq> [] \<and> length line \<le> buffer_size \<and> arrives line [] \<and>
     (\<exists>text args. c_string (filled_buffer line) = Inr text \<and> call_args R text = Inr args \<and>
        payload_of call = Some (payload_of_args R args))"

definition both_inv ::
  "('t \<Rightarrow> nat list) \<Rightarrow> rlib \<Rightarrow> (dubbo_header \<Rightarrow> byte list \<Rightarrow> dubbo_header \<times> byte list) \<Rightarrow>
   (byte list \<Rightarrow> byte list \<Rightarrow> bool) \<Rightarrow> error set \<Rightarrow> ('s, 'u, 't) both_agents \<Rightarrow> bool" where
  "both_inv pending R reply arrives exns s \<longleftrightarrow>
     asks_inv pending R (session_replies R reply) exns (seen_by_consumer s) \<and>
     calls_inv pending R reply DUBBO_CLI_CONN_POOL_SIZE exns (provider_side s) \<and>
     (\<forall>a line. serving s a = Some line \<longrightarrow>
        serves_line R arrives (calls (provider_side s) a) line \<and>
        (a \<notin> down (consumer_side s) \<longrightarrow> to_agent (consumer_side s) a = []))"

lemma both_inv_asks: "both_inv pending R reply arrives exns s \<Longrightarrow>
    asks_inv pending R (session_replies R reply) exns (seen_by_consumer s)"
  and both_inv_calls: "both_inv pending R reply arrives exns s \<Longrightarrow>
    calls_inv pending R reply DUBBO_CLI_CONN_POOL_SIZE exns (provider_side s)"
  and both_inv_line: "both_inv pending R reply arrives exns s \<Longrightarrow> serving s a = Some line \<Longrightarrow>
    serves_line R arrives (calls (provider_side s) a) line"
  and both_inv_alone: "both_inv pending R reply arrives exns s \<Longrightarrow> serving s a = Some line \<Longrightarrow>
    a \<notin> down (consumer_side s) \<Longrightarrow> to_agent (consumer_side s) a = []"
  by (simp_all add: both_inv_def)

lemma seen_at_start [simp]: "seen_by_consumer (init_both api prov) = init_asks api prov"
  by (simp add: seen_by_consumer_def init_both_def)

lemma both_inv_init:
  assumes "timer_laws api pending" and "pool_ok AGENT_CONN_POOL_SIZE (prov_conns prov)" and "lent (prov_conns prov) = {}"
  shows "both_inv pending R reply arrives exns (init_both api prov)"
  using asks_inv_init [OF assms] calls_inv_init [OF assms(1)] by (simp add: both_inv_def) (simp add: init_both_def)

text \<open>A call that goes on keeps its payload.\<close>

lemma call_step_payload:
  assumes "call_step R reply api m exns d d'" and "begins_none d d'"
  shows "payload_of (calls d' i) = payload_of (calls d i)"
  using assms
proof (induction rule: call_step.induct)
  case (load_id s j payload svc meth types arg)
  then show ?case by (fastforce simp: begins_none_def)
next
  case (read_header s j a q n bs later)
  then show ?case by (auto simp: after_header_def split: sum.splits)
next
  case (io_error s j a q n ec)
  then show ?case by (cases "calls s j") auto
qed auto

lemma consumer_keeps_alone:
  assumes "ask_step R (\<lambda>_ _. False) arrives api exns c c'" and "a \<notin> down c'" and "to_agent c a = []"
    and "\<And>i body. coros (links c) i = Holding a \<Longrightarrow> asked c i \<noteq> Begun body"
  shows "to_agent c' a = []"
  using assms by (induction rule: ask_step.induct) auto

lemma consumer_down_grows: "ask_step R replies arrives api exns c c' \<Longrightarrow> down c \<subseteq> down c'"
  by (induction rule: ask_step.induct) auto

text \<open>A session that ends its work on a line leaves the others as they are.\<close>

lemma both_inv_done:
  assumes "both_inv pending R reply arrives exns s" and "provider_side t = provider_side s"
    and "serving t = (serving s)(a := None)" and "down (consumer_side s) \<subseteq> down (consumer_side t)"
    and "to_agent (consumer_side t) = to_agent (consumer_side s)"
    and "asks_inv pending R (session_replies R reply) exns (seen_by_consumer t)"
  shows "both_inv pending R reply arrives exns t"
  using assms unfolding both_inv_def by (auto simp: subset_iff split: if_splits)

lemma reading_keeps_inv:
  assumes inv: "both_inv pending R reply arrives exns s" and "timer_laws api pending" and "one_piece arrives"
    and "reply_laws reply" and "rlib_laws R"
    and c: "consumer_side s = c" "provider_side s = d" "serving s a = None"
    and line: "to_agent c a = line @ later" "line \<noteq> []" "length line \<le> buffer_size" "arrives line later"
    and parsed: "c_string (filled_buffer line) = Inr text" "call_args R text = Inr args"
    and d': "d' = d\<lparr>calls := (calls d)(a := Id_Loaded (payload_of_args R args) (next_id d))\<rparr>"
      "call_step R reply api DUBBO_CLI_CONN_POOL_SIZE exns d d'"
  shows "both_inv pending R reply arrives exns
    (s\<lparr>consumer_side := c\<lparr>to_agent := (to_agent c)(a := later)\<rparr>, provider_side := d',
       serving := (serving s)(a := Some line)\<rparr>)" (is "both_inv _ _ _ _ _ ?t")
proof -
  have later: "later = []" using line(4) assms(3) by (simp add: one_piece_def)
  have seen: "seen_by_consumer ?t = seen_by_consumer s"
    by (rule ask_sys.equality) (use c line(1) later in \<open>auto simp: fun_eq_iff\<close>)
  have "calls_inv pending R reply DUBBO_CLI_CONN_POOL_SIZE exns d'"
    using call_step_inv [OF d'(2) _ assms(2,4,5)] both_inv_calls [OF inv] c(2) by (simp add: DUBBO_CLI_CONN_POOL_SIZE_def)
  moreover have "serves_line R arrives (calls d' a) line"
    using line later parsed d'(1) by (simp add: serves_line_def)
  moreover have "serves_line R arrives (calls d' b) l \<and> (b \<notin> down c \<longrightarrow> to_agent c b = [])"
    if "serving s b = Some l" "b \<noteq> a" for b l
    using both_inv_line [OF inv that(1)] both_inv_alone [OF inv that(1)] c d'(1) that(2) by simp
  ultimately show ?thesis
    using both_inv_asks [OF inv] seen later by (auto simp: both_inv_def)
qed

lemma writing_keeps_inv:
  assumes inv: "both_inv pending R reply arrives exns s" and "timer_laws api pending" and "one_piece arrives"
    and "short_replies (session_replies R reply)"
    and c: "consumer_side s = c" "provider_side s = d" "serving s a = Some line"
    and fin: "calls d a = Finished q n (Inr res)" "result_status res = OK"
  shows "both_inv pending R reply arrives exns
    (s\<lparr>consumer_side := c\<lparr>from_agent := (from_agent c)(a := from_agent c a @ bytes_of (result_value res))\<rparr>,
       serving := (serving s)(a := None)\<rparr>)" (is "both_inv _ _ _ _ _ ?t")
proof (rule both_inv_done [OF inv, of _ a])
  let ?x = "bytes_of (result_value res)"
  have call: "serves_line R arrives (Finished q n (Inr res)) line" "result_for R reply q n = Inr res"
    using both_inv_line [OF inv c(3)] calls_inv_call [OF both_inv_calls [OF inv], of a] c(2) fin(1)
    by (simp_all add: call_ok_def)
  then have line: "line \<noteq> []" "length line \<le> buffer_size" "arrives line []" "session_replies R reply line ?x"
    using fin(2) by (auto simp: serves_line_def session_replies_def)
  show "asks_inv pending R (session_replies R reply) exns (seen_by_consumer ?t)"
  proof (cases "a \<in> down c")
    case True
    then show ?thesis
      using c by (intro asks_inv_lost [OF both_inv_asks [OF inv]]) auto
  next
    case False
    let ?s = "seen_by_consumer s"
    have alone: "to_agent c a = []" using both_inv_alone [OF inv c(3)] False c(1) by simp
    have "ask_step R (session_replies R reply) arrives api exns ?s
        (?s\<lparr>to_agent := (to_agent ?s)(a := []), from_agent := (from_agent ?s)(a := from_agent ?s a @ ?x)\<rparr>)"
      by (rule ask_step.serves [where line = line]) (use c alone line False in simp_all)
    also have "?s\<lparr>to_agent := (to_agent ?s)(a := []), from_agent := (from_agent ?s)(a := from_agent ?s a @ ?x)\<rparr> =
        seen_by_consumer ?t"
      by (rule ask_sys.equality) (use c alone in \<open>auto simp: fun_eq_iff\<close>)
    finally show ?thesis by (rule ask_step_inv [OF _ assms(2-4) both_inv_asks [OF inv]])
  qed
qed (use c in simp_all)

lemma both_step_inv:
  assumes "both_step R reply arrives api exns s t" and "timer_laws api pending" and "one_piece arrives"
    and "reply_laws reply" and "rlib_laws R" and "short_replies (session_replies R reply)"
    and "both_inv pending R reply arrives exns s"
  shows "both_inv pending R reply arrives exns t"
  using assms
proof (induction rule: both_step.induct)
  case (consumer s c)
  note inv = consumer.prems(6)
  let ?pre = "\<lambda>a. case serving s a of None \<Rightarrow> [] | Some line \<Rightarrow> line"
  have "ask_step R (session_replies R reply) arrives api exns (seen_by_consumer s) (behind ?pre c)"
    unfolding seen_by_consumer_def by (rule ask_step_behind [OF consumer.hyps])
  from ask_step_inv [OF this consumer.prems(1,2,5) both_inv_asks [OF inv]]
  have "asks_inv pending R (session_replies R reply) exns (seen_by_consumer (s\<lparr>consumer_side := c\<rparr>))"
    by (simp add: seen_by_consumer_def)
  moreover have "to_agent c a = []" if a: "serving s a = Some line" "a \<notin> down c" for a line
  proof (rule consumer_keeps_alone [OF consumer.hyps a(2)])
    have up: "a \<notin> down (consumer_side s)" using consumer_down_grows [OF consumer.hyps] a(2) by blast
    then show "to_agent (consumer_side s) a = []" using both_inv_alone [OF inv a(1)] by blast
    fix i body
    assume i: "coros (links (consumer_side s)) i = Holding a"
    show "asked (consumer_side s) i \<noteq> Begun body"
      using link_held [OF both_inv_asks [OF inv], of i a] i up a(1) both_inv_line [OF inv a(1)]
      by (auto simp: serves_line_def)
  qed
  ultimately show ?case using inv by (auto simp: both_inv_def)
next
  case (reads_line s c d a line later str args d')
  show ?case
    by (rule reading_keeps_inv [OF reads_line.prems(6,1,2,3,4) reads_line.hyps(1-3,5-12)])
next
  case (calls_move s d)
  note inv = calls_move.prems(6)
  have "calls_inv pending R reply DUBBO_CLI_CONN_POOL_SIZE exns d"
    using call_step_inv [OF calls_move.hyps(1) _ calls_move.prems(1,3,4) both_inv_calls [OF inv]]
    by (simp add: DUBBO_CLI_CONN_POOL_SIZE_def)
  then show ?case
    using inv call_step_payload [OF calls_move.hyps]
    by (simp add: both_inv_def serves_line_def seen_by_consumer_def)
next
  case (writes_value s c d a line q n res)
  show ?case
    by (rule writing_keeps_inv [OF writes_value.prems(6,1,2,5) writes_value.hyps(1-4,6)])
next
  case (call_failed s c d a line q n r)
  have c: "consumer_side s = c" by (rule call_failed.hyps(1))
  show ?case
    by (rule both_inv_done [OF call_failed.prems(6), of _ a])
       (use c in \<open>auto intro!: asks_inv_lost [OF both_inv_asks [OF call_failed.prems(6)]]\<close>)
qed

lemma both_reach_inv:
  assumes "both_reach R reply arrives api exns prov s" and "timer_laws api pending" and "one_piece arrives"
    and "reply_laws reply" and "rlib_laws R" and "short_replies (session_replies R reply)"
    and "pool_ok AGENT_CONN_POOL_SIZE (prov_conns prov)" and "lent (prov_conns prov) = {}"
  shows "both_inv pending R reply arrives exns s"
  using assms
proof (induction rule: both_reach.induct)
  case start
  then show ?case by (intro both_inv_init)
next
  case (step s t)
  then show ?case by (blast intro: both_step_inv)
qed

section \<open>The line between\<close>

lemma c_string_line:
  assumes "rlib_laws R" and "crossing_args args"
  shows "c_string (filled_buffer (bytes_of (wire_text R args))) = Inr (wire_text R args)"
proof -
  note l = line_of_args [OF assms]
  have "CHR 0x00 \<notin> set (wire_text R args)"
    using l(3) set_intercalate [of "[LF]" args] by (auto simp: wire_text_def rl_join [OF assms(1)])
  then show ?thesis using l(1) by (rule c_string_bytes_of)
qed

text \<open>The values the Dubbo server gives fit the buffer as C strings.\<close>

definition short_values ::
  "rlib \<Rightarrow> (dubbo_header \<Rightarrow> byte list \<Rightarrow> dubbo_header \<times> byte list) \<Rightarrow> bool" where
  "short_values R reply \<longleftrightarrow>
     (\<forall>q n res. result_for R reply q n = Inr res \<longrightarrow>
        CHR 0x00 \<notin> set (result_value res) \<and> length (result_value res) < buffer_size)"

lemma short_values_replies: "short_values R reply \<Longrightarrow> short_replies (session_replies R reply)"
  unfolding short_values_def short_replies_def session_replies_def using bytes_of_no_zero by fastforce

section \<open>A run\<close>

text \<open>One request through both agents, for the witnesses: the runs of \<open>Provider_Coro\<close> and \<open>Dubbo_Coro\<close>, joined.\<close>

lemma both_reach_consumer:
  "both_reach R reply arrives api exns prov \<lparr>consumer_side = c, provider_side = d, serving = l\<rparr> \<Longrightarrow>
   ask_step R (\<lambda>_ _. False) arrives api exns c c' \<Longrightarrow>
   both_reach R reply arrives api exns prov \<lparr>consumer_side = c', provider_side = d, serving = l\<rparr>"
  using both_reach.step [OF _ both_step.consumer [of R arrives api exns "\<lparr>consumer_side = c, provider_side = d, serving = l\<rparr>" c' reply]]
  by simp

lemma both_reach_calls:
  "both_reach R reply arrives api exns prov \<lparr>consumer_side = c, provider_side = d, serving = l\<rparr> \<Longrightarrow>
   call_step R reply api DUBBO_CLI_CONN_POOL_SIZE exns d d' \<Longrightarrow> begins_none d d' \<Longrightarrow>
   both_reach R reply arrives api exns prov \<lparr>consumer_side = c, provider_side = d', serving = l\<rparr>"
  using both_reach.step [OF _ both_step.calls_move [of R reply api exns
      "\<lparr>consumer_side = c, provider_side = d, serving = l\<rparr>" d' arrives]]
  by simp

text \<open>The pool of the provider agent after the call gave its connection back.\<close>

definition run_rested :: "call_pc \<Rightarrow> coro_pc \<Rightarrow> (nat, nat list) call_sys" where
  "run_rested pc at = (run_state pc [] [])\<lparr>conns := \<lparr>cpool = snd (coro_release_one 5 run_pool), event = [],
     coros = (\<lambda>_. Resting)(0 := at)\<rparr>\<rparr>"

lemma run_gives_back:
  "call_step plain_rlib run_reply list_timer m {} (run_state (Finished q n r) [] []) (run_rested (Finished q n r) Notifying)"
proof -
  let ?s = "run_state (Finished q n r) [] []"
  obtain p where p: "coro_release_one 5 run_pool = (Inr (), p)"
    by (simp add: run_pool_def coro_eval)
  have "coro_step list_timer m {} (conns ?s) (conns (run_rested (Finished q n r) Notifying))"
    using coro_step.give_back [of "conns ?s" 0 5 "Inr ()" p list_timer m "{}"] p
    by (simp add: run_state_def run_rested_def after_give_back_def)
  moreover have "\<forall>i. may_move (calls ?s i) (coros (conns ?s) i) (coros (conns (run_rested (Finished q n r) Notifying)) i)"
    by (simp add: run_state_def run_rested_def may_move_def)
  ultimately have "call_step plain_rlib run_reply list_timer m {} ?s (?s\<lparr>conns := conns (run_rested (Finished q n r) Notifying)\<rparr>)"
    by (rule call_step.pool_moves)
  then show ?thesis by (simp add: run_rested_def)
qed

lemma run_signals:
  "call_step plain_rlib run_reply list_timer m {} (run_rested pc Notifying) (run_rested pc Resting)"
proof -
  let ?s = "run_rested pc Notifying"
  have "coro_step list_timer m {} (conns ?s) (conns (run_rested pc Resting))"
    using coro_step.signal [of "conns ?s" 0 list_timer "[]" "[]" m "{}"]
    by (simp add: run_rested_def event_notify_one_def list_timer_def wake_all_def)
  moreover have "\<forall>i. may_move (calls ?s i) (coros (conns ?s) i) (coros (conns (run_rested pc Resting)) i)"
    by (simp add: run_state_def run_rested_def may_move_def)
  ultimately have "call_step plain_rlib run_reply list_timer m {} ?s (?s\<lparr>conns := conns (run_rested pc Resting)\<rparr>)"
    by (rule call_step.pool_moves)
  then show ?thesis by (simp add: run_rested_def)
qed

lemma run_begins_none:
  "begins_none run_loaded run_numbered" "begins_none run_numbered (run_state (Numbered q n) x y)"
  "begins_none (run_state (Numbered q n) x y) (run_state pc x' y')"
  "begins_none (run_state (Header_Sent q n) x y) (run_state pc x' y')"
  "begins_none (run_state (Payload_Sent q n) x y) (run_state pc x' y')"
  "begins_none (run_state (Header_Read q n h) x y) (run_state pc x' y')"
  "begins_none (run_state pc [] []) (run_rested pc at)" "begins_none (run_rested pc at) (run_rested pc at')"
  by (simp_all add: begins_none_def run_loaded_def run_numbered_def init_calls_def run_state_def run_rested_def)

text \<open>From the loaded id to the result, with the connection back in the pool.\<close>

lemma run_calls:
  assumes "both_reach plain_rlib run_reply arrives list_timer {} prov
    \<lparr>consumer_side = c, provider_side = run_loaded, serving = l\<rparr>"
  shows "both_reach plain_rlib run_reply arrives list_timer {} prov \<lparr>consumer_side = c, provider_side =
    run_rested (Finished run_payload 0x1998427 (result_for plain_rlib run_reply run_payload 0x1998427)) Resting, serving = l\<rparr>"
proof -
  have pos: "0 < DUBBO_CLI_CONN_POOL_SIZE" by (simp add: DUBBO_CLI_CONN_POOL_SIZE_def)
  note r = both_reach_calls [OF _ _ run_begins_none(1)] both_reach_calls [OF _ _ run_begins_none(2)]
    both_reach_calls [OF _ _ run_begins_none(3)] both_reach_calls [OF _ _ run_begins_none(4)]
    both_reach_calls [OF _ _ run_begins_none(5)] both_reach_calls [OF _ _ run_begins_none(6)]
    both_reach_calls [OF _ _ run_begins_none(7)] both_reach_calls [OF _ _ run_begins_none(8)]
  from r(1) [OF assms run_numbers]
  have "both_reach plain_rlib run_reply arrives list_timer {} prov
      \<lparr>consumer_side = c, provider_side = run_numbered, serving = l\<rparr>" .
  from r(3) [OF r(2) [OF this run_borrows [OF pos]] run_writes_header]
  have "both_reach plain_rlib run_reply arrives list_timer {} prov \<lparr>consumer_side = c, provider_side =
      run_state (Header_Sent run_payload 0x1998427) (header_bytes run_request) [], serving = l\<rparr>" .
  from r(5) [OF r(5) [OF r(4) [OF this run_writes_payload] run_serves] run_reads_header]
  have "both_reach plain_rlib run_reply arrives list_timer {} prov \<lparr>consumer_side = c, provider_side =
      run_state (Header_Read run_payload 0x1998427 (sample_answer_header 5)) [] run_answer, serving = l\<rparr>" .
  from r(8) [OF r(7) [OF r(6) [OF this run_reads_payload] run_gives_back] run_signals] show ?thesis .
qed

abbreviation run_args :: "string list" where
  "run_args \<equiv> [''S'', ''m'', ''T'', ''x'']"

abbreviation run_line :: "byte list" where
  "run_line \<equiv> bytes_of (wire_text plain_rlib run_args)"

lemma run_args_cross: "crossing_args run_args"
  by (simp add: crossing_args_def buffer_size_def numeral_2_eq_2)

lemma run_line_parsed:
  "c_string (filled_buffer run_line) = Inr (wire_text plain_rlib run_args)"
  "call_args plain_rlib (wire_text plain_rlib run_args) = Inr run_args"
  "run_line \<noteq> []" "length run_line \<le> buffer_size"
proof -
  note l = line_of_args [OF plain_rlib_laws run_args_cross]
  show "call_args plain_rlib (wire_text plain_rlib run_args) = Inr run_args"
    by (rule read_line_args [OF plain_rlib_laws l(4,3)])
  show "c_string (filled_buffer run_line) = Inr (wire_text plain_rlib run_args)"
    by (rule c_string_line [OF plain_rlib_laws run_args_cross])
  show "run_line \<noteq> []" "length run_line \<le> buffer_size" using l(1,2) by (simp_all add: bytes_of_def)
qed

lemma run_result:
  "result_for plain_rlib run_reply q n =
     Inr \<lparr>result_status = OK, type_of_result = RESPONSE_VALUE, result_value = ''42''\<rparr>"
  using answer_result_text [OF plain_rlib_laws, of "sample_answer_header 5" 1 "''42''"]
  by (simp add: result_for_def answer_to_def run_reply_def sample_answer_header_def status_of_def result_type_of_def)

abbreviation run_body :: string where
  "run_body \<equiv> form_body run_args"

abbreviation in_one_piece :: "byte list \<Rightarrow> byte list \<Rightarrow> bool" where
  "in_one_piece \<equiv> \<lambda>_ later. later = []"

lemma both_run_reads_line:
  "both_reach plain_rlib run_reply in_one_piece list_timer {} run_provider \<lparr>consumer_side = ask_state (Line_Sent run_body) [] [],
     provider_side = run_loaded, serving = (\<lambda>_. None)(0 := Some run_line)\<rparr>"
proof -
  let ?R = plain_rlib and ?c = "ask_state (Line_Sent run_body) run_line []"
  let ?d = "init_calls list_timer :: (nat, nat list) call_sys"
  note go = both_reach_consumer
  have "both_reach ?R run_reply in_one_piece list_timer {} run_provider
      \<lparr>consumer_side = init_asks list_timer run_provider, provider_side = ?d, serving = \<lambda>_. None\<rparr>"
    using both_reach.start unfolding init_both_def .
  from go [OF go [OF go [OF this ask_begins] ask_borrows] ask_writes [OF crossing_args_parsed [OF plain_rlib_laws run_args_cross]]]
  have r: "both_reach ?R run_reply in_one_piece list_timer {} run_provider
      \<lparr>consumer_side = ?c, provider_side = ?d, serving = \<lambda>_. None\<rparr>" .
  have loaded: "run_loaded = ?d\<lparr>calls := (calls ?d)(0 := Id_Loaded (payload_of_args ?R run_args) (next_id ?d))\<rparr>"
    by (simp add: run_loaded_def payload_of_args_def run_payload_def init_calls_def new_dubbo_client_def)
  have "both_step ?R run_reply in_one_piece list_timer {} \<lparr>consumer_side = ?c, provider_side = ?d, serving = \<lambda>_. None\<rparr>
      (\<lparr>consumer_side = ?c, provider_side = ?d, serving = \<lambda>_. None\<rparr>
        \<lparr>consumer_side := ?c\<lparr>to_agent := (to_agent ?c)(0 := [])\<rparr>, provider_side := run_loaded,
          serving := (\<lambda>_. None)(0 := Some run_line)\<rparr>)"
    using both_step.reads_line [of "\<lparr>consumer_side = ?c, provider_side = ?d, serving = \<lambda>_. None\<rparr>" ?c ?d 0 run_line
        "[]" in_one_piece "wire_text ?R run_args" ?R run_args run_loaded run_reply list_timer "{}"]
      run_line_parsed loaded run_loads
    by (simp add: ask_state_def)
  from both_reach.step [OF r this] show ?thesis by (simp add: ask_state_def)
qed

lemma both_run:
  "both_reach plain_rlib run_reply in_one_piece list_timer {} run_provider
     \<lparr>consumer_side = ask_state (Responded run_body (Inr ((new_response Ok_200 11)\<lparr>res_body := ''42''\<rparr>))) [] [],
      provider_side = run_rested (Finished run_payload 0x1998427
        (result_for plain_rlib run_reply run_payload 0x1998427)) Resting, serving = \<lambda>_. None\<rparr>"
proof -
  let ?R = plain_rlib and ?c = "ask_state (Line_Sent run_body) [] []" and ?ans = "bytes_of ''42''"
  let ?d = "run_rested (Finished run_payload 0x1998427 (result_for ?R run_reply run_payload 0x1998427)) Resting"
  let ?s = "\<lparr>consumer_side = ?c, provider_side = ?d, serving = (\<lambda>_. None)(0 := Some run_line)\<rparr>"
  have ans: "?ans \<noteq> []" "length ?ans < buffer_size" "0 \<notin> set ?ans"
    using bytes_of_no_zero [of "''42''"] by (simp_all add: buffer_size_def) (simp add: bytes_of_def)
  have "calls ?d 0 = Finished run_payload 0x1998427
      (Inr \<lparr>result_status = OK, type_of_result = RESPONSE_VALUE, result_value = ''42''\<rparr>)"
    by (simp add: run_rested_def run_state_def run_result)
  then have "both_step ?R run_reply in_one_piece list_timer {} ?s (?s
      \<lparr>consumer_side := ?c\<lparr>from_agent := (from_agent ?c)(0 := from_agent ?c 0 @ ?ans)\<rparr>, serving := (serving ?s)(0 := None)\<rparr>)"
    using both_step.writes_value [of ?s ?c ?d 0 run_line run_payload "0x1998427"
        "\<lparr>result_status = OK, type_of_result = RESPONSE_VALUE, result_value = ''42''\<rparr>" ?R run_reply in_one_piece list_timer "{}"]
    by (simp add: run_rested_def)
  from both_reach.step [OF run_calls [OF both_run_reads_line] this]
  have "both_reach ?R run_reply in_one_piece list_timer {} run_provider
      \<lparr>consumer_side = ask_state (Line_Sent run_body) [] ?ans, provider_side = ?d, serving = \<lambda>_. None\<rparr>"
    by (simp add: ask_state_def)
  from both_reach_consumer [OF this ask_reads [OF refl ans]] show ?thesis by simp
qed

section \<open>Properties\<close>



end
