(* ===== verification/Programs.thy ===== *)
theory Programs
  imports Prelude
begin

text \<open>
  What it means that a component implements an abstract one for a client that calls its operations one
  after the other: every program of calls observes the same values, and ends in the same error, on both.
  A call is a value, an operation of either side is one step of its interpreter, and a call is legal when the
  client keeps its side of the contract, which is a matter of the abstract state alone.
\<close>

section \<open>Programs of calls\<close>

fun run_calls :: "('op \<Rightarrow> 's \<Rightarrow> ('r \<times> 's) result) \<Rightarrow> 'op list \<Rightarrow> 's \<Rightarrow> ('r list \<times> 's) result" where
  "run_calls step [] s = Inr ([], s)"
| "run_calls step (op # ops) s =
     bind_result (step op s) (\<lambda>(r, s1).
     bind_result (run_calls step ops s1) (\<lambda>(rs, s2). Inr (r # rs, s2)))"

fun legal_calls :: "('op \<Rightarrow> 's \<Rightarrow> ('r \<times> 's) result) \<Rightarrow> ('op \<Rightarrow> 's \<Rightarrow> bool) \<Rightarrow> 'op list \<Rightarrow> 's \<Rightarrow> bool" where
  "legal_calls step legal [] s = True"
| "legal_calls step legal (op # ops) s =
     (legal op s \<and> (case step op s of Inl e \<Rightarrow> True | Inr (r, s1) \<Rightarrow> legal_calls step legal ops s1))"

section \<open>Refinement\<close>

text \<open>
  One outcome against another: the same error, or the same value and states that are related again.
\<close>

definition same_outcome :: "('c \<Rightarrow> 'a \<Rightarrow> bool) \<Rightarrow> ('r \<times> 'c) result \<Rightarrow> ('r \<times> 'a) result \<Rightarrow> bool" where
  "same_outcome rel x y \<longleftrightarrow>
     (case y of Inl e \<Rightarrow> x = Inl e | Inr (r, a) \<Rightarrow> (\<exists>c. x = Inr (r, c) \<and> rel c a))"

lemma same_outcome_Inl [simp]: "same_outcome rel x (Inl e) \<longleftrightarrow> x = Inl e"
  by (simp add: same_outcome_def)

lemma same_outcome_Inr [simp]: "same_outcome rel x (Inr (r, a)) \<longleftrightarrow> (\<exists>c. x = Inr (r, c) \<and> rel c a)"
  by (simp add: same_outcome_def)

locale program_refinement =
  fixes step :: "'op \<Rightarrow> 'c \<Rightarrow> ('r \<times> 'c) result"
    and spec :: "'op \<Rightarrow> 'a \<Rightarrow> ('r \<times> 'a) result"
    and rel :: "'c \<Rightarrow> 'a \<Rightarrow> bool"
    and legal :: "'op \<Rightarrow> 'a \<Rightarrow> bool"
  assumes call_refines: "rel c a \<Longrightarrow> legal op a \<Longrightarrow> same_outcome rel (step op c) (spec op a)"
begin

lemma calls_refine:
  "rel c a \<Longrightarrow> legal_calls spec legal ops a \<Longrightarrow> same_outcome rel (run_calls step ops c) (run_calls spec ops a)"
proof (induction ops arbitrary: c a)
  case (Cons op ops)
  have one: "same_outcome rel (step op c) (spec op a)" using call_refines Cons.prems by simp
  show ?case
  proof (cases "spec op a")
    case (Inl e)
    with one show ?thesis by simp
  next
    case (Inr y)
    then obtain r a1 where a1: "spec op a = Inr (r, a1)" by (cases y) simp
    with one obtain c1 where c1: "step op c = Inr (r, c1)" "rel c1 a1" by auto
    have "same_outcome rel (run_calls step ops c1) (run_calls spec ops a1)"
      using Cons.IH [OF c1(2)] Cons.prems(2) a1 by simp
    with a1 c1(1) show ?thesis
      by (cases "run_calls spec ops a1") auto
  qed
qed simp

end

end
