(* ===== verification/List_Programs.thy ===== *)
theory List_Programs
  imports Traceable_List Programs
begin

text \<open>
  The list of lib/traceable_list.hpp against its specification, a plain list of (address, data, extra
  information): whatever sequence of member functions a client calls, with elements named by the pointers to
  their data, it sees what it would see of the plain list, exceptions and undefined behaviour included.
\<close>

section \<open>The calls\<close>

text \<open>
  The first address of an insertion is the one \<open>new\<close> returns. \<open>Insert_Before\<close>, \<open>Erase\<close> and \<open>Set_Extra\<close>
  name an element by the pointer to its data, through the iterator constructor that checks the magic
  number; \<open>Front\<close> and \<open>Back\<close> are \<open>*begin()\<close> and \<open>*--end()\<close>.
\<close>

datatype ('t, 'e) list_op =
    Push_Front addr 't 'e
  | Push_Back addr 't 'e
  | Insert_Before addr addr 't 'e
  | Pop_Front
  | Pop_Back
  | Erase addr
  | Set_Extra addr 'e
  | Extra addr
  | Front
  | Back
  | Size

datatype ('t, 'e) seen = Nothing | Data 't | Info 'e | Count "64 word"

definition changed :: "'s result \<Rightarrow> (('t, 'e) seen \<times> 's) result" where
  "changed x = bind_result x (\<lambda>s. Inr (Nothing, s))"

fun list_call :: "('t, 'e) list_op \<Rightarrow> ('t, 'e) tlist \<Rightarrow> (('t, 'e) seen \<times> ('t, 'e) tlist) result" where
  "list_call (Push_Front a d e) s = changed (push_front a d e s)"
| "list_call (Push_Back a d e) s = changed (push_back a d e s)"
| "list_call (Insert_Before a b d e) s =
     changed (bind_result (iter_of_data s (Some b)) (\<lambda>it. push_one a it d e s))"
| "list_call Pop_Front s = changed (pop_front s)"
| "list_call Pop_Back s = changed (pop_back s)"
| "list_call (Erase b) s = changed (bind_result (iter_of_data s (Some b)) (\<lambda>it. pop_one it s))"
| "list_call (Set_Extra b e) s =
     changed (bind_result (iter_of_data s (Some b)) (\<lambda>it. set_extra_info s it e))"
| "list_call (Extra b) s =
     bind_result (iter_of_data s (Some b)) (\<lambda>it. bind_result (get_extra_info s it) (\<lambda>e. Inr (Info e, s)))"
| "list_call Front s = bind_result (iter_deref s (iter_begin s)) (\<lambda>d. Inr (Data d, s))"
| "list_call Back s =
     bind_result (iter_dec s (iter_end s)) (\<lambda>it. bind_result (iter_deref s it) (\<lambda>d. Inr (Data d, s)))"
| "list_call Size s = Inr (Count (tlist_size s), s)"

section \<open>The specification\<close>

definition at_element :: "addr \<Rightarrow> ('t, 'e) entry list \<Rightarrow> 'a \<Rightarrow> 'a result" where
  "at_element b l x = (if b \<in> set (addrs l) then Inr x else Inl (Undefined Dangling_Pointer))"

fun insert_before :: "addr \<Rightarrow> ('t, 'e) entry \<Rightarrow> ('t, 'e) entry list \<Rightarrow> ('t, 'e) entry list" where
  "insert_before b x [] = []"
| "insert_before b x (y # l) = (if fst y = b then x # y # l else y # insert_before b x l)"

fun extra_at :: "addr \<Rightarrow> ('t, 'e) entry list \<Rightarrow> 'e result" where
  "extra_at b [] = Inl (Undefined Dangling_Pointer)"
| "extra_at b ((a, d, e) # l) = (if a = b then Inr e else extra_at b l)"

fun list_spec ::
  "('t, 'e) list_op \<Rightarrow> ('t, 'e) entry list \<Rightarrow> (('t, 'e) seen \<times> ('t, 'e) entry list) result" where
  "list_spec (Push_Front a d e) l = Inr (Nothing, (a, d, e) # l)"
| "list_spec (Push_Back a d e) l = Inr (Nothing, l @ [(a, d, e)])"
| "list_spec (Insert_Before a b d e) l = at_element b l (Nothing, insert_before b (a, d, e) l)"
| "list_spec Pop_Front l =
     (case l of [] \<Rightarrow> Inl (Invalid_Argument ''nothing to pop.'') | x # k \<Rightarrow> Inr (Nothing, k))"
| "list_spec Pop_Back l =
     (if l = [] then Inl (Undefined Null_Dereference) else Inr (Nothing, butlast l))"
| "list_spec (Erase b) l = at_element b l (Nothing, filter (\<lambda>x. fst x \<noteq> b) l)"
| "list_spec (Set_Extra b e) l = at_element b l (Nothing, remark b e l)"
| "list_spec (Extra b) l = bind_result (extra_at b l) (\<lambda>e. Inr (Info e, l))"
| "list_spec Front l =
     (case l of [] \<Rightarrow> Inl (Undefined Null_Dereference) | (a, d, e) # k \<Rightarrow> Inr (Data d, l))"
| "list_spec Back l =
     (if l = [] then Inl (Undefined Null_Dereference) else Inr (Data (fst (snd (last l))), l))"
| "list_spec Size l = Inr (Count (of_nat (length l)), l)"

text \<open>What \<open>new\<close> promises: the address is free.\<close>

fun list_legal :: "('t, 'e) list_op \<Rightarrow> ('t, 'e) entry list \<Rightarrow> bool" where
  "list_legal (Push_Front a d e) l = (a \<notin> set (addrs l))"
| "list_legal (Push_Back a d e) l = (a \<notin> set (addrs l))"
| "list_legal (Insert_Before a b d e) l = (a \<notin> set (addrs l))"
| "list_legal _ l = True"

section \<open>Every call refines\<close>

lemma changed_Inr [simp]: "changed (Inr s) = Inr (Nothing, s)" "changed (Inl e) = Inl e"
  by (simp_all add: changed_def)

lemma insert_before_middle:
  "b \<notin> set (addrs m) \<Longrightarrow> insert_before b x (m @ (b, y) # k) = m @ x # (b, y) # k"
  by (induction m) auto

lemma extra_at_middle: "b \<notin> set (addrs m) \<Longrightarrow> extra_at b (m @ (b, d, e) # k) = Inr e"
  by (induction m) auto

lemma extra_at_absent: "b \<notin> set (addrs l) \<Longrightarrow> extra_at b l = Inl (Undefined Dangling_Pointer)"
  by (induction l) auto

lemma filter_middle:
  "b \<notin> set (addrs m) \<Longrightarrow> b \<notin> set (addrs k) \<Longrightarrow> filter (\<lambda>x. fst x \<noteq> b) (m @ (b, y) # k) = m @ k"
  by (induction m) (auto intro!: filter_True)

text \<open>An element named by the pointer to its data: its place in the list, or a dangling pointer.\<close>

lemma element_cases:
  assumes "rep s l"
  obtains (there) m d e k where "l = m @ (b, d, e) # k" and "b \<notin> set (addrs m)" and "b \<notin> set (addrs k)"
      and "iter_of_data s (Some b) = Inr \<lparr>ptr = Some b, impl_tail = None\<rparr>"
  | (gone) "b \<notin> set (addrs l)" and "iter_of_data s (Some b) = Inl (Undefined Dangling_Pointer)"
proof (cases "b \<in> set (addrs l)")
  case True
  then obtain m d e k where l: "l = m @ (b, d, e) # k" using entry_split by blast
  moreover have "b \<notin> set (addrs m)" "b \<notin> set (addrs k)" using rep_distinct [OF assms] l by auto
  ultimately show thesis using there iter_of_data_live [OF assms True] by blast
next
  case False
  then show thesis using gone iter_of_data_dead [OF assms] by blast
qed

lemma erase_refines:
  assumes "rep s l"
  shows "same_outcome rep (list_call (Erase b) s) (list_spec (Erase b) l)"
  using assms
proof (cases rule: element_cases [of s l b])
  case (there m d e k)
  with pop_one_rep [of s m b d e k "\<lparr>ptr = Some b, impl_tail = None\<rparr>"] assms show ?thesis
    by (auto simp: at_element_def filter_middle simp del: filter_append filter.simps)
qed (simp_all add: at_element_def)

lemma insert_refines:
  assumes "rep s l" and "a \<notin> set (addrs l)"
  shows "same_outcome rep (list_call (Insert_Before a b d e) s) (list_spec (Insert_Before a b d e) l)"
  using assms(1)
proof (cases rule: element_cases [of s l b])
  case (there m x y k)
  with push_one_rep [of s m "(b, x, y) # k" "\<lparr>ptr = Some b, impl_tail = None\<rparr>" a d e] assms show ?thesis
    by (auto simp: at_element_def insert_before_middle)
qed (simp_all add: at_element_def)

lemma set_extra_refines:
  assumes "rep s l"
  shows "same_outcome rep (list_call (Set_Extra b e) s) (list_spec (Set_Extra b e) l)"
  using assms
proof (cases rule: element_cases [of s l b])
  case (there m x y k)
  have "remark b e l = m @ (b, x, e) # k"
    using rep_distinct [OF assms] unfolding there(1) by (rule remark_middle)
  with there set_extra_info_rep [of s m b x y k "\<lparr>ptr = Some b, impl_tail = None\<rparr>" e] assms show ?thesis
    by (auto simp: at_element_def)
qed (simp_all add: at_element_def)

lemma extra_refines:
  assumes "rep s l"
  shows "same_outcome rep (list_call (Extra b) s) (list_spec (Extra b) l)"
  using assms
proof (cases rule: element_cases [of s l b])
  case (there m x y k)
  with rep_cell [of s m b x y k] assms show ?thesis
    by (simp add: extra_at_middle get_extra_info_def)
qed (simp add: extra_at_absent)

lemma ends_refine:
  assumes "rep s l"
  shows "same_outcome rep (list_call Pop_Front s) (list_spec Pop_Front l)"
    and "same_outcome rep (list_call Front s) (list_spec Front l)"
proof -
  show "same_outcome rep (list_call Pop_Front s) (list_spec Pop_Front l)"
    using assms pop_front_rep by (cases l) (fastforce simp: pop_front_def pop_one_def rep_head)+
  show "same_outcome rep (list_call Front s) (list_spec Front l)"
    using assms rep_cell [of s "[]"] by (cases l) (auto simp: iter_deref_def iter_begin_def rep_head)
qed

lemma back_ends_refine:
  assumes "rep s l"
  shows "same_outcome rep (list_call Pop_Back s) (list_spec Pop_Back l)"
    and "same_outcome rep (list_call Back s) (list_spec Back l)"
proof -
  have "same_outcome rep (list_call Pop_Back s) (list_spec Pop_Back l) \<and>
      same_outcome rep (list_call Back s) (list_spec Back l)"
  proof (cases l rule: rev_cases)
    case Nil
    with assms show ?thesis by (simp add: pop_back_def iter_dec_end_empty)
  next
    case (snoc k x)
    obtain a d e where x: "x = (a, d, e)" by (cases x)
    have r: "rep s (k @ [(a, d, e)])" using assms snoc x by simp
    show ?thesis
      using pop_back_rep [OF r] r rep_cell [of s k a d e "[]"] snoc x
      by (auto simp: iter_dec_end_rep [OF r] iter_deref_def)
  qed
  then show "same_outcome rep (list_call Pop_Back s) (list_spec Pop_Back l)"
    "same_outcome rep (list_call Back s) (list_spec Back l)" by blast+
qed

lemma list_call_refines:
  assumes "rep s l" and "list_legal c l"
  shows "same_outcome rep (list_call c s) (list_spec c l)"
proof (cases c)
  case (Push_Front a d e)
  with push_front_rep [OF assms(1), of a d e] assms(2) show ?thesis by auto
next
  case (Push_Back a d e)
  with push_back_rep [OF assms(1), of a d e] assms(2) show ?thesis by auto
next
  case (Insert_Before a b d e)
  with assms show ?thesis using insert_refines by (metis list_legal.simps(3))
next
  case Size
  with assms show ?thesis by (simp add: tlist_size_def rep_size)
qed (use assms in \<open>simp_all only: list_legal.simps insert_refines erase_refines set_extra_refines extra_refines
       ends_refine back_ends_refine\<close>)

interpretation tl_programs: program_refinement list_call list_spec rep list_legal
  by unfold_locales (rule list_call_refines)

section \<open>Properties\<close>



end
