(* ===== verification/Pool_Programs.thy ===== *)
theory Pool_Programs
  imports Object_Pool Programs
begin

text \<open>
  The pool of lib/pool.hpp under a program of calls by its clients, against the stack of free objects
  \<open>stack_borrow\<close> and \<open>stack_release\<close>. A client that catches the exception of a borrow goes on, so
  the outcome of a call is a value here and a program does not end before its last call.
\<close>

section \<open>The calls\<close>

text \<open>A borrow comes with what the constructor of an object would give, should one be made.\<close>

datatype 'o pool_op = Borrow "'o construction" | Release addr

datatype pool_seen = Lent "addr option result" | Returned "unit result"

fun pool_call :: "nat \<Rightarrow> 'o pool_op \<Rightarrow> 'o pool \<Rightarrow> (pool_seen \<times> 'o pool) result" where
  "pool_call m (Borrow mk) p = Inr (map_prod Lent id (coro_do_try_borrow_one m mk p))"
| "pool_call m (Release a) p = Inr (map_prod Returned id (coro_release_one a p))"

fun stack_call :: "nat \<Rightarrow> 'o pool_op \<Rightarrow> stack_pool \<Rightarrow> (pool_seen \<times> stack_pool) result" where
  "stack_call m (Borrow mk) st = Inr (map_prod Lent id (stack_borrow m mk st))"
| "stack_call m (Release a) st = Inr (map_prod Returned id (stack_release a st))"

text \<open>The allocator returns addresses that are not in use, and only lent objects are given back.\<close>

fun pool_legal :: "'o pool_op \<Rightarrow> stack_pool \<Rightarrow> bool" where
  "pool_legal (Borrow mk) st = (\<forall>a x. mk = Inr (a, x) \<longrightarrow> a \<notin> set (fst st) \<union> snd st)"
| "pool_legal (Release a) st = (a \<in> snd st)"

definition pool_as_stack :: "nat \<Rightarrow> 'o pool \<Rightarrow> stack_pool \<Rightarrow> bool" where
  "pool_as_stack m p st \<longleftrightarrow> pool_ok m p \<and> stack_of p = st"

section \<open>Every call refines\<close>

lemma fresh_on_stack:
  assumes "pool_as_stack m p st" and "pool_legal (Borrow mk) st"
  shows "fresh_for mk p"
proof (cases mk)
  case (Inl e)
  then show ?thesis by (simp add: fresh_for_def)
next
  case (Inr y)
  obtain a x where y: "y = (a, x)" by (cases y)
  obtain l where r: "pool_rep m p l" using assms(1) by (auto simp: pool_as_stack_def pool_ok_def)
  have "set (free_list p) = {b. \<exists>x. (b, x, True) \<in> set l}" using r by (simp add: pool_rep_def)
  moreover have "lent p = {b. \<exists>x. (b, x, False) \<in> set l}" using lent_rep [OF pool_rep_buffer [OF r]] .
  moreover have "a \<notin> set (free_list p)" "a \<notin> lent p"
    using assms Inr y by (auto simp: pool_as_stack_def stack_of_def)
  ultimately have "(a, z, e) \<notin> set l" for z e by (cases e) auto
  then have "a \<notin> set (addrs l)" by auto
  then show ?thesis using fresh_rep [OF pool_rep_buffer [OF r], of a x] Inr y by simp
qed

lemma pool_call_refines:
  fixes m :: "64 word"
  assumes "pool_as_stack (unat m) p st" and "pool_legal c st"
  shows "same_outcome (pool_as_stack (unat m)) (pool_call (unat m) c p) (stack_call (unat m) c st)"
proof (cases c)
  case (Borrow mk)
  have fresh: "fresh_for mk p" using assms fresh_on_stack unfolding Borrow by blast
  obtain l where r: "pool_rep (unat m) p l" using assms(1) by (auto simp: pool_as_stack_def pool_ok_def)
  have "pool_ok (unat m) (snd (coro_do_try_borrow_one (unat m) mk p))"
    using coro_pool.borrow_keeps_ok [of m p mk] fresh r by (auto simp: pool_ok_def)
  moreover have "stack_borrow (unat m) mk st = map_prod id stack_of (coro_do_try_borrow_one (unat m) mk p)"
    using borrow_refines [OF r unat_64 fresh] assms(1) by (simp add: pool_as_stack_def)
  ultimately show ?thesis
    using Borrow by (cases "coro_do_try_borrow_one (unat m) mk p") (simp add: pool_as_stack_def)
next
  case (Release a)
  have a: "a \<in> lent p" using assms Release by (auto simp: pool_as_stack_def stack_of_def)
  obtain l where r: "pool_rep (unat m) p l" using assms(1) by (auto simp: pool_as_stack_def pool_ok_def)
  then have "pool_ok (unat m) p" by (auto simp: pool_ok_def)
  from coro_pool.release_returns [OF this a]
  have "pool_ok (unat m) (snd (coro_release_one a p))" by force
  moreover have "stack_release a st = map_prod id stack_of (coro_release_one a p)"
    using release_refines [OF r a] assms(1) by (simp add: pool_as_stack_def)
  ultimately show ?thesis
    using Release by (cases "coro_release_one a p") (simp add: pool_as_stack_def)
qed

interpretation pool_programs: program_refinement "pool_call (unat (m :: 64 word)) :: 'o pool_op \<Rightarrow> 'o pool \<Rightarrow> _"
    "stack_call (unat m)" "pool_as_stack (unat m)" pool_legal
  by unfold_locales (rule pool_call_refines)

section \<open>Properties\<close>

text \<open>
  C19: every program of borrows and releases on a new pool sees what it would see of a stack of free
  objects with a limit of \<open>m\<close>: which object each borrow lends, when it lends nothing, which exception it
  passes on. Objects are reused last in, first out, and one is made only when none is free.
\<close>

theorem pool_programs_refine:
  assumes "legal_calls (stack_call (unat (m :: 64 word))) pool_legal calls ([], {})"
  shows "same_outcome (pool_as_stack (unat m)) (run_calls (pool_call (unat m)) calls empty_pool)
    (run_calls (stack_call (unat m)) calls ([], {}))"
proof -
  have "pool_as_stack (unat m) (empty_pool :: 'a pool) ([], {})"
    using empty_pool_ok by (simp add: pool_as_stack_def stack_of_def lent_def empty_pool_def empty_list_def)
  from pool_programs.calls_refine [OF this assms] show ?thesis .
qed

theorem pool_programs_refine_witness:
  "\<exists>p. run_calls (pool_call 2) [Borrow (Inr (8, 80 :: nat)), Borrow (Inr (9, 90)), Borrow (Inr (7, 70)), Release 8,
        Release 9, Borrow (Inr (6, 60))] empty_pool =
      Inr ([Lent (Inr (Some 8)), Lent (Inr (Some 9)), Lent (Inr None), Returned (Inr ()), Returned (Inr ()),
        Lent (Inr (Some 9))], p) \<and> pool_as_stack 2 p ([8], {9})"
proof -
  let ?ops = "[Borrow (Inr (8, 80 :: nat)), Borrow (Inr (9, 90)), Borrow (Inr (7, 70)), Release 8, Release 9,
      Borrow (Inr (6, 60))]"
  have "run_calls (stack_call (unat (2 :: 64 word))) ?ops ([], {}) = Inr ([Lent (Inr (Some 8)), Lent (Inr (Some 9)),
      Lent (Inr None), Returned (Inr ()), Returned (Inr ()), Lent (Inr (Some 9))], ([8], {9}))"
    by auto
  moreover have "legal_calls (stack_call (unat (2 :: 64 word))) pool_legal ?ops ([], {})" by simp
  ultimately show ?thesis using pool_programs_refine [of 2 ?ops] by (simp del: run_calls.simps)
qed

end
