(* ===== verification/Selector_Threads.thy ===== *)
theory Selector_Threads
  imports Provider_Selector
begin

text \<open>
  \<open>provider_selector::query_once\<close> (src/provider_selector.hpp) under the threads of the consumer agent
  (\<open>--threads\<close>): \<open>curr\<close> is one static iterator that all of them read and move without a lock. The
  function is cut into the steps between its accesses to the shared state; one thread alone does what
  \<open>query_once\<close> does, two can crash the agent.
\<close>

section \<open>The steps of one call\<close>

text \<open>
  \<open>Turn n seen\<close>: at the head of the loop with \<open>n\<close> turns left and \<open>seen\<close> the latency last read; then past
  the wrap to the front, past the load of the latency, and past the store after the loop.
\<close>

datatype pick_pc =
  Turn nat "32 word"
  | Wrapped nat "32 word"
  | Looked nat "32 word"
  | Slowed
  | Picked "nat option"
  | Pick_Crashed ub

definition pick_start :: "'s provider_selector \<Rightarrow> pick_pc" where
  "pick_start sel = Turn (length (robin_queue sel)) 1"

text \<open>The iterator can be dereferenced: it is not the end, and what it points to is a provider.\<close>

definition curr_valid :: "'s provider_selector \<Rightarrow> bool" where
  "curr_valid sel \<longleftrightarrow>
     curr sel < length (robin_queue sel) \<and> robin_queue sel ! curr sel < length (providers sel)"

definition at_curr :: "'s provider_selector \<Rightarrow> nat" where
  "at_curr sel = robin_queue sel ! curr sel"

fun pick_next :: "'s provider_selector \<times> pick_pc \<Rightarrow> 's provider_selector \<times> pick_pc" where
  "pick_next (sel, Turn (Suc n) seen) =
     (if curr sel = length (robin_queue sel) then sel\<lparr>curr := 0\<rparr> else sel, Wrapped n seen)"
| "pick_next (sel, Wrapped n seen) =
     (if curr_valid sel then (sel, Looked n (connpool_latency (providers sel ! at_curr sel)))
      else (sel, Pick_Crashed Out_Of_Range))"
| "pick_next (sel, Looked n seen) =
     (if seen < 10000
      then (if curr_valid sel then (sel\<lparr>curr := curr sel + 1\<rparr>, Picked (Some (at_curr sel)))
            else (sel, Pick_Crashed Out_Of_Range))
      else (sel, Turn n seen))"
| "pick_next (sel, Turn 0 seen) =
     (if curr_valid sel
      then (let i = at_curr sel; slower = (if 51427 < seen then seen - 51427 else 1)
            in (sel\<lparr>providers := (providers sel)[i := (providers sel ! i)\<lparr>connpool_latency := slower\<rparr>]\<rparr>, Slowed))
      else (sel, Pick_Crashed Out_Of_Range))"
| "pick_next (sel, Slowed) =
     (if curr sel < length (robin_queue sel) then (sel\<lparr>curr := curr sel + 1\<rparr>, Picked None)
      else (sel, Pick_Crashed Out_Of_Range))"
| "pick_next (sel, Picked r) = (sel, Picked r)"
| "pick_next (sel, Pick_Crashed u) = (sel, Pick_Crashed u)"

text \<open>Any number of threads, each at its own point of a call; a finished call may be followed by another.\<close>

record 's pick_sys =
  shared :: "'s provider_selector"
  picks :: "nat \<Rightarrow> pick_pc"

inductive pick_step :: "'s pick_sys \<Rightarrow> 's pick_sys \<Rightarrow> bool" where
  move: "pick_next (shared s, picks s i) = (sel, pc) \<Longrightarrow>
     pick_step s (s\<lparr>shared := sel, picks := (picks s)(i := pc)\<rparr>)"
| again: "picks s i = Picked r \<Longrightarrow>
     pick_step s (s\<lparr>picks := (picks s)(i := pick_start (shared s))\<rparr>)"

section \<open>One thread alone\<close>

definition outcome :: "nat option result \<Rightarrow> pick_pc" where
  "outcome r = (case r of Inl (Undefined u) \<Rightarrow> Pick_Crashed u | Inl e \<Rightarrow> Pick_Crashed Out_Of_Range | Inr x \<Rightarrow> Picked x)"

lemma outcome_simps [simp]:
  "outcome (Inl (Undefined u)) = Pick_Crashed u" "outcome (Inr x) = Picked x"
  by (simp_all add: outcome_def)

lemma pick_loop_runs:
  "\<exists>k. (pick_next ^^ k) (sel, Turn n seen) = (snd (query_loop n seen sel), outcome (fst (query_loop n seen sel)))"
proof (induction n arbitrary: sel seen)
  case 0
  show ?case
  proof (cases "curr_valid sel")
    case True
    then have "(pick_next ^^ 2) (sel, Turn 0 seen) = (snd (query_loop 0 seen sel), outcome (fst (query_loop 0 seen sel)))"
      by (simp add: numeral_2_eq_2 curr_valid_def at_curr_def Let_def)
    then show ?thesis by blast
  next
    case False
    then have "(pick_next ^^ 1) (sel, Turn 0 seen) = (snd (query_loop 0 seen sel), outcome (fst (query_loop 0 seen sel)))"
      by (auto simp: curr_valid_def)
    then show ?thesis by blast
  qed
next
  case (Suc n)
  define sel1 where "sel1 = (if curr sel = length (robin_queue sel) then sel\<lparr>curr := 0\<rparr> else sel)"
  have q: "query_loop (Suc n) seen sel =
      (if curr_valid sel1 then
         (if connpool_latency (providers sel1 ! at_curr sel1) < 10000
          then (Inr (Some (at_curr sel1)), sel1\<lparr>curr := curr sel1 + 1\<rparr>)
          else query_loop n (connpool_latency (providers sel1 ! at_curr sel1)) sel1)
       else (Inl (Undefined Out_Of_Range), sel1))"
    by (simp only: query_loop.simps Let_def sel1_def [symmetric] curr_valid_def at_curr_def)
  have one: "pick_next (sel, Turn (Suc n) seen) = (sel1, Wrapped n seen)" by (simp add: sel1_def)
  show ?case
  proof (cases "curr_valid sel1")
    case False
    then have "(pick_next ^^ 2) (sel, Turn (Suc n) seen) = (sel1, Pick_Crashed Out_Of_Range)"
      by (simp add: numeral_2_eq_2 funpow_swap1 one del: pick_next.simps(1))
    then show ?thesis using q False by (intro exI [of _ 2]) simp
  next
    case True
    let ?lat = "connpool_latency (providers sel1 ! at_curr sel1)"
    have two: "pick_next (pick_next (sel, Turn (Suc n) seen)) = (sel1, Looked n ?lat)"
      using True by (simp add: one del: pick_next.simps(1))
    show ?thesis
    proof (cases "?lat < 10000")
      case True
      have "(pick_next ^^ 3) (sel, Turn (Suc n) seen) = (sel1\<lparr>curr := curr sel1 + 1\<rparr>, Picked (Some (at_curr sel1)))"
        using True \<open>curr_valid sel1\<close> two by (simp add: numeral_3_eq_3 del: pick_next.simps(1,2))
      then show ?thesis using q True \<open>curr_valid sel1\<close> by (intro exI [of _ 3]) simp
    next
      case False
      obtain k where k: "(pick_next ^^ k) (sel1, Turn n ?lat) =
          (snd (query_loop n ?lat sel1), outcome (fst (query_loop n ?lat sel1)))"
        using Suc.IH by blast
      have "(pick_next ^^ 3) (sel, Turn (Suc n) seen) = (sel1, Turn n ?lat)"
        using False two by (simp add: numeral_3_eq_3 del: pick_next.simps(1,2))
      then have "(pick_next ^^ (k + 3)) (sel, Turn (Suc n) seen) = (pick_next ^^ k) (sel1, Turn n ?lat)"
        unfolding funpow_add comp_def by (rule arg_cong)
      then show ?thesis using q False \<open>curr_valid sel1\<close> k by (intro exI [of _ "k + 3"]) simp
    qed
  qed
qed

section \<open>Properties\<close>


text \<open>
  C21: two threads crash the agent. When \<open>curr\<close> is at the last place of the queue (after the constructor,
  if one small provider is registered), both may pass the wrap and the latency check before either moves
  \<open>curr\<close>; the first to take its provider moves \<open>curr\<close> to the end, which the second dereferences.
\<close>

theorem two_threads_crash_selector:
  assumes "selector_ok sel" and "curr sel + 1 = length (robin_queue sel)"
  shows "\<exists>t. pick_step\<^sup>*\<^sup>* \<lparr>shared = sel, picks = (\<lambda>_. pick_start sel)\<rparr> t \<and> picks t 1 = Pick_Crashed Out_Of_Range"
proof -
  let ?q = "robin_queue sel" and ?f = "\<lambda>_ :: nat. pick_start sel"
  obtain n where n: "length ?q = Suc n" using assms(2) by (metis Suc_eq_plus1)
  have i: "at_curr sel < length (providers sel)"
    using assms nth_mem [of "curr sel" ?q] by (auto simp: selector_ok_def at_curr_def)
  then have valid: "curr_valid sel" using assms(2) by (simp add: curr_valid_def at_curr_def)
  let ?lat = "connpool_latency (providers sel ! at_curr sel)"
  have lat: "?lat < 10000" using assms(1) i by (simp add: selector_ok_def)
  have wrap: "pick_next (sel, pick_start sel) = (sel, Wrapped n 1)"
    using assms(2) n by (simp add: pick_start_def)
  have look: "pick_next (sel, Wrapped n 1) = (sel, Looked n ?lat)" using valid by simp
  let ?sel' = "sel\<lparr>curr := curr sel + 1\<rparr>"
  have take: "pick_next (sel, Looked n ?lat) = (?sel', Picked (Some (at_curr sel)))"
    using valid lat by simp
  have crash: "pick_next (?sel', Looked n ?lat) = (?sel', Pick_Crashed Out_Of_Range)"
    using lat assms(2) by (simp add: curr_valid_def)
  let ?s = "\<lambda>sel f. \<lparr>shared = sel, picks = f\<rparr>"
  let ?f1 = "?f(0 := Wrapped n 1)" and ?f2 = "?f(0 := Looked n ?lat)"
  let ?f3 = "?f(0 := Looked n ?lat, 1 := Wrapped n 1)" and ?f4 = "?f(0 := Looked n ?lat, 1 := Looked n ?lat)"
  let ?f5 = "?f(0 := Picked (Some (at_curr sel)), 1 := Looked n ?lat)"
  let ?f6 = "?f(0 := Picked (Some (at_curr sel)), 1 := Pick_Crashed Out_Of_Range)"
  have "pick_step (?s sel ?f) (?s sel ?f1)" using move [of "?s sel ?f" 0] wrap by simp
  moreover have "pick_step (?s sel ?f1) (?s sel ?f2)" using move [of "?s sel ?f1" 0] look by simp
  moreover have "pick_step (?s sel ?f2) (?s sel ?f3)" using move [of "?s sel ?f2" 1] wrap by simp
  moreover have "pick_step (?s sel ?f3) (?s sel ?f4)" using move [of "?s sel ?f3" 1] look by simp
  moreover have "pick_step (?s sel ?f4) (?s ?sel' ?f5)"
    using move [of "?s sel ?f4" 0] take by (simp add: fun_upd_twist)
  moreover have "pick_step (?s ?sel' ?f5) (?s ?sel' ?f6)" using move [of "?s ?sel' ?f5" 1] crash by simp
  ultimately have "pick_step\<^sup>*\<^sup>* (?s sel ?f) (?s ?sel' ?f6)" by (meson rtranclp.intros)
  then show ?thesis by (intro exI [of _ "?s ?sel' ?f6"]) simp
qed

theorem two_threads_crash_selector_witness:
  "\<exists>t. pick_step\<^sup>*\<^sup>* \<lparr>shared = \<lparr>providers = [sample_provider], robin_queue = [0], curr = 0\<rparr>, picks = (\<lambda>_. Turn 1 1)\<rparr> t \<and>
     picks t 1 = Pick_Crashed Out_Of_Range"
proof -
  let ?sel = "\<lparr>providers = [sample_provider], robin_queue = [0], curr = 0\<rparr> :: nat provider_selector"
  have "selector_ok ?sel" "curr ?sel + 1 = length (robin_queue ?sel)"
    by (simp_all add: selector_ok_def sample_provider_def)
  from two_threads_crash_selector [OF this] show ?thesis by (simp add: pick_start_def)
qed

end
