(* ===== verification/Agent_Main.thy ===== *)
theory Agent_Main
  imports Consumer_Agent Provider_Agent
begin

text \<open>
  \<open>main\<close> of src/main.cc: the command line decides between help, a provider agent and a consumer agent, and
  the agent is constructed and starts to listen. The option parser is rlib's and enters as a record, the
  version numbers the build puts in as another; an exception that leaves \<open>main\<close> is the error of the result. Of
  the log, only the line of an unknown role is modelled.
\<close>

record opt_parser =
  opt_bool :: "string \<Rightarrow> string \<Rightarrow> bool"
  opt_command :: "string result"
  opt_value_short :: "string \<Rightarrow> string \<Rightarrow> string result"
  opt_value :: "string \<Rightarrow> string result"
  opt_value_or :: "string \<Rightarrow> string \<Rightarrow> string result"

datatype log_level = FATAL | INFO | DEBUG | Level_Unset

record build_info =
  agent_version :: string
  git_commit_num :: string

text \<open>\<open>Exit\<close>: the exit status, and what was written to the terminal before.\<close>

datatype launch =
    Exit nat "string list"
  | Launch_Provider log_level string "16 word" string string string "16 word"
  | Launch_Consumer log_level string "16 word" string int

definition log_level_of :: "string \<Rightarrow> log_level" where
  "log_level_of s =
     (if s = ''fatal'' then FATAL else if s = ''info'' then INFO else if s = ''debug'' then DEBUG
      else Level_Unset)"

text \<open>The help, line by line, and \<open>help_and_exit\<close>.\<close>

definition help_format :: string where
  "help_format = intercalate [LF]
     [[],
      ''Ali-middleware challenge 2018 {}'',
      ''    > GIT {}'',
      ''CopyRight (C) 2018 - 2018'',
      ''    Recolic Keghart <root@recolic.net>'',
      ''    Yue Pan <zxc479773533@gmail.com>'',
      [],
      ''Usage: {} <consumer/provider-*> [Args ...]'',
      [],
      ''Args:'',
      ''->>> common'',
      ''[Required] --listen       -l  Address where the agent listens.'',
      ''[Required] --listen-port  -p  Port where the agent listens.'',
      ''[Required] --etcd             Address of etcd service.'',
      ''[Required] --etcd-port        Address of etcd port.'',
      ''           --log              (info/debug/fatal) set log level, default=info.'',
      [],
      ''->>> consumer-agent'',
      ''           --threads          Threads. default=1.'',
      [],
      ''->>> provider-agent'',
      ''[Required] --provider          Address of provider (dubbo server).'',
      ''[Required] --provider-port     Port of provider.'',
      []]"

definition help_text :: "rlib \<Rightarrow> build_info \<Rightarrow> string \<Rightarrow> string" where
  "help_text R build argv0 = rl_format R help_format [agent_version build, git_commit_num build, argv0]"

definition help_and_exit :: "rlib \<Rightarrow> build_info \<Rightarrow> string \<Rightarrow> nat \<Rightarrow> string list \<Rightarrow> launch result" where
  "help_and_exit R build argv0 stat logged = Inr (Exit stat (logged @ [help_text R build argv0]))"

definition unknown_role :: "rlib \<Rightarrow> string \<Rightarrow> string" where
  "unknown_role R whoami = rl_format R ''Role must be consumer or provider-*, rather than `{}`.'' [whoami]"

text \<open>The two branches read their options in this order; the first one missing or bad throws.\<close>

definition provider_options :: "rlib \<Rightarrow> opt_parser \<Rightarrow> log_level \<Rightarrow> string \<Rightarrow> launch result" where
  "provider_options R opt level whoami =
     bind_result (opt_value_short opt ''--listen'' ''-l'') (\<lambda>listen_addr.
     bind_result (opt_value_short opt ''--listen-port'' ''-p'') (\<lambda>lp.
     bind_result (rl_as_u16 R lp) (\<lambda>listen_port.
     bind_result (opt_value opt ''--provider'') (\<lambda>prov_addr.
     bind_result (opt_value opt ''--provider-port'') (\<lambda>pp.
     bind_result (rl_as_u16 R pp) (\<lambda>prov_port.
     bind_result (opt_value opt ''--etcd'') (\<lambda>etcd_addr.
     bind_result (opt_value opt ''--etcd-port'') (\<lambda>ep.
     bind_result (rl_as_u16 R ep) (\<lambda>etcd_port.
     Inr (Launch_Provider level listen_addr listen_port whoami
            (rl_format R ''{}:{}'' [etcd_addr, decimal (unat etcd_port)]) prov_addr prov_port))))))))))"

definition consumer_options :: "rlib \<Rightarrow> opt_parser \<Rightarrow> log_level \<Rightarrow> launch result" where
  "consumer_options R opt level =
     bind_result (opt_value_short opt ''--listen'' ''-l'') (\<lambda>listen_addr.
     bind_result (opt_value_short opt ''--listen-port'' ''-p'') (\<lambda>lp.
     bind_result (rl_as_u16 R lp) (\<lambda>listen_port.
     bind_result (opt_value opt ''--etcd'') (\<lambda>etcd_addr.
     bind_result (opt_value opt ''--etcd-port'') (\<lambda>ep.
     bind_result (rl_as_u16 R ep) (\<lambda>etcd_port.
     bind_result (opt_value_or opt ''--threads'' ''1'') (\<lambda>ts.
     bind_result (rl_as_int R ts) (\<lambda>threads.
     Inr (Launch_Consumer level listen_addr listen_port
            (rl_format R ''{}:{}'' [etcd_addr, decimal (unat etcd_port)]) (sint threads))))))))))"

definition main_options ::
  "rlib \<Rightarrow> build_info \<Rightarrow> string \<Rightarrow> nat \<Rightarrow> opt_parser \<Rightarrow> launch result" where
  "main_options R build argv0 argc opt =
     (if argc = 1 then help_and_exit R build argv0 1 []
      else if opt_bool opt ''--help'' ''-h'' then help_and_exit R build argv0 0 []
      else
        bind_result (opt_command opt) (\<lambda>whoami.
        bind_result (opt_value_or opt ''--log'' []) (\<lambda>log.
          if take 8 whoami = ''provider'' then provider_options R opt (log_level_of log) whoami
          else if whoami = ''consumer'' then consumer_options R opt (log_level_of log)
          else help_and_exit R build argv0 1 [unknown_role R whoami])))"

text \<open>\<open>cli url\<close> is the etcd client for a URL. What is running at the end: nothing, with an exit status, or a server on its endpoint.\<close>

datatype ('s, 'e) running =
    Exited nat "string list"
  | Provider_Serving "'s provider_agent" 'e
  | Consumer_Serving "'s consumer_agent" 'e nat

definition agent_main ::
  "rlib \<Rightarrow> (string \<Rightarrow> 'w etcd_client) \<Rightarrow> ('s, 'p, 'w) net \<Rightarrow> (nat \<Rightarrow> nat \<Rightarrow> addr) \<Rightarrow>
   (string \<Rightarrow> 16 word \<Rightarrow> 'e result) \<Rightarrow> nat \<Rightarrow> build_info \<Rightarrow> string \<Rightarrow> nat \<Rightarrow> opt_parser \<Rightarrow>
   (('s, 'e) running, 'w) step" where
  "agent_main R cli net alloc make_endpoint max_size build argv0 argc opt =
     and_then (lift_result (main_options R build argv0 argc opt)) (\<lambda>l.
       case l of
         Exit n printed \<Rightarrow> return (Exited n printed)
       | Launch_Provider level listen_addr listen_port whoami etcd_addr prov_addr prov_port \<Rightarrow>
           and_then (provider_agent_new R (cli (etcd_url etcd_addr)) whoami listen_port prov_addr prov_port) (\<lambda>agent.
           and_then (lift_result (provider_listen (\<lambda>a. make_endpoint a listen_port) listen_addr)) (\<lambda>endpoint.
           return (Provider_Serving agent endpoint)))
       | Launch_Consumer level listen_addr listen_port etcd_addr threads \<Rightarrow>
           and_then (consumer_agent_new R (cli (etcd_url etcd_addr)) net alloc threads) (\<lambda>agent.
           and_then (lift_result (consumer_listen (\<lambda>a. make_endpoint a listen_port) max_size listen_addr agent))
             (\<lambda>(endpoint, n). return (Consumer_Serving agent endpoint n))))"

section \<open>Properties\<close>


definition sample_options :: "string \<Rightarrow> opt_parser" where
  "sample_options whoami =
     \<lparr>opt_bool = (\<lambda>_ _. False), opt_command = Inr whoami, opt_value_short = (\<lambda>long short.
        Inr (if long = ''--listen'' then ''0.0.0.0'' else ''20000'')),
      opt_value = (\<lambda>name. Inr (if name = ''--etcd'' then ''etcd'' else if name = ''--provider'' then ''127.0.0.1''
        else if name = ''--etcd-port'' then ''2379'' else ''20880'')),
      opt_value_or = (\<lambda>name def. Inr def)\<rparr>"


end
