(* ===== verification/Json_Serializer.thy ===== *)
theory Json_Serializer
  imports Rlib
begin

text \<open>
  \<open>json_serializer\<close> of lib/json_serializer.hpp, the one class of the interface in lib/kv_serializer.hpp:
  \<open>serialize\<close> writes a list of keys and values as a flat JSON object, \<open>deserialize\<close> reads one level of
  an object with Boost's \<open>read_json\<close>, a parameter here. \<open>read_flat\<close> is a reader for flat objects of
  plain strings, after the JSON grammar; what is relied on is that \<open>read_json\<close> accepts what it accepts.
\<close>

section \<open>The code\<close>

type_synonym kv_list_t = "(string \<times> string) list"

definition kv_format :: string where
  \<open>kv_format = ''"{}":"{}",'' @ [LF]\<close>

definition serialize :: "rlib \<Rightarrow> kv_list_t \<Rightarrow> string" where
  "serialize R kv_list =
     (if kv_list = [] then ''{}''
      else let result = foldl (\<lambda>result kv. result @ rl_format R kv_format [fst kv, snd kv])
                          (''{'' @ [LF]) kv_list;
               result = result[length result - 2 := LF]
           in result[length result - 1 := CHR ''}''])"

definition deserialize :: "(string \<Rightarrow> kv_list_t result) \<Rightarrow> string \<Rightarrow> kv_list_t result" where
  "deserialize read_json json =
     (if json = [] then Inr []
      else bind_result (read_json json) (\<lambda>pt. Inr (foldl (\<lambda>result pos. result @ [(fst pos, snd pos)]) [] pt)))"

section \<open>The text as a whole\<close>

definition member_text :: "string \<times> string \<Rightarrow> string" where
  \<open>member_text kv = ''"'' @ fst kv @ ''":"'' @ snd kv @ ''"''\<close>

definition object_text :: "kv_list_t \<Rightarrow> string" where
  "object_text kvs =
     (if kvs = [] then ''{}'' else ''{'' @ [LF] @ intercalate ('','' @ [LF]) (map member_text kvs) @ [LF] @ ''}'')"

lemma format_member: "rlib_laws R \<Longrightarrow> rl_format R kv_format [k, v] = member_text (k, v) @ '','' @ [LF]"
  by (subst rl_format) (simp_all add: kv_format_def member_text_def)

lemma serialize_fold:
  assumes "rlib_laws R" and "kvs \<noteq> []"
  shows "foldl (\<lambda>result kv. result @ rl_format R kv_format [fst kv, snd kv]) start kvs =
    start @ intercalate ('','' @ [LF]) (map member_text kvs) @ '','' @ [LF]"
  using assms(2)
proof (induction kvs arbitrary: start)
  case (Cons kv kvs)
  show ?case
  proof (cases "kvs = []")
    case True
    then show ?thesis by (simp add: format_member [OF assms(1)])
  next
    case False
    from Cons.IH [OF False, of "start @ member_text kv @ '','' @ [LF]"] show ?thesis
      using False by (simp add: format_member [OF assms(1)] intercalate_Cons)
  qed
qed simp

lemma serialize_object_text:
  assumes "rlib_laws R"
  shows "serialize R kvs = object_text kvs"
proof (cases "kvs = []")
  case False
  define body where "body = ''{'' @ [LF] @ intercalate ('','' @ [LF]) (map member_text kvs)"
  have "foldl (\<lambda>result kv. result @ rl_format R kv_format [fst kv, snd kv]) (''{'' @ [LF]) kvs =
      body @ [CHR '','', LF]"
    by (simp add: serialize_fold [OF assms False] body_def)
  then have "serialize R kvs = ((body @ [CHR '','', LF])[length body := LF])[length body + 1 := CHR ''}'']"
    using False by (simp add: serialize_def Let_def)
  also have "\<dots> = body @ [LF, CHR ''}'']" by (simp add: list_update_append)
  finally show ?thesis using False by (simp add: object_text_def body_def)
qed (simp add: serialize_def object_text_def)

lemma deserialize_eq: "json \<noteq> [] \<Longrightarrow> deserialize read_json json = read_json json"
proof -
  assume "json \<noteq> []"
  moreover have "foldl (\<lambda>result pos. result @ [(fst pos, snd pos)]) acc pt = acc @ pt"
    for acc pt :: kv_list_t
    by (induction pt arbitrary: acc) simp_all
  ultimately show ?thesis by (cases "read_json json") (simp_all add: deserialize_def)
qed

section \<open>A reader of flat objects\<close>

definition is_space :: "char \<Rightarrow> bool" where
  "is_space c \<longleftrightarrow> c = CHR '' '' \<or> c = LF \<or> c = CHR 0x09 \<or> c = CHR 0x0D"

definition skip_space :: "string \<Rightarrow> string" where
  "skip_space s = dropWhile is_space s"

text \<open>A string without escapes, after its opening quote.\<close>

definition read_quoted :: "string \<Rightarrow> (string \<times> string) option" where
  "read_quoted s = (case skip_space s of [] \<Rightarrow> None | c # t \<Rightarrow> if c = CHR 0x22 then cut_at (CHR 0x22) t else None)"

fun read_members :: "nat \<Rightarrow> string \<Rightarrow> kv_list_t option" where
  "read_members 0 s = None"
| "read_members (Suc n) s =
     Option.bind (read_quoted s) (\<lambda>(k, s1).
       case skip_space s1 of [] \<Rightarrow> None | c # s2 \<Rightarrow>
         if c \<noteq> CHR '':'' then None
         else Option.bind (read_quoted s2) (\<lambda>(v, s3).
           case skip_space s3 of [] \<Rightarrow> None | d # s4 \<Rightarrow>
             if d = CHR '','' then map_option (Cons (k, v)) (read_members n s4)
             else if d = CHR ''}'' \<and> skip_space s4 = [] then Some [(k, v)] else None))"

definition read_flat :: "string \<Rightarrow> kv_list_t option" where
  "read_flat s =
     (case skip_space s of [] \<Rightarrow> None | c # t \<Rightarrow>
        if c \<noteq> CHR ''{'' then None
        else if skip_space t = ''}'' then Some [] else read_members (length t) t)"

definition reads_flat_objects :: "(string \<Rightarrow> kv_list_t result) \<Rightarrow> bool" where
  "reads_flat_objects read_json \<longleftrightarrow>
     (\<forall>s kvs. read_flat s = Some kvs \<and> CHR 0x5C \<notin> set s \<longrightarrow> read_json s = Inr kvs)"

definition flat_reader :: "string \<Rightarrow> kv_list_t result" where
  "flat_reader s = (case read_flat s of None \<Rightarrow> Inl (Runtime_Error s) | Some kvs \<Rightarrow> Inr kvs)"

lemma flat_reader_reads: "reads_flat_objects flat_reader"
  by (simp add: reads_flat_objects_def flat_reader_def)

lemma skip_space_simps [simp]:
  "skip_space [] = []" "skip_space (c # s) = (if is_space c then skip_space s else c # s)"
  by (simp_all add: skip_space_def)

lemma spaces [simp]:
  "is_space LF" "\<not> is_space (CHR 0x22)" "\<not> is_space (CHR '':'')" "\<not> is_space (CHR '','')"
  "\<not> is_space (CHR ''{'')" "\<not> is_space (CHR ''}'')"
  by (simp_all add: is_space_def)

lemma read_quoted_text: "CHR 0x22 \<notin> set k \<Longrightarrow> read_quoted (CHR 0x22 # k @ CHR 0x22 # s) = Some (k, s)"
  by (simp add: read_quoted_def cut_at_append)

lemma read_quoted_space: "is_space c \<Longrightarrow> read_quoted (c # s) = read_quoted s"
  by (simp add: read_quoted_def)

lemma read_members_text:
  assumes "kvs \<noteq> []" and "\<forall>kv \<in> set kvs. CHR 0x22 \<notin> set (fst kv @ snd kv)" and "length kvs \<le> n"
  shows "read_members n (LF # intercalate ('','' @ [LF]) (map member_text kvs) @ [LF] @ ''}'') = Some kvs"
  using assms
proof (induction kvs arbitrary: n)
  case (Cons kv kvs)
  obtain k v where kv: "kv = (k, v)" by (cases kv)
  then obtain m where n: "n = Suc m" using Cons.prems(3) by (cases n) auto
  have mt: "member_text (k, v) = CHR 0x22 # k @ CHR 0x22 # CHR '':'' # CHR 0x22 # v @ [CHR 0x22]"
    by (simp add: member_text_def)
  have q: "CHR 0x22 \<notin> set k" "CHR 0x22 \<notin> set v" using Cons.prems(2) kv by auto
  show ?case
  proof (cases "kvs = []")
    case True
    then show ?thesis
      using q by (simp add: kv n mt read_quoted_space read_quoted_text)
  next
    case False
    from Cons.IH [OF False, of m] Cons.prems(2,3) n
    have "read_members m (LF # intercalate ('','' @ [LF]) (map member_text kvs) @ [LF] @ ''}'') = Some kvs"
      by simp
    then show ?thesis
      using q False by (simp add: kv n intercalate_Cons mt read_quoted_space read_quoted_text)
  qed
qed simp

section \<open>The interface of serializers\<close>

text \<open>
  \<open>kv_serializer\<close> (lib/kv_serializer.hpp) is an abstract class: a serializer promises to read back what it
  wrote, on the lists it is made for. A client can then tell such lists apart by their texts.
\<close>

definition plain_members :: "kv_list_t \<Rightarrow> bool" where
  "plain_members kvs \<longleftrightarrow>
     (\<forall>kv \<in> set kvs. CHR 0x22 \<notin> set (fst kv @ snd kv) \<and> CHR 0x5C \<notin> set (fst kv @ snd kv))"

locale kv_serializer =
  fixes to_text :: "kv_list_t \<Rightarrow> string"
    and of_text :: "string \<Rightarrow> kv_list_t result"
    and supported :: "kv_list_t \<Rightarrow> bool"
  assumes reads_back: "supported kvs \<Longrightarrow> of_text (to_text kvs) = Inr kvs"
begin

lemma texts_differ: "inj_on to_text (Collect supported)"
proof (rule inj_onI)
  fix xs ys
  assume s: "xs \<in> Collect supported" "ys \<in> Collect supported" and eq: "to_text xs = to_text ys"
  have "Inr xs = of_text (to_text ys)" using reads_back [of xs] s(1) unfolding eq by (simp add: eq_commute)
  then show "xs = ys" using reads_back [of ys] s(2) by simp
qed

end

locale json_library =
  fixes R :: rlib and read_json :: "string \<Rightarrow> kv_list_t result"
  assumes string_laws: "rlib_laws R" and reads_flat: "reads_flat_objects read_json"

lemma json_reads_back:
  assumes "rlib_laws R" and "reads_flat_objects read_json" and "plain_members kvs"
  shows "deserialize read_json (serialize R kvs) = Inr kvs"
proof -
  note plain = assms(3) [unfolded plain_members_def]
  have "read_flat (object_text kvs) = Some kvs"
  proof (cases "kvs = []")
    case False
    let ?t = "LF # intercalate ('','' @ [LF]) (map member_text kvs) @ [LF] @ ''}''"
    have "length kvs \<le> length (intercalate d (map member_text kvs))" for d
      using length_intercalate [of "map member_text kvs" d] by (auto simp: member_text_def)
    then have "length kvs \<le> length ?t" by (simp add: le_SucI trans_le_add1)
    with read_members_text [OF False, of "length ?t"] plain have "read_members (length ?t) ?t = Some kvs"
      by auto
    moreover have "skip_space ?t \<noteq> ''}''"
      using False by (cases kvs rule: list.exhaust; cases "tl kvs") (auto simp: member_text_def)
    ultimately show ?thesis using False by (simp add: read_flat_def object_text_def)
  qed (simp add: read_flat_def object_text_def is_space_def)
  moreover have "CHR 0x5C \<notin> set (object_text kvs)"
  proof -
    have "CHR 0x5C \<notin> set (member_text kv)" if "kv \<in> set kvs" for kv
      using plain that by (simp add: member_text_def)
    then have "CHR 0x5C \<notin> (\<Union>p \<in> set (map member_text kvs). set p)" by simp
    then have "CHR 0x5C \<notin> set (intercalate d (map member_text kvs))" if "CHR 0x5C \<notin> set d" for d
      using that set_intercalate [of d "map member_text kvs"] by blast
    then show ?thesis by (simp add: object_text_def)
  qed
  moreover have "object_text kvs \<noteq> []" by (simp add: object_text_def)
  ultimately show ?thesis
    using assms(2) by (simp add: serialize_object_text [OF assms(1)] deserialize_eq reads_flat_objects_def)
qed

sublocale json_library \<subseteq> json: kv_serializer "serialize R" "deserialize read_json" plain_members
  by unfold_locales (rule json_reads_back [OF string_laws reads_flat])

context json_library
begin

lemma read_back: "plain_members kvs \<Longrightarrow> deserialize read_json (serialize R kvs) = Inr kvs"
  by (rule json.reads_back)

lemma told_apart: "inj_on (serialize R) (Collect plain_members)"
  by (rule json.texts_differ)

end

interpretation reference_json: json_library plain_rlib flat_reader
  by unfold_locales (rule plain_rlib_laws flat_reader_reads)+

section \<open>Properties\<close>

text \<open>
  \<open>serialize\<close>, which leaves a comma after the last member and then overwrites the last two
  characters, writes the members joined by commas between the braces of one object, and nothing else.
\<close>

theorem serialize_joins_members:
  assumes "rlib_laws R"
  shows "serialize R kvs = object_text kvs"
  using assms by (rule serialize_object_text)

theorem serialize_joins_members_witness:
  \<open>serialize plain_rlib [(''a'', ''1''), (''b'', ''2'')] =
     ''{'' @ [LF] @ ''"a":"1",'' @ [LF] @ ''"b":"2"'' @ [LF] @ ''}''\<close>
  by (simp add: serialize_joins_members [OF plain_rlib_laws] object_text_def member_text_def)



text \<open>
  Nothing is escaped: a value with quotes in it writes members of its own, and two different lists
  come out as the same text.
\<close>

theorem json_values_inject_members:
  assumes "rlib_laws R" and "v = u @ [CHR 0x22, CHR '','', LF, CHR 0x22] @ k' @ [CHR 0x22, CHR '':'', CHR 0x22] @ v'"
  shows "serialize R (kvs @ [(k, v)]) = serialize R (kvs @ [(k, u), (k', v')])"
  by (cases "kvs = []")
     (simp_all add: serialize_object_text [OF assms(1)] object_text_def member_text_def assms(2)
       intercalate_append)

theorem json_values_inject_members_witness:
  "serialize plain_rlib [(''a'', [CHR ''1'', CHR 0x22, CHR '','', LF, CHR 0x22, CHR ''b'', CHR 0x22, CHR '':'',
       CHR 0x22, CHR ''2''])] = serialize plain_rlib [(''a'', ''1''), (''b'', ''2'')]"
  using json_values_inject_members [OF plain_rlib_laws refl, of "[]" "''a''" "''1''" "''b''" "''2''"] by simp

end
