(* ===== verification/Etcd_Kv.thy ===== *)
theory Etcd_Kv
  imports Prelude
begin

text \<open>
  The deprecated \<open>etcd_kv_service\<close> of src/etcd_kv_service.hpp and src/etcd_kv_service.cc, a template over
  \<open>is_provider\<close>: a provider may only set, a consumer may only get, from a cache. \<open>pull_cache\<close>, which
  would fill the cache, is declared and defined nowhere; it is the argument \<open>pulled\<close>. \<open>connect\<close> has an
  empty body.
\<close>

record etcd_kv =
  cache :: "string \<Rightarrow> string option"

definition kv_connect :: "string \<Rightarrow> etcd_kv \<Rightarrow> etcd_kv" where
  "kv_connect etcd_addr_and_port s = s"

text \<open>\<open>cache[key]\<close> of an \<open>unordered_map\<close> inserts an empty value under a key that is not there.\<close>

definition kv_get :: "bool \<Rightarrow> string \<Rightarrow> etcd_kv \<Rightarrow> string result \<times> etcd_kv" where
  "kv_get is_provider key s =
     (if is_provider
      then (Inl (Invalid_Argument ''You must not call etcd_kv_service::get in provider.''), s)
      else case cache s key of
          Some v \<Rightarrow> (Inr v, s)
        | None \<Rightarrow> (Inr [], s\<lparr>cache := (cache s)(key \<mapsto> [])\<rparr>))"

definition kv_set :: "bool \<Rightarrow> string \<Rightarrow> string \<Rightarrow> etcd_kv \<Rightarrow> unit result \<times> etcd_kv" where
  "kv_set is_provider key val s =
     (if \<not> is_provider
      then (Inl (Invalid_Argument ''You must not call etcd_kv_service::set in consumer.''), s)
      else (Inr (), s))"

definition etcd_kv_new ::
  "bool \<Rightarrow> string \<Rightarrow> (string \<Rightarrow> string option) \<Rightarrow> unit result \<times> etcd_kv" where
  "etcd_kv_new is_provider etcd_addr_and_port pulled =
     (let s = kv_connect etcd_addr_and_port \<lparr>cache = (\<lambda>_. None)\<rparr>
      in if is_provider then kv_set is_provider ''providers'' ''my_addr:my_port'' s
         else (Inr (), s\<lparr>cache := pulled\<rparr>))"

section \<open>Properties\<close>

text \<open>
  Each role has the one operation that is its own: of get and set exactly one throws, in either role,
  and the one that does not leaves every value of the cache as it was; constructing never throws.
\<close>

theorem kv_roles:
  "(isl (fst (kv_get role key s)) \<longleftrightarrow> \<not> isl (fst (kv_set role key val s))) \<and>
   cache s \<subseteq>\<^sub>m cache (snd (kv_get role key s)) \<and> snd (kv_set role key val s) = s \<and>
   fst (etcd_kv_new role addr pulled) = Inr ()"
  by (auto simp: kv_get_def kv_set_def etcd_kv_new_def map_le_def split: option.splits)

end
