(* ===== verification/Spec2Isabelle.thy ===== *)
theory Spec2Isabelle
  imports Pool_Threads Pool_Progress Dubbo_Rpc Start_Up Concurrent_Agents List_Programs Pool_Programs
    Selector_Threads Agent_Main Json_Serializer Etcd_Kv
begin

text \<open>
  The middleware agent of this repository, as a library of theories. A consumer sends an HTTP POST to the
  consumer agent; the agent picks a provider agent, sends it the four arguments of the call as lines of
  text over a pooled connection, and the provider agent makes the call to a Dubbo server over the Dubbo
  protocol. Provider agents register in etcd, where the consumer agent finds them when it starts.

  \<^bold>\<open>Parts and theories\<close>
  \<^item> \<open>Prelude\<close>: errors as values (an exception with its class and message, undefined behaviour as an
    error of its own), fallible steps, strings cut and joined, bytes.
  \<^item> \<open>Traceable_List\<close> (lib/traceable_list.hpp): the doubly linked list over an explicit heap of nodes;
    \<open>rep s l\<close> says that the list in state \<open>s\<close> holds the entries \<open>l\<close>. Locale \<open>object_buffer\<close>: what the
    pools use of the list.
  \<^item> \<open>Object_Pool\<close> (lib/pool.hpp): the buffer and the free list of both pools, their borrow and release;
    \<open>pool_ok\<close> is the invariant, \<open>lent\<close> the objects out, \<open>stack_of\<close> the abstraction to a stack of free
    objects. Locale \<open>lending_pool\<close>: what a client of a pool relies on, interpreted on both pools.
  \<^item> \<open>Pool_Threads\<close>, \<open>Asio_Event\<close>, \<open>Pool_Coro\<close> (lib/pool.hpp, lib/boost_asio_event.hpp): borrowing and
    releasing by any number of threads or coroutines, as step relations whose steps are the critical
    sections; invariants by rule induction, and schedules that reach the bad states. \<open>Pool_Progress\<close>: a
    waiting coroutine can always be served.
  \<^item> \<open>Programs\<close>: programs of calls, legal ones and their outcome. Locale \<open>program_refinement\<close>: when every call
    agrees with its specification, every program does. \<open>List_Programs\<close> interprets it on the list and plain lists
    of entries, \<open>Pool_Programs\<close> on the pool and a stack of free objects.
  \<^item> \<open>Wires\<close>: what is on the way on the connections of a pool that coroutines share. Locale
    \<open>connection_use\<close>: a protocol that leaves its connection silent, interpreted on both protocols of the agent.
  \<^item> \<open>Rlib\<close>, \<open>Net_Io\<close>: what is used of the string library, of Boost.Asio and of Boost.Beast, as records of
    operations with the documented behaviour as hypotheses (\<open>rlib_laws\<close>, \<open>stream_laws\<close>, \<open>delivers\<close>,
    \<open>connects\<close>), each met by a concrete instance. Also src/logger.hpp's throwing macros and
    lib/boost_asio_quick_connect.hpp.
  \<^item> \<open>Conn_Pool\<close> (lib/conn_pool.hpp): the pooled connection and its use under a scope guard, \<open>with_conn\<close>.
  \<^item> \<open>Dubbo_Header\<close>, \<open>Dubbo_Client\<close> (lib/dubbo_client.hpp): the 16-byte header, the request text, the
    exchange and the checks on the answer, \<open>async_request\<close> and \<open>sync_request\<close>. \<open>Dubbo_Coro\<close>: many
    \<open>async_request\<close>s at once, cut at their suspension points, over the pool of \<open>Pool_Coro\<close> and a server
    that answers each connection in order; the invariant says what is on the way on every connection.
    \<open>Dubbo_Rpc\<close>: calls that are atomic, which these implement, and a call can always finish.
  \<^item> \<open>Etcd_Service\<close> (src/etcd_service.hpp, src/etcd_service.cc): registering and listing, and two
    registrations interleaved call by call.
  \<^item> \<open>Dubbo_Args\<close>, \<open>Provider_Info\<close>, \<open>Provider_Selector\<close> (src/provider_selector.hpp): the parse of a request
    body, the connection to one provider agent, and the choice of the provider. \<open>Selector_Threads\<close>: the
    choice cut into the accesses to what the threads share. \<open>Provider_Coro\<close>: many
    \<open>provider_info::async_request\<close>s at once, cut at their suspension points.
  \<^item> \<open>Consumer_Agent\<close> (src/consumer_agent.hpp, src/consumer_agent.cc), \<open>Provider_Agent\<close>
    (src/provider_agent.hpp, src/provider_agent.cc): constructors, request handling, sessions, listening.
    \<open>Two_Agents\<close>: both together, the network of the consumer agent leading to sessions of the provider agent.
    \<open>Agent_Cluster\<close>: one consumer agent and any number of provider agents, over time. \<open>Start_Up\<close>: from
    registration to the answers. \<open>Concurrent_Agents\<close>: \<open>Provider_Coro\<close>, a session for each connection and
    \<open>Dubbo_Coro\<close>, interleaved.
  \<^item> \<open>Json_Serializer\<close> (lib/json_serializer.hpp, lib/kv_serializer.hpp), \<open>Etcd_Kv\<close>
    (src/etcd_kv_service.hpp, src/etcd_kv_service.cc), \<open>Agent_Main\<close> (src/main.cc). Locale
    \<open>kv_serializer\<close>: the abstract class of lib/kv_serializer.hpp, which the JSON serializer implements over
    any library that keeps the laws (\<open>json_library\<close>).

  \<^bold>\<open>How code becomes definitions\<close>
  An operation is a function from the state to a result and the new state. A pointer is an address or
  none; a null or dangling one gives \<open>Undefined\<close>, as do a vector read past its end and a buffer without a
  terminating zero. The world outside (sockets, etcd, the clock) is a value \<open>'w\<close> that the operations of
  the parameter records pass along. A coroutine that has to wait for a connection gives \<open>None\<close>. In
  \<open>Conn_Pool\<close> and above a request runs by itself; what other coroutines do in the meantime is the subject of
  \<open>Pool_Coro\<close>, \<open>Dubbo_Coro\<close>, \<open>Provider_Coro\<close> and \<open>Concurrent_Agents\<close>.

  \<^bold>\<open>Loops and bounds\<close>
  The pointer loops \<open>pop_some\<close> and \<open>destroy\<close> and the two sessions are partial functions into \<open>option\<close>,
  where \<open>None\<close> is a loop that does not end, and are proved to end: the first two on a well-linked list,
  \<open>do_session\<close> on a connection whose stream ends (\<open>session_serves\<close>), \<open>session_consumer\<close> when its peer
  closes or a call fails. No fuel is used in the model of the code; \<open>read_members\<close>, a reference reader, takes
  the length of the text, which is more than it has members. Sizes, ids, ports, latencies and lengths
  are words of the code's width; the buffers have 2048 bytes and the pools 256 connections as in the code.

  \<^bold>\<open>What the theorems show\<close>
  Each property has its claim number in the text before it. The system starts: agents that register are found and
  connected to, and requests that come in at the consumer agent, one after the other, go out with the values the
  Dubbo server gives for their arguments, whichever provider they are sent to. Under concurrency, with
  connections that fail at any moment, every request and every Dubbo call gets the answer to its own or an error, though
  neither protocol's numbers are looked at; the Dubbo calls refine atomic ones. The pools never lend an object twice
  and lose none, whatever the interleaving, and a coroutine that waits can be served; programs over the list and
  over the pool refine programs over a plain list and over a stack; headers and serialized objects round-trip; the
  round robin is fair in proportion; sessions end and answer in order. Several
  theorems show what goes wrong: wakeups that are lost, a registration lost to a race, threads that race on
  the round robin, a slow or unknown provider, a failed call that spoils a provider, a short read that crashes
  a session, arguments shifted by a line feed, an answer left unread in a connection, an overrun buffer.

  \<^bold>\<open>Not modelled\<close>
  Log output and timing lines (of the log, only the line for an unknown role is there, as it is printed with the
  help), the deprecated lib/http_forwarder.hpp (its functions have empty bodies), the empty heartbeat of the provider agent, tests and build scripts. The
  acceptors' endless loops appear as what they do with a list of accept outcomes.
\<close>

section \<open>Properties that span components\<close>

text \<open>
  C10: the agents find each other: provider agents of the three known host names start one after the other
  on an etcd without the key, then the consumer agent starts; it returns, connected to exactly these
  providers in their order, with all connections free, and its queue gives each its share.
\<close>

theorem cluster_comes_up:
  fixes net :: "('s, 'p, 'w) net"
  assumes "rlib_laws R" and "etcd_laws cli stored" and "connects net" and "\<forall>n. inj (alloc n)"
    and "stored w ''server'' = None" and "es \<noteq> []"
    and "\<forall>e \<in> set es. fst e \<in> {''provider-small'', ''provider-medium'', ''provider-large''}"
  shows "\<exists>agents w1 agent w2. start_providers R cli pa pp es w = (Inr (agents :: 's provider_agent list), w1) \<and>
    consumer_agent_new R cli net alloc threads w1 = (Inr agent, w2) \<and>
    list_all2 connected es (providers (selector agent)) \<and> selector_ok (selector agent) \<and>
    build_queue 0 (map fst es) [] = Inr (robin_queue (selector agent))"
proof -
  have "\<forall>e \<in> set es. CHR '':'' \<notin> set (fst e) \<and> CHR ''|'' \<notin> set (fst e)" using assms(7) by auto
  with assms(1,2,5,6) have "\<exists>agents w1. start_providers R cli pa pp es w =
      (Inr (agents :: 's provider_agent list), w1) \<and> length agents = length es \<and> registered stored w1 es"
    by (intro providers_registered)
  then obtain agents :: "'s provider_agent list" and w1 where
    w1: "start_providers R cli pa pp es w = (Inr agents, w1)" "registered stored w1 es" by blast
  obtain al v ps w2 where l: "get_list R cli ''server'' w1 = (Inr al, v)"
    "load_providers R net alloc al [] v = (Inr ps, w2)" "list_all2 connected es ps"
    using providers_loaded [OF assms(1-4) w1(2)] by blast
  define cls where "cls h = the (class_of_host h)" for h
  have known: "\<forall>h \<in> set (map fst es). class_of_host h = Some (cls h)"
    using assms(7) by (auto simp: cls_def class_of_host_def)
  let ?q = "queue_of 0 (map (robin_weight \<circ> cls) (map fst es))"
  have q: "build_queue 0 (map fst es) [] = Inr ?q" using build_queue_known [OF known, of 0 "[]"] by simp
  have ok: "selector_ok \<lparr>providers = ps, robin_queue = ?q, curr = 0\<rparr>"
    using selector_ok_loaded [OF l(3) assms(6)] by simp
  have "ps \<noteq> []" using assms(6) l(3) by auto
  then have "consumer_agent_new R cli net alloc threads w1 =
      (Inr \<lparr>selector = \<lparr>providers = ps, robin_queue = ?q, curr = 0\<rparr>, agent_threads = threads\<rparr>, w2)"
    using l q connected_hosts [OF l(3)]
    by (simp add: consumer_agent_new_def provider_selector_new_def and_then_def)
  with w1(1) l(3) ok q show ?thesis by fastforce
qed

theorem cluster_comes_up_witness:
  "\<exists>agents w1 agent w2. start_providers plain_rlib map_etcd ''127.0.0.1'' 20880
       [(''provider-small'', 30000), (''provider-large'', 30001)] (\<lambda>_. None) =
         (Inr (agents :: unit provider_agent list), w1) \<and>
     consumer_agent_new plain_rlib map_etcd always_connected (\<lambda>_ i. i) 1 w1 = (Inr agent, w2) \<and>
     selector_ok (selector agent)"
  using cluster_comes_up [OF plain_rlib_laws map_etcd_laws always_connected_connects, of "\<lambda>_ i. i" "\<lambda>_. None"
      "[(''provider-small'', 30000), (''provider-large'', 30001)]" "''127.0.0.1''" 20880 1]
  by auto

text \<open>
  C38: one provider agent started under a name the queue does not know (\<open>main\<close> accepts any name that
  starts with \<open>provider\<close>) stops every consumer agent from starting, whatever other providers there are.
\<close>

theorem unknown_provider_stops_consumers:
  fixes net :: "('s, 'p, 'w) net"
  assumes "rlib_laws R" and "etcd_laws cli stored" and "connects net" and "\<forall>n. inj (alloc n)"
    and "stored w ''server'' = None"
    and "\<forall>e \<in> set es. CHR '':'' \<notin> set (fst e) \<and> CHR ''|'' \<notin> set (fst e)"
    and "e \<in> set es" and "class_of_host (fst e) = None"
  shows "\<exists>agents w1. start_providers R cli pa pp es w = (Inr (agents :: 's provider_agent list), w1) \<and>
    fst (consumer_agent_new R cli net alloc threads w1) =
      Inl (Runtime_Error ''naive robin found unknown provider.'')"
proof -
  have "es \<noteq> []" using assms(7) by auto
  with assms(1,2,5,6) have "\<exists>agents w1. start_providers R cli pa pp es w =
      (Inr (agents :: 's provider_agent list), w1) \<and> length agents = length es \<and> registered stored w1 es"
    by (intro providers_registered)
  then obtain agents :: "'s provider_agent list" and w1 where
    w1: "start_providers R cli pa pp es w = (Inr agents, w1)" "registered stored w1 es" by blast
  obtain al v ps w2 where l: "get_list R cli ''server'' w1 = (Inr al, v)"
    "load_providers R net alloc al [] v = (Inr ps, w2)" "list_all2 connected es ps"
    using providers_loaded [OF assms(1-4) w1(2)] by blast
  have "build_queue 0 (map fst es) [] = Inl (Runtime_Error ''naive robin found unknown provider.'')"
    using assms(7,8) by (intro build_queue_unknown) auto
  moreover have "ps \<noteq> []" using \<open>es \<noteq> []\<close> l(3) by auto
  ultimately have "fst (consumer_agent_new R cli net alloc threads w1) =
      Inl (Runtime_Error ''naive robin found unknown provider.'')"
    using l connected_hosts [OF l(3)]
    by (simp add: consumer_agent_new_def provider_selector_new_def and_then_def)
  with w1(1) show ?thesis by blast
qed

theorem unknown_provider_stops_consumers_witness:
  "\<exists>agents w1. start_providers plain_rlib map_etcd ''127.0.0.1'' 20880
       [(''provider-small'', 30000), (''provider-huge'', 30001)] (\<lambda>_. None) =
         (Inr (agents :: unit provider_agent list), w1) \<and>
     fst (consumer_agent_new plain_rlib map_etcd always_connected (\<lambda>_ i. i) 1 w1) =
       Inl (Runtime_Error ''naive robin found unknown provider.'')"
  using unknown_provider_stops_consumers [OF plain_rlib_laws map_etcd_laws always_connected_connects,
      of "\<lambda>_ i. i" "\<lambda>_. None" "[(''provider-small'', 30000), (''provider-huge'', 30001)]"
        "(''provider-huge'', 30001)" "''127.0.0.1''" 20880 1]
  by (simp add: class_of_host_def)

text \<open>
  The path of a call through both agents: from the body of the consumer's request, with the four
  arguments written into it, the consumer agent writes one line, and a provider agent that reads this line
  in one piece has the same four arguments for the Dubbo server, in their slots. (No \<open>&\<close>, line feed or
  zero byte in an argument, no \<open>%\<close> in the types, none empty, less than 2048 bytes in all.)
\<close>

theorem call_crosses_both_agents:
  assumes "rlib_laws R" and "length args = 4" and "[] \<notin> set args"
    and "\<forall>a \<in> set args. CHR ''&'' \<notin> set a \<and> LF \<notin> set a \<and> CHR 0x00 \<notin> set a"
    and "CHR ''%'' \<notin> set (args ! 2)" and "length (intercalate [LF] args) < buffer_size"
  shows "provider_exchange R net now (form_body args) s w =
      (case net_write net s (bytes_of (wire_text R args)) w of
         (Some ec, w1) \<Rightarrow> (Inr (resp_500, None), w1)
       | (None, w1) \<Rightarrow> read_answer net now s w1) \<and>
    (net_read_some net2 sock buffer_size v = ((None, bytes_of (wire_text R args)), v1) \<longrightarrow>
      serve_call R net2 fresh sock d v = serve_line R net2 fresh sock (wire_text R args) d v1 \<and>
      call_args R (wire_text R args) = Inr args)"
proof -
  have lf: "\<forall>a \<in> set args. LF \<notin> set a \<and> CHR 0x00 \<notin> set a" using assms(4) by blast
  have "\<forall>i < 4. CHR ''&'' \<notin> set (args ! i)" using assms(2,4) nth_mem [of _ args] by auto
  then have "http_payload_to_dubbo_parameters R (form_body args) = Inr args"
    using form_body_parsed [OF assms(1-3) _ assms(5)] by blast
  moreover have "length (wire_text R args) < buffer_size"
    using assms(6) by (simp add: wire_text_def rl_join [OF assms(1)])
  ultimately show ?thesis
    using read_line_args [OF assms(1,2) lf] read_line_served [OF assms(1,2) lf, of net2 sock v v1 fresh d]
    by (auto simp: provider_exchange_def)
qed

theorem call_crosses_both_agents_witness:
  "call_args plain_rlib (wire_text plain_rlib [''S'', ''hash'', ''Ljava/String;'', ''x'']) =
     Inr [''S'', ''hash'', ''Ljava/String;'', ''x'']"
proof -
  let ?args = "[''S'', ''hash'', ''Ljava/String;'', ''x'']" and ?line = "bytes_of (wire_text plain_rlib
      [''S'', ''hash'', ''Ljava/String;'', ''x''])"
  define w where "w = \<lparr>arrived = (\<lambda>_. [])(1 := ?line), sent = (\<lambda>_. []), sockets = 2\<rparr>"
  have wire: "wire_text plain_rlib ?args = ''S\<newline>hash\<newline>Ljava/String;\<newline>x''"
    by (simp add: wire_text_def rl_join [OF plain_rlib_laws])
  have "net_read_some (memory_net (\<lambda>_. [])) 1 buffer_size w =
      ((None, ?line), w\<lparr>arrived := (arrived w)(1 := [])\<rparr>)"
    by (simp add: memory_net_def w_def buffer_size_def wire) (simp add: bytes_of_def)
  then show ?thesis
    using call_crosses_both_agents [OF plain_rlib_laws, of ?args "memory_net (\<lambda>_. [])" "\<lambda>_. 0" 0 w
        "memory_net (\<lambda>_. [])" 1 w "w\<lparr>arrived := (arrived w)(1 := [])\<rparr>" 9 sample_client]
    by (simp add: buffer_size_def)
qed

end
